(* ===== verification/Prelude.thy ===== *)
theory Prelude
  imports Main "HOL-Library.Word" "HOL-Library.Monad_Syntax"
begin

text \<open>
  The shared base of the library: names for the machine types of the C sources, the
  collections of simplification rules the component theories use, and the generic
  facts on words, lists and options that several components need.
\<close>

unbundle bit_operations_syntax

section \<open>Machine types\<close>

text \<open>
  C's \<open>unsigned char\<close>, \<open>unsigned short\<close>, \<open>unsigned int\<close> (or \<open>uint32_t\<close>) and
  \<open>unsigned long long\<close> on the supported platforms. A signed \<open>int\<close> whose wrap-around
  matters is the same word read with \<open>sint\<close>; one that only counts is an \<open>int\<close>.
\<close>

type_synonym u8 = "8 word"
type_synonym u16 = "16 word"
type_synonym u32 = "32 word"
type_synonym u64 = "64 word"

text \<open>
  The rewrite collections of the library: \<open>invariant_simps\<close> unfolds well-formedness
  predicates, \<open>access_simps\<close> reads a component after one of its updates.
\<close>

named_theorems invariant_simps
named_theorems access_simps

section \<open>Words\<close>

lemma sint_of_int_in_range:
  assumes "- (2 ^ (LENGTH('a::len) - 1)) \<le> k" and "k < 2 ^ (LENGTH('a) - 1)"
  shows "sint (of_int k :: 'a word) = k"
  using assms by (simp add: signed_of_int signed_take_bit_int_eq_self)

lemma unat_of_nat_small:
  "n < 2 ^ LENGTH('a::len) \<Longrightarrow> unat (of_nat n :: 'a word) = n"
  by (simp add: unat_of_nat take_bit_nat_eq_self)

lemma sint_of_nat_small:
  assumes "n < 2 ^ (LENGTH('a::len) - 1)"
  shows "sint (of_nat n :: 'a word) = int n"
proof -
  have "int n < 2 ^ (LENGTH('a) - 1)"
    using assms by (metis of_nat_less_iff of_nat_numeral of_nat_power)
  moreover have "- (2 ^ (LENGTH('a) - 1)) \<le> int n"
    by (rule order_trans [of _ 0]) simp_all
  ultimately have "sint (of_int (int n) :: 'a word) = int n"
    by (rule sint_of_int_in_range [rotated])
  then show ?thesis by simp
qed

lemma sint_of_nat_diff:
  assumes "i < 2 ^ (LENGTH('a::len) - 1)" and "j < 2 ^ (LENGTH('a) - 1)"
  shows "sint (of_nat i - of_nat j :: 'a word) = int i - int j"
proof -
  have i: "int i < 2 ^ (LENGTH('a) - 1)" and j: "int j < 2 ^ (LENGTH('a) - 1)"
    using assms by (metis of_nat_less_iff of_nat_numeral of_nat_power)+
  have "of_nat i - of_nat j = (of_int (int i - int j) :: 'a word)" by simp
  also have "sint \<dots> = int i - int j"
    using i j by (intro sint_of_int_in_range; linarith)
  finally show ?thesis .
qed

text \<open>Non-negative numbers below \<open>2 ^ w\<close> are compared as they are.\<close>

lemma uint_of_int_small:
  "0 \<le> k \<Longrightarrow> k < 2 ^ LENGTH('a::len) \<Longrightarrow> uint (of_int k :: 'a word) = k"
  by (simp add: unsigned_of_int take_bit_int_eq_self)

lemma of_int_word_cmp:
  assumes "0 \<le> a" "a < 2 ^ LENGTH('a::len)" "0 \<le> b" "b < 2 ^ LENGTH('a)"
  shows "(of_int a :: 'a word) = of_int b \<longleftrightarrow> a = b"
    and "(of_int a :: 'a word) < of_int b \<longleftrightarrow> a < b"
    and "(of_int a :: 'a word) \<le> of_int b \<longleftrightarrow> a \<le> b"
  using assms uint_of_int_small [of a, where 'a = 'a] uint_of_int_small [of b, where 'a = 'a]
  by (metis, simp_all add: word_less_def word_le_def)

text \<open>A conversion to a type that is not narrower keeps the value.\<close>

lemma unat_ucast_up:
  assumes "LENGTH('a::len) \<le> LENGTH('b::len)"
  shows "unat (ucast (x :: 'a word) :: 'b word) = unat x"
proof -
  have "unat x < 2 ^ LENGTH('a)" by (rule unsigned_less)
  also have "\<dots> \<le> 2 ^ LENGTH('b)" using assms by (intro power_increasing) auto
  finally show ?thesis by (simp add: unsigned_ucast_eq take_bit_nat_eq_self)
qed

section \<open>Text\<close>

text \<open>The bytes of a string literal.\<close>

definition bytes :: "string \<Rightarrow> u8 list" where
  "bytes s = map (\<lambda>c. of_nat (of_char c)) s"

text \<open>Decimal digits, as \<open>%d\<close> prints them.\<close>

fun digits :: "nat \<Rightarrow> u8 list" where
  "digits n = (if n < 10 then [of_nat n + 48] else digits (n div 10) @ [of_nat (n mod 10) + 48])"

declare digits.simps [simp del]

definition fmt_d :: "int \<Rightarrow> u8 list" where
  "fmt_d i = (if i < 0 then 45 # digits (nat (- i)) else digits (nat i))"

end
