(* ===== verification/Ticks.thy ===== *)
theory Ticks
  imports Prelude
begin

text \<open>
  Expiration dates in 32-bit ticks, \<open>src/src/common/ticks.h\<close>. The code computes on
  \<open>int\<close> and compares by the sign of a difference that may wrap; a tick is therefore
  a 32-bit word and the sign is read with \<open>sint\<close>. The value 0 means ``not set''.
  The theorems say that the sign of the difference is the chronological order of any two
  dates of one window of less than \<open>2 ^ 31\<close> milliseconds, wherever that window lies on
  the wrapping clock, and that no computed date is the magic value 0.
\<close>

section \<open>The operations of ticks.h\<close>

definition TICK_ETERNITY :: u32 where
  "TICK_ETERNITY = 0"

definition tick_isset :: "u32 \<Rightarrow> bool" where
  "tick_isset expire \<longleftrightarrow> expire \<noteq> 0"

definition tick_add :: "u32 \<Rightarrow> u32 \<Rightarrow> u32" where
  "tick_add now timeout =
     (let now = now + timeout in if now = 0 then now + 1 else now)"

definition tick_add_ifset :: "u32 \<Rightarrow> u32 \<Rightarrow> u32" where
  "tick_add_ifset now timeout =
     (if timeout = 0 then TICK_ETERNITY else tick_add now timeout)"

definition tick_is_lt :: "u32 \<Rightarrow> u32 \<Rightarrow> bool" where
  "tick_is_lt t1 t2 \<longleftrightarrow> sint (t1 - t2) < 0"

definition tick_is_le :: "u32 \<Rightarrow> u32 \<Rightarrow> bool" where
  "tick_is_le t1 t2 \<longleftrightarrow> sint (t1 - t2) \<le> 0"

definition tick_is_expired :: "u32 \<Rightarrow> u32 \<Rightarrow> bool" where
  "tick_is_expired timer now =
     (if \<not> tick_isset timer then False
      else if sint (timer - now) \<le> 0 then True
      else False)"

definition tick_first :: "u32 \<Rightarrow> u32 \<Rightarrow> u32" where
  "tick_first t1 t2 =
     (if \<not> tick_isset t1 then t2
      else if \<not> tick_isset t2 then t1
      else if sint (t1 - t2) \<le> 0 then t1
      else t2)"

definition tick_first_2nz :: "u32 \<Rightarrow> u32 \<Rightarrow> u32" where
  "tick_first_2nz t1 t2 =
     (if \<not> tick_isset t1 then t2
      else if sint (t1 - t2) \<le> 0 then t1
      else t2)"

definition tick_remain :: "u32 \<Rightarrow> u32 \<Rightarrow> u32" where
  "tick_remain now exp = (if tick_is_expired exp now then 0 else exp - now)"

section \<open>Ticks of one window\<close>

lemma window_diff:
  assumes "i < 2 ^ 31" and "j < 2 ^ 31"
  shows "sint ((b + of_nat i) - (b + of_nat j) :: u32) = int i - int j"
proof -
  have "(b + of_nat i) - (b + of_nat j) = (of_nat i - of_nat j :: u32)" by simp
  then show ?thesis using assms sint_of_nat_diff [of i j, where 'a = 32] by simp
qed

lemma window_inj:
  assumes "i < 2 ^ 31" and "j < 2 ^ 31"
  shows "b + of_nat i = (b + of_nat j :: u32) \<longleftrightarrow> i = j"
  using window_diff [OF assms, of b] by auto

lemma tick_is_lt_window [simp]:
  assumes "i < 2 ^ 31" and "j < 2 ^ 31"
  shows "tick_is_lt (b + of_nat i) (b + of_nat j) \<longleftrightarrow> i < j"
  using window_diff [OF assms, of b] by (simp add: tick_is_lt_def)

lemma tick_is_le_window [simp]:
  assumes "i < 2 ^ 31" and "j < 2 ^ 31"
  shows "tick_is_le (b + of_nat i) (b + of_nat j) \<longleftrightarrow> i \<le> j"
  using window_diff [OF assms, of b] by (simp add: tick_is_le_def)

lemma tick_is_le_lt: "tick_is_le a b \<longleftrightarrow> tick_is_lt a b \<or> a = b"
proof -
  have "sint (a - b) = 0 \<longleftrightarrow> a - b = 0" by (rule signed_eq_0_iff)
  then show ?thesis by (auto simp: tick_is_le_def tick_is_lt_def)
qed

lemma tick_is_lt_irrefl [simp]: "\<not> tick_is_lt t t"
  by (simp add: tick_is_lt_def)

lemma tick_is_expired_le: "tick_is_expired timer now \<longleftrightarrow> tick_isset timer \<and> tick_is_le timer now"
  by (simp add: tick_is_expired_def tick_is_le_def)

section \<open>Properties\<close>

text \<open>Adding a timeout to a date never gives the magic value that means ``no date'',
  and it is off the exact sum by the documented one millisecond at most.\<close>

theorem tick_add_is_set:
  "tick_isset (tick_add now timeout) \<and>
   tick_add now timeout - (now + timeout) \<in> {0, 1}"
  by (simp add: tick_isset_def tick_add_def Let_def)

text \<open>For dates within \<open>2 ^ 31\<close> ms after any base date \<open>b\<close>, however the 32-bit clock
  wraps, \<open>tick_is_lt\<close> and \<open>tick_is_le\<close> are the chronological order, and \<open>tick_first\<close> is
  the earlier of the two when both are set.\<close>

theorem tick_order_window:
  assumes "i < 2 ^ 31" and "j < 2 ^ 31"
  shows "(tick_is_lt (b + of_nat i) (b + of_nat j) \<longleftrightarrow> i < j) \<and>
         (tick_is_le (b + of_nat i) (b + of_nat j) \<longleftrightarrow> i \<le> j) \<and>
         (tick_isset (b + of_nat i) \<and> tick_isset (b + of_nat j) \<longrightarrow>
            tick_first (b + of_nat i) (b + of_nat j) = b + of_nat (min i j))"
  using assms window_diff [OF assms, of b]
  by (auto simp: tick_first_def min_def)

theorem tick_order_window_witness:
  "(5::nat) < 2 ^ 31 \<and> (9::nat) < 2 ^ 31 \<and>
   tick_is_lt ((- 7) + of_nat 5) ((- 7) + of_nat 9) \<and>
   tick_first ((- 7) + of_nat 5) ((- 7) + of_nat 9) = - 2"
proof -
  have h: "(5::nat) < 2 ^ 31" "(9::nat) < 2 ^ 31" by simp_all
  have set: "tick_isset ((- 7) + of_nat 5)" "tick_isset ((- 7) + of_nat 9)"
    by (simp_all add: tick_isset_def)
  have "(- 7) + of_nat (min 5 9) = (- 2 :: u32)" by simp
  with tick_order_window [OF h, of "- 7"] set h show ?thesis by simp
qed

text \<open>\<open>tick_remain\<close> is the number of milliseconds left before a set date: 0 once the
  date is reached, the exact distance before.\<close>

theorem tick_remain_window:
  assumes "d < 2 ^ 31" and "e < 2 ^ 31" and "tick_isset (b + of_nat e)"
  shows "unat (tick_remain (b + of_nat d) (b + of_nat e)) = e - d"
proof (cases "e \<le> d")
  case True
  with assms show ?thesis
    by (simp add: tick_remain_def tick_is_expired_le)
next
  case False
  with assms have "\<not> tick_is_expired (b + of_nat e) (b + of_nat d)"
    by (simp add: tick_is_expired_le)
  moreover have "(b + of_nat e) - (b + of_nat d) = (of_nat (e - d) :: u32)"
    using False by simp
  moreover have "unat (of_nat (e - d) :: u32) = e - d"
    using assms by (intro unat_of_nat_small) simp
  ultimately show ?thesis by (simp add: tick_remain_def)
qed

theorem tick_remain_window_witness:
  "unat (tick_remain ((- 7) + of_nat 2) ((- 7) + of_nat 12)) = 10"
proof -
  have "tick_isset ((- 7) + of_nat 12)" by (simp add: tick_isset_def)
  from tick_remain_window [OF _ _ this, of 2] show ?thesis by simp
qed

end
