(* ===== verification/Ebtree.thy ===== *)
theory Ebtree
  imports Prelude
begin

text \<open>
  Elastic binary trees on 32-bit keys, \<open>src/src/ebtree/ebtree.h\<close>, \<open>eb32tree.h\<close> and
  \<open>eb32tree.c\<close>: the ordered queues under the scheduler's timers and run queue.

  A C entry carries two parts, a leaf part that holds its key and a node part that may serve
  as an inner node somewhere above a leaf. A tree is the datatype \<open>ebt\<close>: a leaf names its
  entry and key; an inner node has its \<open>bit\<close>, the entry that lends it its node part (with that
  entry's key, which the code reads as the prefix of the node) and its two branches. The tagged
  parent pointers \<open>leaf_p\<close> and \<open>node_p\<close> are the path from a subtree to the root, a list
  of (side, sibling) pairs, innermost first; the root's right branch is always NULL, which is the
  end of that list. An entry is linked (\<open>leaf_p\<close> not NULL) when it is among the leaves.

  Shown here: \<open>flsnz\<close> is the highest bit set, the branching invariant gives the key order,
  insertion keeps it and puts an entry after all entries of the same or a smaller key, and
  the lookups and walks read that order. \<open>Ebtree_Queue\<close> adds deletion and the contract
  \<open>keyed_queue\<close> on which the scheduler relies.
\<close>

section \<open>Data\<close>

datatype 'a ebt =
    Leaf 'a u32
  | Node int 'a u32 "'a ebt" "'a ebt"

record 'a eb_root =
  b_left :: "'a ebt option"   \<comment> \<open>\<open>b[EB_LEFT]\<close>, \<open>None\<close> for NULL\<close>
  b_uniq :: bool              \<comment> \<open>the tag of \<open>b[EB_RGHT]\<close>: \<open>EB_UNIQUE\<close>\<close>

definition EB_ROOT :: "'a eb_root" where
  "EB_ROOT = \<lparr>b_left = None, b_uniq = False\<rparr>"

type_synonym 'a eb_up = "(bool \<times> 'a ebt) list"

section \<open>Operations\<close>

text \<open>The portable body of \<open>flsnz\<close>: the number of the highest bit set, from 1.\<close>

definition flsnz_step :: "u32 \<Rightarrow> nat \<Rightarrow> u32 \<times> nat \<Rightarrow> u32 \<times> nat" where
  "flsnz_step m n s =
     (case s of (x, bits) \<Rightarrow>
        if x AND m \<noteq> 0 then (x AND m, bits + n) else (x, bits))"

definition flsnz :: "u32 \<Rightarrow> nat" where
  "flsnz a =
     (let s0 = (a, 0);
          s1 = flsnz_step 0xffff0000 16 s0;
          s2 = flsnz_step 0xff00ff00 8 s1;
          s3 = flsnz_step 0xf0f0f0f0 4 s2;
          s4 = flsnz_step 0xcccccccc 2 s3;
          s5 = flsnz_step 0xaaaaaaaa 1 s4
      in snd s5 + 1)"

text \<open>\<open>eb_walk_down\<close>: the last leaf on one side (\<open>True\<close> is \<open>EB_RGHT\<close>).\<close>

fun eb_walk_down :: "bool \<Rightarrow> 'a ebt \<Rightarrow> 'a \<times> u32" where
  "eb_walk_down side (Leaf e k) = (e, k)"
| "eb_walk_down side (Node b p pk l r) = eb_walk_down side (if side then r else l)"

definition eb_is_empty :: "'a eb_root \<Rightarrow> bool" where
  "eb_is_empty root \<longleftrightarrow> b_left root = None"

definition eb_first :: "'a eb_root \<Rightarrow> ('a \<times> u32) option" where
  "eb_first root = map_option (eb_walk_down False) (b_left root)"

definition eb_last :: "'a eb_root \<Rightarrow> ('a \<times> u32) option" where
  "eb_last root = map_option (eb_walk_down True) (b_left root)"

text \<open>The parents of the leaf of an entry, from its \<open>leaf_p\<close> up to the root.\<close>

fun eb_path :: "'a \<Rightarrow> 'a ebt \<Rightarrow> 'a eb_up option" where
  "eb_path e (Leaf x k) = (if x = e then Some [] else None)"
| "eb_path e (Node b p pk l r) =
     (case eb_path e l of
        Some up \<Rightarrow> Some (up @ [(False, r)])
      | None \<Rightarrow> (case eb_path e r of
                   Some up \<Rightarrow> Some (up @ [(True, l)])
                 | None \<Rightarrow> None))"

text \<open>The end of \<open>eb_next\<close> and \<open>eb32_lookup_ge\<close>: up while on a right branch, then down the
  left side of the right sibling; NULL when the root is reached.\<close>

fun eb_up_next :: "'a eb_up \<Rightarrow> ('a \<times> u32) option" where
  "eb_up_next [] = None"
| "eb_up_next ((True, l) # up) = eb_up_next up"
| "eb_up_next ((False, r) # up) = Some (eb_walk_down False r)"

definition eb_next :: "'a \<Rightarrow> 'a eb_root \<Rightarrow> ('a \<times> u32) option" where
  "eb_next e root = Option.bind (b_left root) (\<lambda>t. Option.bind (eb_path e t) eb_up_next)"

text \<open>The end of \<open>eb_prev\<close>, symmetrically.\<close>

fun eb_up_prev :: "'a eb_up \<Rightarrow> ('a \<times> u32) option" where
  "eb_up_prev [] = None"
| "eb_up_prev ((False, r) # up) = eb_up_prev up"
| "eb_up_prev ((True, l) # up) = Some (eb_walk_down True l)"

definition eb_prev :: "'a \<Rightarrow> 'a eb_root \<Rightarrow> ('a \<times> u32) option" where
  "eb_prev e root = Option.bind (b_left root) (\<lambda>t. Option.bind (eb_path e t) eb_up_prev)"

text \<open>\<open>__eb_insert_dup\<close>: the loop looks for the deepest hole on the right branch below a node
  of bit \<open>b\<close>, a node two or more above its parent or a leaf below a node under -1.\<close>

fun dup_hole :: "int \<Rightarrow> 'a ebt \<Rightarrow> bool" where
  "dup_hole b (Leaf e k) \<longleftrightarrow> b < - 1"
| "dup_hole b (Node b' p pk l r) \<longleftrightarrow> b' > b + 1 \<or> dup_hole b' r"

fun eb_insert_dup :: "'a \<Rightarrow> u32 \<Rightarrow> 'a ebt \<Rightarrow> 'a ebt" where
  "eb_insert_dup n nk (Leaf e k) = Node (- 1) n nk (Leaf e k) (Leaf n nk)"
| "eb_insert_dup n nk (Node b p pk l r) =
     (if dup_hole b r
      then Node b p pk l (eb_insert_dup n nk r)
      else Node (b - 1) n nk (Node b p pk l r) (Leaf n nk))"

text \<open>\<open>eb_insert_dup\<close> called on the node part of a linked entry \<open>e\<close>.\<close>

fun eb_insert_dup_at :: "'a \<Rightarrow> 'a \<Rightarrow> u32 \<Rightarrow> 'a ebt \<Rightarrow> 'a ebt" where
  "eb_insert_dup_at e n nk (Leaf x k) = Leaf x k"
| "eb_insert_dup_at e n nk (Node b p pk l r) =
     (if p = e then eb_insert_dup n nk (Node b p pk l r)
      else Node b p pk (eb_insert_dup_at e n nk l) (eb_insert_dup_at e n nk r))"

text \<open>\<open>__eb32_insert\<close> from its loop on: \<open>insert_above\<close> is the code after the loop, which puts the
  new entry's node part between the subtree reached, whose node or leaf carries the key
  \<open>ok\<close>, and its parent.\<close>

definition insert_above :: "bool \<Rightarrow> 'a \<Rightarrow> u32 \<Rightarrow> 'a \<Rightarrow> u32 \<Rightarrow> 'a ebt \<Rightarrow> 'a ebt \<times> 'a" where
  "insert_above uniq n nk old ok t =
     (let nbit = (if nk = ok then - 1 else int (flsnz (nk XOR ok)) - 1) in
      if nk = ok \<and> uniq then (t, old)
      else if nk = ok \<and> (case t of Leaf _ _ \<Rightarrow> False | Node _ _ _ _ _ \<Rightarrow> True)
           then (eb_insert_dup n nk t, n)
      else if nk \<ge> ok then (Node nbit n nk t (Leaf n nk), n)
      else (Node nbit n nk (Leaf n nk) t, n))"

fun eb32_insert_at :: "bool \<Rightarrow> 'a \<Rightarrow> u32 \<Rightarrow> 'a ebt \<Rightarrow> 'a ebt \<times> 'a" where
  "eb32_insert_at uniq n nk (Leaf e k) = insert_above uniq n nk e k (Leaf e k)"
| "eb32_insert_at uniq n nk (Node b p pk l r) =
     (if b < 0 \<or> drop_bit (nat b) (nk XOR pk) \<ge> 2
      then insert_above uniq n nk p pk (Node b p pk l r)
      else if bit nk (nat b)
      then (case eb32_insert_at uniq n nk r of (r', ret) \<Rightarrow> (Node b p pk l r', ret))
      else (case eb32_insert_at uniq n nk l of (l', ret) \<Rightarrow> (Node b p pk l' r, ret)))"

definition eb32_insert :: "'a eb_root \<Rightarrow> 'a \<Rightarrow> u32 \<Rightarrow> 'a eb_root \<times> 'a" where
  "eb32_insert root n nk =
     (case b_left root of
        None \<Rightarrow> (root\<lparr>b_left := Some (Leaf n nk)\<rparr>, n)
      | Some t \<Rightarrow>
          (case eb32_insert_at (b_uniq root) n nk t of
             (t', ret) \<Rightarrow> (root\<lparr>b_left := Some t'\<rparr>, ret)))"

text \<open>\<open>eb32_lookup_ge\<close>: the loop keeps the path it came by.\<close>

fun eb32_ge_at :: "u32 \<Rightarrow> 'a ebt \<Rightarrow> 'a eb_up \<Rightarrow> ('a \<times> u32) option" where
  "eb32_ge_at x (Leaf e k) up = (if k \<ge> x then Some (e, k) else eb_up_next up)"
| "eb32_ge_at x (Node b p pk l r) up =
     (if b < 0
      then (if pk \<ge> x then Some (eb_walk_down False l) else eb_up_next up)
      else if drop_bit (nat b) (x XOR pk) \<ge> 2
      then (if drop_bit (nat b) pk > drop_bit (nat b) x
            then Some (eb_walk_down False l) else eb_up_next up)
      else if bit x (nat b)
      then eb32_ge_at x r ((True, l) # up)
      else eb32_ge_at x l ((False, r) # up))"

definition eb32_lookup_ge :: "'a eb_root \<Rightarrow> u32 \<Rightarrow> ('a \<times> u32) option" where
  "eb32_lookup_ge root x = Option.bind (b_left root) (\<lambda>t. eb32_ge_at x t [])"

text \<open>\<open>eb32_lookup_le\<close>, likewise.\<close>

fun eb32_le_at :: "u32 \<Rightarrow> 'a ebt \<Rightarrow> 'a eb_up \<Rightarrow> ('a \<times> u32) option" where
  "eb32_le_at x (Leaf e k) up = (if k \<le> x then Some (e, k) else eb_up_prev up)"
| "eb32_le_at x (Node b p pk l r) up =
     (if b < 0
      then (if pk \<le> x then Some (eb_walk_down True r) else eb_up_prev up)
      else if drop_bit (nat b) (x XOR pk) \<ge> 2
      then (if drop_bit (nat b) pk < drop_bit (nat b) x
            then Some (eb_walk_down True r) else eb_up_prev up)
      else if bit x (nat b)
      then eb32_le_at x r ((True, l) # up)
      else eb32_le_at x l ((False, r) # up))"

definition eb32_lookup_le :: "'a eb_root \<Rightarrow> u32 \<Rightarrow> ('a \<times> u32) option" where
  "eb32_lookup_le root x = Option.bind (b_left root) (\<lambda>t. eb32_le_at x t [])"

text \<open>\<open>__eb_delete\<close>. The leaf's parent is released and its sibling takes its place; the node
  part so freed, that of entry \<open>q\<close>, replaces the node part of the deleted entry where that
  is still in use.\<close>

fun eb_unlink :: "'a \<Rightarrow> 'a ebt \<Rightarrow> ('a ebt \<times> 'a \<times> u32) option" where
  "eb_unlink e (Leaf x k) = None"
| "eb_unlink e (Node b p pk l r) =
     (if (case l of Leaf x _ \<Rightarrow> x = e | _ \<Rightarrow> False) then Some (r, p, pk)
      else if (case r of Leaf x _ \<Rightarrow> x = e | _ \<Rightarrow> False) then Some (l, p, pk)
      else (case eb_unlink e l of
              Some (l', q) \<Rightarrow> Some (Node b p pk l' r, q)
            | None \<Rightarrow> (case eb_unlink e r of
                         Some (r', q) \<Rightarrow> Some (Node b p pk l r', q)
                       | None \<Rightarrow> None)))"

fun eb_reown :: "'a \<Rightarrow> 'a \<times> u32 \<Rightarrow> 'a ebt \<Rightarrow> 'a ebt" where
  "eb_reown e q (Leaf x k) = Leaf x k"
| "eb_reown e q (Node b p pk l r) =
     (if p = e then Node b (fst q) (snd q) l r
      else Node b p pk (eb_reown e q l) (eb_reown e q r))"

definition eb_delete :: "'a \<Rightarrow> 'a eb_root \<Rightarrow> 'a eb_root" where
  "eb_delete e root =
     (case b_left root of
        None \<Rightarrow> root
      | Some (Leaf x k) \<Rightarrow> if x = e then root\<lparr>b_left := None\<rparr> else root
      | Some t \<Rightarrow>
          (case eb_unlink e t of
             None \<Rightarrow> root
           | Some (t', q) \<Rightarrow> root\<lparr>b_left := Some (eb_reown e q t')\<rparr>))"

text \<open>What the callers read of an entry: whether it is linked (\<open>leaf_p\<close>), and the bit of its
  node part while that is in use (\<open>node_p\<close>).\<close>

fun leaves :: "'a ebt \<Rightarrow> ('a \<times> u32) list" where
  "leaves (Leaf e k) = [(e, k)]"
| "leaves (Node b p pk l r) = leaves l @ leaves r"

definition entries :: "'a eb_root \<Rightarrow> ('a \<times> u32) list" where
  "entries root = (case b_left root of None \<Rightarrow> [] | Some t \<Rightarrow> leaves t)"

definition eb_linked :: "'a \<Rightarrow> 'a eb_root \<Rightarrow> bool" where
  "eb_linked e root \<longleftrightarrow> e \<in> fst ` set (entries root)"

fun node_bit :: "'a \<Rightarrow> 'a ebt \<Rightarrow> int option" where
  "node_bit e (Leaf x k) = None"
| "node_bit e (Node b p pk l r) =
     (if p = e then Some b
      else case node_bit e l of Some v \<Rightarrow> Some v | None \<Rightarrow> node_bit e r)"

definition eb_node_bit :: "'a \<Rightarrow> 'a eb_root \<Rightarrow> int option" where
  "eb_node_bit e root = Option.bind (b_left root) (node_bit e)"

definition eb_queue_dup :: "'a eb_root \<Rightarrow> 'a \<Rightarrow> 'a \<Rightarrow> u32 \<Rightarrow> 'a eb_root" where
  "eb_queue_dup root e n nk = root\<lparr>b_left := map_option (eb_insert_dup_at e n nk) (b_left root)\<rparr>"

section \<open>The branching invariant\<close>

text \<open>Below a node of bit \<open>b \<ge> 0\<close> all keys agree with the node's key above bit \<open>b\<close>, and bit \<open>b\<close>
  chooses the branch; below a node of a negative bit all keys are equal.\<close>

fun keys :: "'a ebt \<Rightarrow> u32 set" where
  "keys (Leaf e k) = {k}"
| "keys (Node b p pk l r) = keys l \<union> keys r"

definition branch_keys :: "u32 \<Rightarrow> nat \<Rightarrow> bool \<Rightarrow> u32 set" where
  "branch_keys pk n side = {k. drop_bit (Suc n) k = drop_bit (Suc n) pk \<and> bit k n = side}"

fun eb_ok :: "'a ebt \<Rightarrow> bool" where
  "eb_ok (Leaf e k) \<longleftrightarrow> True"
| "eb_ok (Node b p pk l r) \<longleftrightarrow>
     eb_ok l \<and> eb_ok r \<and>
     (if b < 0 then keys l \<union> keys r \<subseteq> {pk}
      else b < 32 \<and> keys l \<subseteq> branch_keys pk (nat b) False
             \<and> keys r \<subseteq> branch_keys pk (nat b) True)"

lemma leaves_nonempty [simp]: "leaves t \<noteq> []"
  by (induction t) auto

lemma keys_leaves: "keys t = snd ` set (leaves t)"
  by (induction t) auto

lemma keys_nonempty [simp]: "keys t \<noteq> {}"
  by (simp add: keys_leaves)

section \<open>Prefixes of keys\<close>

lemma unat_prefix: "unat (drop_bit n k :: u32) = unat k div 2 ^ n"
  unfolding unat_drop_bit_eq by (rule drop_bit_eq_div)

lemma prefix_differs:
  "2 \<le> drop_bit n (a XOR b) \<longleftrightarrow> drop_bit (Suc n) a \<noteq> (drop_bit (Suc n) b :: u32)"
proof -
  have two: "2 \<le> w \<longleftrightarrow> drop_bit 1 w \<noteq> 0" for w :: u32
  proof -
    have "drop_bit 1 w = 0 \<longleftrightarrow> unat (drop_bit 1 w) = 0" by (simp only: unat_eq_zero)
    also have "\<dots> \<longleftrightarrow> unat w < 2" by (simp only: unat_prefix) (simp add: div_eq_0_iff)
    finally show ?thesis by (simp add: word_le_nat_alt not_less)
  qed
  have "2 \<le> drop_bit n (a XOR b) \<longleftrightarrow> drop_bit (Suc n) (a XOR b) \<noteq> 0"
    by (simp only: two drop_bit_drop_bit) simp
  also have "\<dots> \<longleftrightarrow> drop_bit (Suc n) a XOR drop_bit (Suc n) b \<noteq> 0"
    by (simp only: drop_bit_xor)
  also have "\<dots> \<longleftrightarrow> drop_bit (Suc n) a \<noteq> drop_bit (Suc n) b"
    by (auto simp only: bit_eq_iff bit_simps xor_self_eq) (auto simp: bit_eq_iff bit_simps)
  finally show ?thesis .
qed

lemmas prefix_differs_xor = prefix_differs [unfolded drop_bit_xor]

lemma prefix_mono: "a \<le> b \<Longrightarrow> drop_bit n a \<le> (drop_bit n b :: u32)"
  by (simp only: word_le_nat_alt unat_prefix div_le_mono)

lemma prefix_less: "drop_bit n a < (drop_bit n b :: u32) \<Longrightarrow> a < b"
  using prefix_mono [of b a n] by (meson leD not_less)

lemma prefix_eq_bit:
  assumes "drop_bit n a = (drop_bit n b :: u32)" and "n \<le> i"
  shows "bit a i = bit b i"
proof -
  have "bit (drop_bit n a) (i - n) = bit (drop_bit n b) (i - n)" using assms by simp
  with assms(2) show ?thesis by (simp only: bit_drop_bit_eq comp_apply) simp
qed

lemma prefix_eq_mono:
  assumes "drop_bit n a = (drop_bit n b :: u32)" and "n \<le> i"
  shows "drop_bit i a = drop_bit i b"
proof -
  have "drop_bit (i - n) (drop_bit n a) = drop_bit (i - n) (drop_bit n b)" using assms by simp
  with assms(2) show ?thesis by (simp only: drop_bit_drop_bit) (simp add: add.commute)
qed

lemma prefix_step: "unat (drop_bit n w :: u32) = 2 * unat (drop_bit (Suc n) w) + of_bool (bit w n)"
proof -
  have b: "bit w n \<longleftrightarrow> odd (unat w div 2 ^ n)"
    unfolding bit_iff_odd [symmetric] by (simp add: bit_unsigned_iff)
  have "unat w div 2 ^ Suc n = unat w div 2 ^ n div 2"
    by (simp only: power_Suc2 div_mult2_eq)
  moreover have "v = 2 * (v div 2) + of_bool (odd v)" for v :: nat
    by (cases "odd v") simp_all
  ultimately show ?thesis by (simp only: unat_prefix b)
qed

lemma bit_branch_less:
  assumes "drop_bit (Suc n) a = (drop_bit (Suc n) b :: u32)" and "\<not> bit a n" and "bit b n"
  shows "a < b"
proof -
  have "unat (drop_bit n a) < unat (drop_bit n b)"
    using prefix_step [of n a] prefix_step [of n b] assms by (simp only:) simp
  then have "drop_bit n a < drop_bit n b" by (simp only: word_less_nat_alt)
  then show ?thesis by (rule prefix_less)
qed

section \<open>The highest bit set\<close>

text \<open>The mask of the round of block size \<open>s\<close> selects the odd blocks of \<open>s\<close> bits.\<close>

definition block_mask :: "u32 \<Rightarrow> nat \<Rightarrow> bool" where
  "block_mask m s \<longleftrightarrow> list_all (\<lambda>i. bit m i \<longleftrightarrow> odd (i div s)) [0..<32]"

lemma block_maskD: "block_mask m s \<Longrightarrow> i < 32 \<Longrightarrow> bit m i \<longleftrightarrow> odd (i div s)"
  by (auto simp: block_mask_def list_all_iff)

lemma flsnz_masks:
  "block_mask 0xffff0000 16" "block_mask 0xff00ff00 8" "block_mask 0xf0f0f0f0 4"
  "block_mask 0xcccccccc 2" "block_mask 0xaaaaaaaa 1"
  by code_simp+

text \<open>Before the round of size \<open>s\<close> the value holds only bits of the \<open>2 s\<close>-block of its highest
  bit \<open>m\<close>, and the count is the start of that block.\<close>

definition top_block :: "nat \<Rightarrow> nat \<Rightarrow> u32 \<times> nat \<Rightarrow> bool" where
  "top_block m s st \<longleftrightarrow>
     bit (fst st) m \<and> (\<forall>i. bit (fst st) i \<longrightarrow> i \<le> m \<and> i div s = m div s) \<and>
     snd st = (m div s) * s"

lemma top_blockI:
  "bit x m \<Longrightarrow> (\<And>i. bit x i \<Longrightarrow> i \<le> m \<and> i div s = m div s) \<Longrightarrow> n = m div s * s \<Longrightarrow>
   top_block m s (x, n)"
  unfolding top_block_def fst_conv snd_conv by blast

lemma flsnz_step_top:
  assumes mask: "block_mask m0 s" and top: "top_block m (2 * s) st" and s: "0 < s"
  shows "top_block m s (flsnz_step m0 s st)"
proof -
  obtain x n where st: "st = (x, n)" by (cases st)
  have m: "bit x m" and n: "n = m div (2 * s) * (2 * s)"
    and bits: "\<And>i. bit x i \<Longrightarrow> i \<le> m \<and> i div (2 * s) = m div (2 * s)"
    using top unfolding top_block_def st fst_conv snd_conv by blast+
  have half: "i div (2 * s) = i div s div 2" for i
    by (metis div_mult2_eq mult.commute)
  have lt: "bit x i \<Longrightarrow> i < 32" for i using bit_imp_le_length [of x i] by simp
  have msk: "bit x i \<Longrightarrow> bit m0 i \<longleftrightarrow> odd (i div s)" for i
    using block_maskD [OF mask] lt by blast
  show ?thesis
  proof (cases "odd (m div s)")
    case True
    then have hm: "bit (x AND m0) m" using m msk by (simp add: bit_and_iff)
    then have "x AND m0 \<noteq> 0" by auto
    then have step: "flsnz_step m0 s st = (x AND m0, n + s)" by (simp add: st flsnz_step_def)
    have "i \<le> m \<and> i div s = m div s" if "bit (x AND m0) i" for i
    proof -
      have i: "bit x i" "odd (i div s)" using that msk by (auto simp: bit_and_iff)
      then have "i div s div 2 = m div s div 2" using bits [of i] by (simp add: half)
      with i True bits [of i] show ?thesis by (metis odd_two_times_div_two_succ)
    qed
    moreover have "n + s = m div s * s"
    proof -
      obtain q where q: "m div s = 2 * q + 1" using True by (elim oddE)
      have h: "m div (2 * s) = q" unfolding half q by simp
      show ?thesis unfolding n h q by (simp add: algebra_simps)
    qed
    ultimately show ?thesis unfolding step by (intro top_blockI hm)
  next
    case False
    have blk: "i \<le> m \<and> i div s = m div s" if "bit x i" for i
    proof -
      have i: "i \<le> m" "i div s div 2 = m div s div 2" using bits [OF that] by (simp_all add: half)
      have "i div s \<le> m div s" using i(1) by (rule div_le_mono)
      moreover have "a \<le> b \<Longrightarrow> a div 2 = b div 2 \<Longrightarrow> even b \<Longrightarrow> a = b" for a b :: nat
        by presburger
      ultimately show ?thesis using i False by blast
    qed
    have "\<not> bit (x AND m0) i" for i
      using False msk [of i] blk [of i] by (metis bit_and_iff)
    then have "x AND m0 = 0" by (simp only: bit_eq_iff bit_0_eq) simp
    then have step: "flsnz_step m0 s st = (x, n)" by (simp add: st flsnz_step_def)
    have "n = m div s * s"
    proof -
      obtain q where q: "m div s = 2 * q" using False evenE by blast
      have h: "m div (2 * s) = q" unfolding half q by simp
      show ?thesis unfolding n h q by (simp add: algebra_simps)
    qed
    then show ?thesis unfolding step by (intro top_blockI m blk)
  qed
qed

lemma highest_bit:
  assumes "(a :: u32) \<noteq> 0"
  obtains m where "bit a m" and "\<And>i. bit a i \<Longrightarrow> i \<le> m"
proof -
  let ?S = "{i. bit a i}"
  have "?S \<subseteq> {..<32}" using bit_imp_le_length [of a] by auto
  then have fin: "finite ?S" by (rule finite_subset) simp
  have ne: "?S \<noteq> {}" using assms by (auto simp: bit_eq_iff)
  show ?thesis
    using Max_in [OF fin ne] Max_ge [OF fin] by (intro that [of "Max ?S"]) auto
qed

lemma flsnz_highest:
  assumes "bit a m" and "\<And>i. bit a i \<Longrightarrow> i \<le> m"
  shows "flsnz a = Suc m"
proof -
  have small: "bit a i \<Longrightarrow> i div 32 = 0" for i using bit_imp_le_length [of a i] by simp
  have s0: "top_block m (2 * 16) (a, 0)"
    using assms small by (auto simp: top_block_def)
  note s1 = flsnz_step_top [OF flsnz_masks(1) s0, simplified]
  note s2 = flsnz_step_top [OF flsnz_masks(2), of m, simplified, OF s1]
  note s3 = flsnz_step_top [OF flsnz_masks(3), of m, simplified, OF s2]
  note s4 = flsnz_step_top [OF flsnz_masks(4), of m, simplified, OF s3]
  note s5 = flsnz_step_top [OF flsnz_masks(5), of m, simplified, OF s4]
  then show ?thesis by (simp add: flsnz_def top_block_def)
qed

section \<open>Order and insertion\<close>

lemma eb_ok_branches:
  assumes "eb_ok (Node b p pk l r)" and "x \<in> keys l" and "y \<in> keys r"
  shows "x \<le> y \<and> (0 \<le> b \<longrightarrow> x < y)"
proof (cases "b < 0")
  case True
  with assms show ?thesis by fastforce
next
  case False
  with assms have "x \<in> branch_keys pk (nat b) False" "y \<in> branch_keys pk (nat b) True" by auto
  then have "x < y" by (intro bit_branch_less [of "nat b"]) (simp_all add: branch_keys_def)
  then show ?thesis by simp
qed

lemma eb_ok_sorted: "eb_ok t \<Longrightarrow> sorted (map snd (leaves t))"
proof (induction t)
  case (Node b p pk l r)
  then have "sorted (map snd (leaves l))" "sorted (map snd (leaves r))" by auto
  with eb_ok_branches [OF Node.prems] show ?case by (simp add: sorted_append keys_leaves)
qed simp

text \<open>Insertion after the entries of equal or smaller key, the specification of
  \<open>eb32_insert\<close> on a tree that accepts duplicates.\<close>

definition ins_after :: "'a \<times> u32 \<Rightarrow> ('a \<times> u32) list \<Rightarrow> ('a \<times> u32) list" where
  "ins_after e xs =
     takeWhile (\<lambda>x. snd x \<le> snd e) xs @ e # dropWhile (\<lambda>x. snd x \<le> snd e) xs"

lemma ins_after_end: "(\<And>x. x \<in> set xs \<Longrightarrow> snd x \<le> k) \<Longrightarrow> ins_after (n, k) xs = xs @ [(n, k)]"
  by (simp add: ins_after_def takeWhile_eq_all_conv [THEN iffD2] dropWhile_eq_Nil_conv [THEN iffD2])

lemma ins_after_front: "(\<And>x. x \<in> set xs \<Longrightarrow> k < snd x) \<Longrightarrow> ins_after (n, k) xs = (n, k) # xs"
  by (cases xs) (fastforce simp: ins_after_def)+

lemma ins_after_left:
  assumes "\<And>x. x \<in> set ys \<Longrightarrow> k < snd x"
  shows "ins_after (n, k) (xs @ ys) = ins_after (n, k) xs @ ys"
proof (induction xs)
  case Nil
  show ?case using ins_after_front [OF assms] by (simp add: ins_after_def)
next
  case (Cons x xs)
  then show ?case by (simp add: ins_after_def)
qed

lemma ins_after_right:
  "(\<And>x. x \<in> set xs \<Longrightarrow> snd x \<le> k) \<Longrightarrow> ins_after (n, k) (xs @ ys) = xs @ ins_after (n, k) ys"
  by (simp add: ins_after_def)

lemma set_ins_after [simp]: "set (ins_after e xs) = insert e (set xs)"
proof -
  have "set xs = set (takeWhile (\<lambda>x. snd x \<le> snd e) xs) \<union> set (dropWhile (\<lambda>x. snd x \<le> snd e) xs)"
    by (metis set_append takeWhile_dropWhile_id)
  then show ?thesis by (auto simp: ins_after_def)
qed

lemma leaves_insert_dup [simp]: "leaves (eb_insert_dup n k t) = leaves t @ [(n, k)]"
  by (induction n k t rule: eb_insert_dup.induct) auto

abbreviation dup_top :: "'a ebt \<Rightarrow> bool" where
  "dup_top t \<equiv> (case t of Leaf _ _ \<Rightarrow> True | Node b _ _ _ _ \<Rightarrow> b < 0)"

lemma eb_ok_dup_top:
  assumes "eb_ok t" and "keys t \<subseteq> {k}"
  shows "dup_top t"
proof (cases t)
  case (Node b p pk l r)
  obtain x where x: "x \<in> keys l" using keys_nonempty [of l] by blast
  obtain y where y: "y \<in> keys r" using keys_nonempty [of r] by blast
  have "x = y" using assms(2) x y Node by auto
  with eb_ok_branches [OF assms(1) [unfolded Node] x y] show ?thesis by (simp add: Node)
qed simp

lemma keys_insert_dup [simp]: "keys (eb_insert_dup n k t) = insert k (keys t)"
  by (simp add: keys_leaves)

lemma eb_ok_insert_dup:
  "eb_ok t \<Longrightarrow> keys t \<subseteq> {k} \<Longrightarrow> eb_ok (eb_insert_dup n k t)"
proof (induction n k t rule: eb_insert_dup.induct)
  case (1 n nk e k)
  then show ?case by simp
next
  case (2 n k b p pk l r)
  have b: "b < 0" using eb_ok_dup_top [OF "2.prems"] by simp
  have kl: "keys l \<subseteq> {k}" and kr: "keys r \<subseteq> {k}" using "2.prems"(2) by simp_all
  have ok: "eb_ok l" "eb_ok r" and pk: "keys l \<subseteq> {pk}" using "2.prems"(1) b by simp_all
  have "pk = k" using kl pk keys_nonempty [of l] by blast
  then show ?case using "2.IH" ok b kl kr by auto
qed


lemma insert_above_present:
  "uniq \<Longrightarrow> insert_above uniq n k e k t = (t, e)"
  by (simp add: insert_above_def)

lemma xor_eq_0_iff: "a XOR b = 0 \<longleftrightarrow> a = (b :: u32)"
  by (auto simp: bit_eq_iff bit_simps)

lemma flsnz_prefix:
  assumes "nk \<noteq> (pk :: u32)"
  obtains m where "flsnz (nk XOR pk) = Suc m" and "m < 32"
    and "drop_bit (Suc m) nk = drop_bit (Suc m) pk" and "bit nk m \<noteq> bit pk m"
proof -
  have "nk XOR pk \<noteq> 0" using assms by (simp add: xor_eq_0_iff)
  then obtain m where m: "bit (nk XOR pk) m" and top: "\<And>i. bit (nk XOR pk) i \<Longrightarrow> i \<le> m"
    by (rule highest_bit) blast
  have "bit (drop_bit (Suc m) nk) i = bit (drop_bit (Suc m) pk) i" for i
    using top [of "Suc m + i"] by (auto simp: bit_simps)
  then have "drop_bit (Suc m) nk = drop_bit (Suc m) pk" by (simp add: bit_eq_iff)
  moreover have "m < 32" using bit_imp_le_length [OF m] by simp
  moreover have "bit nk m \<noteq> bit pk m" using m by (simp add: bit_xor_iff)
  ultimately show ?thesis using flsnz_highest [OF m top] that by blast
qed

text \<open>All keys of a well-formed subtree agree with the key its node part shows above the bit
  of the node; \<open>top_key\<close> and \<open>top_bit\<close> are what \<open>__eb32_insert\<close> reads there.\<close>

fun top_key :: "'a ebt \<Rightarrow> u32" where
  "top_key (Leaf e k) = k"
| "top_key (Node b p pk l r) = pk"

fun top_bit :: "'a ebt \<Rightarrow> nat" where
  "top_bit (Leaf e k) = 0"
| "top_bit (Node b p pk l r) = nat (b + 1)"

lemma keys_top:
  "eb_ok t \<Longrightarrow> k \<in> keys t \<Longrightarrow> drop_bit (top_bit t) k = drop_bit (top_bit t) (top_key t)"
proof (cases t)
  case (Node b p pk l r)
  assume "eb_ok t" "k \<in> keys t"
  then show ?thesis unfolding Node
    by (cases "b < 0") (auto simp: branch_keys_def nat_add_distrib split: if_splits)
qed simp

lemma insert_above_split:
  fixes n old :: 'a and t :: "'a ebt" and uniq :: bool and nk :: u32
  assumes ok: "eb_ok t" and ne: "drop_bit (top_bit t) nk \<noteq> drop_bit (top_bit t) (top_key t)"
  defines "t' \<equiv> fst (insert_above uniq n nk old (top_key t) t)"
  shows "eb_ok t' \<and> leaves t' = ins_after (n, nk) (leaves t) \<and>
         snd (insert_above uniq n nk old (top_key t) t) = n"
proof -
  have diff: "nk \<noteq> top_key t" using ne by auto
  obtain m where m: "flsnz (nk XOR top_key t) = Suc m" "m < 32"
      "drop_bit (Suc m) nk = drop_bit (Suc m) (top_key t)" "bit nk m \<noteq> bit (top_key t) m"
    using diff by (rule flsnz_prefix)
  have le: "top_bit t \<le> m"
    using ne prefix_eq_mono [OF m(3), of "top_bit t"] by (meson not_less_eq_eq)
  have pre: "drop_bit (Suc m) k = drop_bit (Suc m) nk \<and> bit k m \<noteq> bit nk m" if "k \<in> keys t" for k
    using prefix_eq_mono [OF keys_top [OF ok that], of "Suc m"]
      prefix_eq_bit [OF keys_top [OF ok that] le] le m(3,4) by auto
  show ?thesis
  proof (cases "bit nk m")
    case True
    then have lt: "k < nk" if "k \<in> keys t" for k
      using pre [OF that] by (intro bit_branch_less [of m]) auto
    have tk: "top_key t < nk" using m(3,4) True by (intro bit_branch_less [of m]) auto
    have "keys t \<subseteq> branch_keys nk m False" using pre True by (auto simp: branch_keys_def)
    moreover have "ins_after (n, nk) (leaves t) = leaves t @ [(n, nk)]"
      using lt by (intro ins_after_end) (auto simp: keys_leaves less_imp_le)
    ultimately show ?thesis
      using diff m tk True ok by (simp add: t'_def insert_above_def less_imp_le branch_keys_def)
  next
    case False
    then have lt: "nk < k" if "k \<in> keys t" for k
      using pre [OF that] by (intro bit_branch_less [of m]) auto
    have tk: "nk < top_key t" using m(3,4) False by (intro bit_branch_less [of m]) auto
    have "keys t \<subseteq> branch_keys nk m True" using pre False by (auto simp: branch_keys_def)
    moreover have "ins_after (n, nk) (leaves t) = (n, nk) # leaves t"
      using lt by (intro ins_after_front) (auto simp: keys_leaves)
    ultimately show ?thesis
      using diff m tk [folded not_le] False ok by (simp add: t'_def insert_above_def branch_keys_def)
  qed
qed

lemma insert_above_dup:
  fixes n old :: 'a and t :: "'a ebt" and uniq :: bool and nk :: u32
  assumes ok: "eb_ok t" and top: "dup_top t" and nu: "\<not> uniq"
  defines "t' \<equiv> fst (insert_above uniq n (top_key t) old (top_key t) t)"
  shows "eb_ok t' \<and> leaves t' = ins_after (n, top_key t) (leaves t) \<and>
         snd (insert_above uniq n (top_key t) old (top_key t) t) = n"
proof -
  have one: "keys t \<subseteq> {top_key t}" using ok top by (cases t) auto
  then have "ins_after (n, top_key t) (leaves t) = leaves t @ [(n, top_key t)]"
    by (intro ins_after_end) (auto simp: keys_leaves)
  moreover have "eb_ok (eb_insert_dup n (top_key t) t)" using ok one by (rule eb_ok_insert_dup)
  ultimately show ?thesis using nu ok by (cases t) (simp_all add: t'_def insert_above_def)
qed

lemma branch_keysI:
  "\<not> 2 \<le> drop_bit n (nk XOR pk) \<Longrightarrow> nk \<in> branch_keys pk n (bit nk n)"
  by (simp add: branch_keys_def prefix_differs_xor)

lemma branch_keys_lt:
  "x \<in> branch_keys pk n False \<Longrightarrow> y \<in> branch_keys pk n True \<Longrightarrow> x < y"
  by (rule bit_branch_less [of n]) (simp_all add: branch_keys_def)

lemma insert_at_split:
  assumes "eb_ok (Node b p pk l r)" and "drop_bit (nat (b + 1)) nk \<noteq> drop_bit (nat (b + 1)) pk"
  shows "eb_ok (fst (insert_above uniq n nk p pk (Node b p pk l r))) \<and>
         leaves (fst (insert_above uniq n nk p pk (Node b p pk l r))) =
           ins_after (n, nk) (leaves (Node b p pk l r)) \<and>
         snd (insert_above uniq n nk p pk (Node b p pk l r)) = n"
  using insert_above_split [OF assms(1), of nk uniq n p] assms(2) by simp

lemma eb32_insert_at_ok:
  assumes "eb_ok t" and "\<not> uniq \<or> nk \<notin> keys t"
  shows "eb_ok (fst (eb32_insert_at uniq n nk t)) \<and>
         leaves (fst (eb32_insert_at uniq n nk t)) = ins_after (n, nk) (leaves t) \<and>
         snd (eb32_insert_at uniq n nk t) = n"
  using assms
proof (induction t)
  case (Leaf e k)
  show ?case
  proof (cases "nk = k")
    case True
    with Leaf insert_above_dup [of "Leaf e k" uniq n e] show ?thesis by simp
  next
    case False
    with insert_above_split [of "Leaf e k" nk uniq n e] show ?thesis by simp
  qed
next
  case (Node b p pk l r)
  consider (dup) "b < 0" "nk = pk" | (above) "b < 0" "nk \<noteq> pk"
    | (differs) "0 \<le> b" "2 \<le> drop_bit (nat b) (nk XOR pk)"
    | (down) "0 \<le> b" "\<not> 2 \<le> drop_bit (nat b) (nk XOR pk)" by linarith
  then show ?case
  proof cases
    case dup
    have "keys l \<subseteq> {pk}" using Node.prems(1) dup(1) by simp
    then have "pk \<in> keys l" using keys_nonempty [of l] by blast
    then have "\<not> uniq" using Node.prems(2) dup(2) by simp
    with insert_above_dup [OF Node.prems(1), of uniq n p] dup show ?thesis by simp
  next
    case above
    then show ?thesis using insert_at_split [OF Node.prems(1), of nk uniq n] by simp
  next
    case differs
    then have "drop_bit (nat (b + 1)) nk \<noteq> drop_bit (nat (b + 1)) pk"
      by (simp add: prefix_differs_xor nat_add_distrib)
    then show ?thesis using insert_at_split [OF Node.prems(1), of nk uniq n] differs by simp
  next
    case down
    have kl: "keys l \<subseteq> branch_keys pk (nat b) False" and kr: "keys r \<subseteq> branch_keys pk (nat b) True"
      and b: "b < 32" and ok: "eb_ok l" "eb_ok r"
      using Node.prems(1) down(1) by (auto split: if_splits)
    note nk = branch_keysI [OF down(2)]
    show ?thesis
    proof (cases "bit nk (nat b)")
      case True
      then have le: "x \<in> set (leaves l) \<Longrightarrow> snd x \<le> nk" for x
        using nk kl branch_keys_lt [of "snd x" pk "nat b" nk]
        by (auto simp: keys_leaves image_subset_iff less_imp_le)
      obtain r' ret where r': "eb32_insert_at uniq n nk r = (r', ret)" by fastforce
      have ih: "eb_ok r'" "leaves r' = ins_after (n, nk) (leaves r)" "ret = n"
        using Node.IH(2) ok Node.prems(2) r' by auto
      then have "keys r' = insert nk (keys r)" by (simp add: keys_leaves)
      then show ?thesis
        using ih ok b kl kr nk True down r' ins_after_right [OF le] by simp
    next
      case False
      then have lt: "x \<in> set (leaves r) \<Longrightarrow> nk < snd x" for x
        using nk kr branch_keys_lt [of nk pk "nat b" "snd x"]
        by (auto simp: keys_leaves image_subset_iff)
      obtain l' ret where l': "eb32_insert_at uniq n nk l = (l', ret)" by fastforce
      have ih: "eb_ok l'" "leaves l' = ins_after (n, nk) (leaves l)" "ret = n"
        using Node.IH(1) ok Node.prems(2) l' by auto
      then have "keys l' = insert nk (keys l)" by (simp add: keys_leaves)
      then show ?thesis
        using ih ok b kl kr nk False down l' ins_after_left [OF lt] by simp
    qed
  qed
qed

lemma eb32_insert_at_present:
  "eb_ok t \<Longrightarrow> nk \<in> keys t \<Longrightarrow> fst (eb32_insert_at True n nk t) = t"
proof (induction t)
  case (Leaf e k)
  then show ?case by (simp add: insert_above_def)
next
  case (Node b p pk l r)
  show ?case
  proof (cases "b < 0")
    case True
    with Node.prems have "nk = pk" by auto
    with True show ?thesis by (simp add: insert_above_def)
  next
    case False
    then have kl: "keys l \<subseteq> branch_keys pk (nat b) False" and kr: "keys r \<subseteq> branch_keys pk (nat b) True"
      using Node.prems(1) by auto
    then have pre: "\<not> 2 \<le> drop_bit (nat b) (nk XOR pk)"
      using Node.prems(2) by (auto simp: prefix_differs_xor branch_keys_def)
    have side: "if bit nk (nat b) then nk \<in> keys r else nk \<in> keys l"
      using kl kr Node.prems(2) by (auto simp: branch_keys_def)
    then show ?thesis
      using Node False pre by (auto split: prod.splits if_splits)
  qed
qed

section \<open>Walking and looking up\<close>

lemma eb_walk_down_left [simp]: "eb_walk_down False t = hd (leaves t)"
  by (induction t) simp_all

lemma eb_walk_down_right [simp]: "eb_walk_down True t = last (leaves t)"
  by (induction t) simp_all

text \<open>The successor and the predecessor of an entry in a list.\<close>

fun next_in :: "'a \<Rightarrow> ('a \<times> 'k) list \<Rightarrow> ('a \<times> 'k) option" where
  "next_in e [] = None"
| "next_in e (x # xs) =
     (if fst x = e then (case xs of [] \<Rightarrow> None | y # _ \<Rightarrow> Some y) else next_in e xs)"

definition prev_in :: "'a \<Rightarrow> ('a \<times> 'k) list \<Rightarrow> ('a \<times> 'k) option" where
  "prev_in e xs =
     (let ys = takeWhile (\<lambda>x. fst x \<noteq> e) xs in if ys = [] then None else Some (last ys))"

lemma next_in_left:
  assumes "e \<in> fst ` set xs" and "ys \<noteq> []"
  shows "next_in e (xs @ ys) = Some (case next_in e xs of Some y \<Rightarrow> y | None \<Rightarrow> hd ys)"
  using assms(1)
proof (induction xs)
  case (Cons x xs)
  show ?case
  proof (cases "fst x = e")
    case True
    with assms(2) show ?thesis by (cases xs; cases ys) simp_all
  next
    case False
    with Cons show ?thesis by force
  qed
qed simp

lemma next_in_right: "e \<notin> fst ` set xs \<Longrightarrow> next_in e (xs @ ys) = next_in e ys"
  by (induction xs) auto

lemma prev_in_left: "e \<in> fst ` set xs \<Longrightarrow> prev_in e (xs @ ys) = prev_in e xs"
  by (auto simp: prev_in_def takeWhile_append)

lemma prev_in_right:
  assumes "e \<notin> fst ` set xs" and "xs \<noteq> []"
  shows "prev_in e (xs @ ys) = Some (case prev_in e ys of Some y \<Rightarrow> y | None \<Rightarrow> last xs)"
proof -
  have "takeWhile (\<lambda>x. fst x \<noteq> e) (xs @ ys) = xs @ takeWhile (\<lambda>x. fst x \<noteq> e) ys"
    using assms(1) by (intro takeWhile_append2) force
  then show ?thesis using assms(2) by (simp add: prev_in_def Let_def)
qed

lemma eb_path_absent: "e \<notin> fst ` set (leaves t) \<Longrightarrow> eb_path e t = None"
  by (induction t) (auto simp: image_Un)

lemma eb_path_walk:
  "e \<in> fst ` set (leaves t) \<Longrightarrow>
   \<exists>up. eb_path e t = Some up \<and>
     (\<forall>rest. eb_up_next (up @ rest) =
              (case next_in e (leaves t) of Some y \<Rightarrow> Some y | None \<Rightarrow> eb_up_next rest)) \<and>
     (\<forall>rest. eb_up_prev (up @ rest) =
              (case prev_in e (leaves t) of Some y \<Rightarrow> Some y | None \<Rightarrow> eb_up_prev rest))"
proof (induction t)
  case (Leaf x k)
  then show ?case by (simp add: prev_in_def)
next
  case (Node b p pk l r)
  show ?case
  proof (cases "e \<in> fst ` set (leaves l)")
    case True
    with Node.IH(1) show ?thesis
      by (auto simp: next_in_left prev_in_left split: option.splits)
  next
    case False
    with Node.prems have "e \<in> fst ` set (leaves r)" by auto
    with False Node.IH(2) show ?thesis
      by (auto simp: next_in_right prev_in_right eb_path_absent split: option.splits)
  qed
qed

lemma eb_linked_tree:
  assumes "eb_linked e root"
  obtains t where "b_left root = Some t" and "e \<in> fst ` set (leaves t)" and "entries root = leaves t"
  using assms by (cases "b_left root") (simp_all add: eb_linked_def entries_def)

lemma eb_next_in:
  assumes "eb_linked e root"
  shows "eb_next e root = next_in e (entries root)"
proof -
  obtain t where t: "b_left root = Some t" "e \<in> fst ` set (leaves t)" "entries root = leaves t"
    using assms by (rule eb_linked_tree)
  obtain up where up: "eb_path e t = Some up"
    and nx: "eb_up_next (up @ []) = (case next_in e (leaves t) of Some y \<Rightarrow> Some y | None \<Rightarrow> eb_up_next [])"
    using eb_path_walk [OF t(2)] by blast
  show ?thesis using nx by (simp add: eb_next_def t up split: option.splits)
qed

lemma eb_prev_in:
  assumes "eb_linked e root"
  shows "eb_prev e root = prev_in e (entries root)"
proof -
  obtain t where t: "b_left root = Some t" "e \<in> fst ` set (leaves t)" "entries root = leaves t"
    using assms by (rule eb_linked_tree)
  obtain up where up: "eb_path e t = Some up"
    and pv: "eb_up_prev (up @ []) = (case prev_in e (leaves t) of Some y \<Rightarrow> Some y | None \<Rightarrow> eb_up_prev [])"
    using eb_path_walk [OF t(2)] by blast
  show ?thesis using pv by (simp add: eb_prev_def t up split: option.splits)
qed

lemma find_append: "find P (xs @ ys) = (case find P xs of Some x \<Rightarrow> Some x | None \<Rightarrow> find P ys)"
  by (induction xs) auto

lemma find_hd: "(\<And>x. x \<in> set xs \<Longrightarrow> P x) \<Longrightarrow> xs \<noteq> [] \<Longrightarrow> find P xs = Some (hd xs)"
  by (cases xs) auto

lemma find_none: "(\<And>x. x \<in> set xs \<Longrightarrow> \<not> P x) \<Longrightarrow> find P xs = None"
  by (simp add: find_None_iff)

text \<open>A prefix that differs places the whole subtree on one side of the key looked up.\<close>

lemma prefix_side:
  assumes "drop_bit (Suc n) x \<noteq> (drop_bit (Suc n) pk :: u32)"
    and "drop_bit (Suc n) k = drop_bit (Suc n) pk"
  shows "if drop_bit n x < drop_bit n pk then x < k else k < x"
proof -
  have mono: "drop_bit n a \<le> drop_bit n b \<Longrightarrow> drop_bit (Suc n) a \<le> (drop_bit (Suc n) b :: u32)" for a b
    using prefix_mono [of "drop_bit n a" "drop_bit n b" 1] by (simp only: drop_bit_drop_bit) simp
  show ?thesis
  proof (cases "drop_bit n x < drop_bit n pk")
    case True
    then have "drop_bit (Suc n) x < drop_bit (Suc n) k"
      using mono [of x pk] assms by (metis less_imp_le order.not_eq_order_implies_strict)
    with True show ?thesis by (simp add: prefix_less)
  next
    case False
    then have "drop_bit (Suc n) k < drop_bit (Suc n) x"
      using mono [of pk x] assms by (metis not_less order.not_eq_order_implies_strict)
    then have "k < x" by (rule prefix_less)
    with False show ?thesis by simp
  qed
qed

lemma branch_keys_prefix: "k \<in> branch_keys pk n side \<Longrightarrow> drop_bit (Suc n) k = drop_bit (Suc n) pk"
  by (simp add: branch_keys_def)

lemma node_keys_prefix:
  "eb_ok (Node b p pk l r) \<Longrightarrow> 0 \<le> b \<Longrightarrow> k \<in> keys l \<union> keys r \<Longrightarrow>
   drop_bit (Suc (nat b)) k = drop_bit (Suc (nat b)) pk"
  by (auto dest: branch_keys_prefix)

text \<open>The lookups, on a well-formed tree, read the first entry not below the key, or the last
  not above it.\<close>

lemma eb32_ge_at_find:
  "eb_ok t \<Longrightarrow>
   eb32_ge_at x t up = (case find (\<lambda>e. x \<le> snd e) (leaves t) of Some e \<Rightarrow> Some e | None \<Rightarrow> eb_up_next up)"
proof (induction t arbitrary: up)
  case (Leaf e k)
  then show ?case by simp
next
  case (Node b p pk l r)
  let ?xs = "leaves l @ leaves r"
  have mem: "snd e \<in> keys l \<union> keys r" if "e \<in> set ?xs" for e using that by (auto simp: keys_leaves)
  consider (dup) "b < 0" | (differs) "0 \<le> b" "2 \<le> drop_bit (nat b) (x XOR pk)"
    | (down) "0 \<le> b" "\<not> 2 \<le> drop_bit (nat b) (x XOR pk)" by linarith
  then show ?case
  proof cases
    case dup
    then have "e \<in> set ?xs \<Longrightarrow> snd e = pk" for e using mem [of e] Node.prems by auto
    then show ?thesis
      using dup find_hd [of ?xs "\<lambda>e. x \<le> snd e"] find_none [of ?xs "\<lambda>e. x \<le> snd e"] by auto
  next
    case differs
    note d = iffD1 [OF prefix_differs differs(2)]
    have "if drop_bit (nat b) x < drop_bit (nat b) pk then x < snd e else snd e < x"
      if "e \<in> set ?xs" for e
      using prefix_side [OF d node_keys_prefix [OF Node.prems differs(1) mem [OF that]]] .
    then show ?thesis
      using differs find_hd [of ?xs "\<lambda>e. x \<le> snd e"] find_none [of ?xs "\<lambda>e. x \<le> snd e"]
      by (cases "drop_bit (nat b) x < drop_bit (nat b) pk") (auto simp: not_le less_imp_le)
  next
    case down
    have kl: "keys l \<subseteq> branch_keys pk (nat b) False" and kr: "keys r \<subseteq> branch_keys pk (nat b) True"
      and ok: "eb_ok l" "eb_ok r"
      using Node.prems down(1) by (auto split: if_splits)
    note x = branch_keysI [OF down(2)]
    show ?thesis
    proof (cases "bit x (nat b)")
      case True
      then have "e \<in> set (leaves l) \<Longrightarrow> \<not> x \<le> snd e" for e
        using x kl branch_keys_lt [of "snd e" pk "nat b" x] by (auto simp: keys_leaves not_le)
      then show ?thesis
        using Node.IH(2) [OF ok(2)] down True find_none [of "leaves l" "\<lambda>e. x \<le> snd e"]
        by (simp add: find_append split: option.splits)
    next
      case False
      then have "e \<in> set (leaves r) \<Longrightarrow> x \<le> snd e" for e
        using x kr branch_keys_lt [of x pk "nat b" "snd e"] by (auto simp: keys_leaves less_imp_le)
      then show ?thesis
        using Node.IH(1) [OF ok(1)] down False find_hd [of "leaves r" "\<lambda>e. x \<le> snd e"]
        by (simp add: find_append split: option.splits)
    qed
  qed
qed

lemma eb32_le_at_find:
  "eb_ok t \<Longrightarrow>
   eb32_le_at x t up =
     (case find (\<lambda>e. snd e \<le> x) (rev (leaves t)) of Some e \<Rightarrow> Some e | None \<Rightarrow> eb_up_prev up)"
proof (induction t arbitrary: up)
  case (Leaf e k)
  then show ?case by simp
next
  case (Node b p pk l r)
  let ?xs = "rev (leaves l @ leaves r)"
  have mem: "snd e \<in> keys l \<union> keys r" if "e \<in> set ?xs" for e using that by (auto simp: keys_leaves)
  have hd: "hd ?xs = last (leaves r)" by (simp add: hd_rev hd_append)
  consider (dup) "b < 0" | (differs) "0 \<le> b" "2 \<le> drop_bit (nat b) (x XOR pk)"
    | (down) "0 \<le> b" "\<not> 2 \<le> drop_bit (nat b) (x XOR pk)" by linarith
  then show ?case
  proof cases
    case dup
    then have "e \<in> set ?xs \<Longrightarrow> snd e = pk" for e using mem [of e] Node.prems by auto
    then show ?thesis
      using dup hd find_hd [of ?xs "\<lambda>e. snd e \<le> x"] find_none [of ?xs "\<lambda>e. snd e \<le> x"] by auto
  next
    case differs
    note d = iffD1 [OF prefix_differs differs(2)]
    have ne: "drop_bit (nat b) x \<noteq> drop_bit (nat b) pk"
      using d prefix_eq_mono [of "nat b" x pk "Suc (nat b)"] by auto
    have side: "if drop_bit (nat b) x < drop_bit (nat b) pk then x < snd e else snd e < x"
      if "e \<in> set ?xs" for e
      using prefix_side [OF d node_keys_prefix [OF Node.prems differs(1) mem [OF that]]] .
    show ?thesis
    proof (cases "drop_bit (nat b) x < drop_bit (nat b) pk")
      case True
      then have "find (\<lambda>e. snd e \<le> x) ?xs = None" using side by (intro find_none) (simp add: not_le)
      with differs True [THEN less_imp_le, THEN leD] show ?thesis by simp
    next
      case False
      then have "find (\<lambda>e. snd e \<le> x) ?xs = Some (hd ?xs)"
        using side by (intro find_hd) (auto simp: less_imp_le)
      moreover have "drop_bit (nat b) pk < drop_bit (nat b) x" using False ne by simp
      ultimately show ?thesis using differs hd by simp
    qed
  next
    case down
    have kl: "keys l \<subseteq> branch_keys pk (nat b) False" and kr: "keys r \<subseteq> branch_keys pk (nat b) True"
      and ok: "eb_ok l" "eb_ok r"
      using Node.prems down(1) by (auto split: if_splits)
    note x = branch_keysI [OF down(2)]
    show ?thesis
    proof (cases "bit x (nat b)")
      case True
      then have "e \<in> set (leaves l) \<Longrightarrow> snd e \<le> x" for e
        using x kl branch_keys_lt [of "snd e" pk "nat b" x] by (auto simp: keys_leaves less_imp_le)
      then show ?thesis
        using Node.IH(2) [OF ok(2)] down True find_hd [of "rev (leaves l)" "\<lambda>e. snd e \<le> x"]
        by (simp add: find_append hd_rev split: option.splits)
    next
      case False
      then have "e \<in> set (leaves r) \<Longrightarrow> \<not> snd e \<le> x" for e
        using x kr branch_keys_lt [of x pk "nat b" "snd e"] by (auto simp: keys_leaves not_le)
      then show ?thesis
        using Node.IH(1) [OF ok(1)] down False find_none [of "rev (leaves r)" "\<lambda>e. snd e \<le> x"]
        by (simp add: find_append split: option.splits)
    qed
  qed
qed

end
