(* ===== verification/Ebtree_Queue.thy ===== *)
theory Ebtree_Queue
  imports Ebtree "HOL-Library.Multiset"
begin

text \<open>
  Elastic binary trees as ordered queues: the ownership of node parts, which is what
  \<open>__eb_delete\<close> of \<open>src/src/ebtree/ebtree.h\<close> relies on, the whole invariant of a root and
  that insertion, duplicate insertion and deletion keep it, and the contract
  \<open>keyed_queue\<close> that the scheduler's queues are used by, with its interpretation on the
  tree's operations.
\<close>

section \<open>Node parts and deletion\<close>

text \<open>Every inner node is the node part of an entry whose leaf is below it, and an entry
  lends its node part once. This is what makes \<open>__eb_delete\<close> find the released node part
  below the one it replaces.\<close>

fun owners :: "'a ebt \<Rightarrow> 'a list" where
  "owners (Leaf e k) = []"
| "owners (Node b p pk l r) = p # owners l @ owners r"

fun eb_own :: "'a ebt \<Rightarrow> bool" where
  "eb_own (Leaf e k) \<longleftrightarrow> True"
| "eb_own (Node b p pk l r) \<longleftrightarrow>
     (p, pk) \<in> set (leaves l) \<union> set (leaves r) \<and> eb_own l \<and> eb_own r"

abbreviation ids :: "'a ebt \<Rightarrow> 'a set" where
  "ids t \<equiv> fst ` set (leaves t)"

lemma owners_ids: "eb_own t \<Longrightarrow> set (owners t) \<subseteq> ids t"
  by (induction t) (auto simp: image_Un, force+)

lemma insert_dup_owners: "mset (owners (eb_insert_dup n k t)) = add_mset n (mset (owners t))"
  by (induction n k t rule: eb_insert_dup.induct) auto

lemma insert_dup_own: "eb_own t \<Longrightarrow> eb_own (eb_insert_dup n k t)"
  by (induction n k t rule: eb_insert_dup.induct) auto

lemma insert_above_own:
  assumes "eb_own t" and "insert_above uniq n nk old ok t = (t', ret)"
  shows "eb_own t' \<and> (t' = t \<or> mset (owners t') = add_mset n (mset (owners t)))"
  using assms by (auto simp: insert_above_def Let_def insert_dup_own insert_dup_owners split: if_splits)

lemma insert_above_leaves:
  assumes "insert_above uniq n nk old ok t = (t', ret)"
  shows "set (leaves t) \<subseteq> set (leaves t')"
  using assms by (auto simp: insert_above_def Let_def split: if_splits)

lemma insert_at_own:
  "eb_own t \<Longrightarrow> eb32_insert_at uniq n nk t = (t', ret) \<Longrightarrow>
   eb_own t' \<and> set (leaves t) \<subseteq> set (leaves t') \<and>
   (t' = t \<or> mset (owners t') = add_mset n (mset (owners t)))"
proof (induction t arbitrary: t' ret)
  case (Leaf e k)
  then show ?case using insert_above_own [of "Leaf e k"] insert_above_leaves by fastforce
next
  case (Node b p pk l r)
  consider (above) "b < 0 \<or> 2 \<le> drop_bit (nat b) (nk XOR pk)"
    | (right) "\<not> (b < 0 \<or> 2 \<le> drop_bit (nat b) (nk XOR pk))" "bit nk (nat b)"
    | (left) "\<not> (b < 0 \<or> 2 \<le> drop_bit (nat b) (nk XOR pk))" "\<not> bit nk (nat b)" by blast
  then show ?case
  proof cases
    case above
    then have eq: "insert_above uniq n nk p pk (Node b p pk l r) = (t', ret)"
      using Node.prems(2) by simp
    show ?thesis
      using insert_above_own [OF Node.prems(1) eq] insert_above_leaves [OF eq] by blast
  next
    case right
    obtain r' ret' where r': "eb32_insert_at uniq n nk r = (r', ret')" by fastforce
    then have "t' = Node b p pk l r'" using Node.prems(2) right by simp
    then show ?thesis using Node.IH(2) [OF _ r'] Node.prems(1) by auto
  next
    case left
    obtain l' ret' where l': "eb32_insert_at uniq n nk l = (l', ret')" by fastforce
    then have "t' = Node b p pk l' r" using Node.prems(2) left by simp
    then show ?thesis using Node.IH(1) [OF _ l'] Node.prems(1) by auto
  qed
qed

text \<open>After the leaf of \<open>e\<close> is gone: nodes still lent by \<open>e\<close> have the released entry \<open>q\<close> below.\<close>

fun own_but :: "'a \<Rightarrow> 'a \<times> u32 \<Rightarrow> 'a ebt \<Rightarrow> bool" where
  "own_but e q (Leaf x k) \<longleftrightarrow> True"
| "own_but e q (Node b p pk l r) \<longleftrightarrow>
     (if p = e then q else (p, pk)) \<in> set (leaves l) \<union> set (leaves r) \<and>
     own_but e q l \<and> own_but e q r"

lemma own_but_own: "eb_own t \<Longrightarrow> e \<notin> ids t \<Longrightarrow> own_but e q t"
  by (induction t) (auto simp: image_Un, force+)

lemma own_but_no_owner: "own_but e q t \<Longrightarrow> e \<notin> set (owners t) \<Longrightarrow> eb_own t"
  by (induction t) auto

abbreviation without :: "'a \<Rightarrow> ('a \<times> 'k) list \<Rightarrow> ('a \<times> 'k) list" where
  "without e \<equiv> filter (\<lambda>x. fst x \<noteq> e)"

lemma without_absent: "e \<notin> fst ` set xs \<Longrightarrow> without e xs = xs"
  by (induction xs) auto

lemma eb_unlink_absent: "e \<notin> ids t \<Longrightarrow> eb_unlink e t = None"
  by (induction t) (auto simp: image_Un split: ebt.splits)

text \<open>What the first half of the deletion establishes.\<close>

definition unlinked :: "'a \<Rightarrow> 'a ebt \<Rightarrow> 'a ebt \<Rightarrow> 'a \<times> u32 \<Rightarrow> bool" where
  "unlinked e t t' q \<longleftrightarrow>
     leaves t' = without e (leaves t) \<and> mset (owners t) = add_mset (fst q) (mset (owners t')) \<and>
     eb_ok t' \<and> own_but e q t' \<and> (fst q = e \<or> q \<in> set (leaves t'))"

lemma unlinked_keys: "unlinked e t t' q \<Longrightarrow> keys t' \<subseteq> keys t"
  by (auto simp: unlinked_def keys_leaves)

lemma eb_ok_shrink:
  "eb_ok (Node b p pk l r) \<Longrightarrow> eb_ok l' \<Longrightarrow> eb_ok r' \<Longrightarrow> keys l' \<subseteq> keys l \<Longrightarrow> keys r' \<subseteq> keys r \<Longrightarrow>
   eb_ok (Node b p pk l' r')"
  by (auto split: if_splits)

lemma unlinked_left:
  assumes u: "unlinked e l l' q" and ok: "eb_ok (Node b p pk l r)" and own: "eb_own (Node b p pk l r)"
    and d: "distinct (p # owners l)" and r: "e \<notin> ids r"
  shows "unlinked e (Node b p pk l r) (Node b p pk l' r) q"
proof -
  have lv: "leaves l' = without e (leaves l)" and ow: "mset (owners l) = add_mset (fst q) (mset (owners l'))"
    and o: "eb_ok l'" "own_but e q l'" and q: "fst q = e \<or> q \<in> set (leaves l')"
    using u by (auto simp: unlinked_def)
  have "fst q \<in> set (owners l)" using ow by (metis set_mset_mset union_single_eq_member)
  then have "p = e \<Longrightarrow> q \<in> set (leaves l')" using q d by auto
  moreover have "p \<noteq> e \<Longrightarrow> (p, pk) \<in> set (leaves l') \<union> set (leaves r)" using own lv by auto
  moreover have "own_but e q r" using own r by (simp add: own_but_own)
  moreover have "eb_ok (Node b p pk l' r)"
    using ok o(1) unlinked_keys [OF u] by (intro eb_ok_shrink [OF ok]) auto
  ultimately show ?thesis
    using lv ow o q r by (auto simp: unlinked_def without_absent)
qed

lemma unlinked_right:
  assumes u: "unlinked e r r' q" and ok: "eb_ok (Node b p pk l r)" and own: "eb_own (Node b p pk l r)"
    and d: "distinct (p # owners r)" and l: "e \<notin> ids l"
  shows "unlinked e (Node b p pk l r) (Node b p pk l r') q"
proof -
  have lv: "leaves r' = without e (leaves r)" and ow: "mset (owners r) = add_mset (fst q) (mset (owners r'))"
    and o: "eb_ok r'" "own_but e q r'" and q: "fst q = e \<or> q \<in> set (leaves r')"
    using u by (auto simp: unlinked_def)
  have "fst q \<in> set (owners r)" using ow by (metis set_mset_mset union_single_eq_member)
  then have "p = e \<Longrightarrow> q \<in> set (leaves r')" using q d by auto
  moreover have "p \<noteq> e \<Longrightarrow> (p, pk) \<in> set (leaves l) \<union> set (leaves r')" using own lv by auto
  moreover have "own_but e q l" using own l by (simp add: own_but_own)
  moreover have "eb_ok (Node b p pk l r')"
    using ok o(1) unlinked_keys [OF u] by (intro eb_ok_shrink [OF ok]) auto
  ultimately show ?thesis
    using lv ow o q l by (auto simp: unlinked_def without_absent)
qed

lemma eb_unlink_some:
  assumes "eb_ok t" and "eb_own t" and "distinct (owners t)" and "distinct (map fst (leaves t))"
    and "e \<in> ids t" and "\<nexists>k. t = Leaf e k"
  shows "\<exists>t' q. eb_unlink e t = Some (t', q) \<and> unlinked e t t' q"
  using assms
proof (induction t)
  case (Leaf x k)
  then show ?case by auto
next
  case (Node b p pk l r)
  have sep: "ids l \<inter> ids r = {}" using Node.prems(4) by auto
  have parts: "eb_ok l" "eb_ok r" "eb_own l" "eb_own r" "distinct (p # owners l)" "distinct (p # owners r)"
      "distinct (map fst (leaves l))" "distinct (map fst (leaves r))"
      "(p, pk) \<in> set (leaves l) \<union> set (leaves r)"
    using Node.prems by auto
  have one: "e \<in> ids l \<and> e \<notin> ids r \<or> e \<notin> ids l \<and> e \<in> ids r"
    using Node.prems(5) sep by (auto simp: image_Un)
  consider (ll) k where "l = Leaf e k" | (rl) k where "\<nexists>k. l = Leaf e k" "r = Leaf e k"
    | (l) "\<nexists>k. l = Leaf e k" "\<nexists>k. r = Leaf e k" "e \<in> ids l" "e \<notin> ids r"
    | (r) "\<nexists>k. l = Leaf e k" "\<nexists>k. r = Leaf e k" "e \<notin> ids l" "e \<in> ids r"
    using one by blast
  then show ?case
  proof cases
    case ll
    then have "e \<notin> ids r" using sep by auto
    then have "unlinked e (Node b p pk l r) r (p, pk)"
      using ll parts by (auto simp: unlinked_def without_absent own_but_own)
    with ll show ?thesis by auto
  next
    case rl
    then have "e \<notin> ids l" using sep by auto
    then have "unlinked e (Node b p pk l r) l (p, pk)"
      using rl parts by (auto simp: unlinked_def without_absent own_but_own)
    with rl show ?thesis by (auto split: ebt.splits)
  next
    case l
    then obtain l' q where l': "eb_unlink e l = Some (l', q)" and u: "unlinked e l l' q"
      using Node.IH(1) parts by auto
    have "eb_unlink e (Node b p pk l r) = Some (Node b p pk l' r, q)"
      using l l' by (auto split: ebt.splits)
    with unlinked_left [OF u Node.prems(1,2) parts(5) l(4)] show ?thesis by blast
  next
    case r
    then obtain r' q where r': "eb_unlink e r = Some (r', q)" and u: "unlinked e r r' q"
      using Node.IH(2) parts by auto
    have "eb_unlink e (Node b p pk l r) = Some (Node b p pk l r', q)"
      using r r' eb_unlink_absent [OF r(3)] by (auto split: ebt.splits)
    with unlinked_right [OF u Node.prems(1,2) parts(6) r(3)] show ?thesis by blast
  qed
qed

lemma eb_reown_absent: "e \<notin> set (owners t) \<Longrightarrow> eb_reown e q t = t"
  by (induction t) auto

lemma leaves_reown [simp]: "leaves (eb_reown e q t) = leaves t"
  by (induction t) auto

lemma keys_reown [simp]: "keys (eb_reown e q t) = keys t"
  by (simp add: keys_leaves)

lemma owners_reown:
  "distinct (owners t) \<Longrightarrow>
   owners (eb_reown e q t) = map (\<lambda>x. if x = e then fst q else x) (owners t)"
  by (induction t) (auto intro!: map_idI [symmetric])

lemma eb_own_reown:
  "own_but e q t \<Longrightarrow> distinct (owners t) \<Longrightarrow> eb_own (eb_reown e q t)"
  by (induction t) (auto simp: own_but_no_owner)

lemma branch_keys_cong:
  "q \<in> branch_keys pk n s' \<Longrightarrow> branch_keys q n s = branch_keys pk n s"
  by (auto simp: branch_keys_def)

lemma eb_ok_reown:
  "eb_ok t \<Longrightarrow> own_but e q t \<Longrightarrow> eb_ok (eb_reown e q t)"
proof (induction t)
  case (Node b p pk l r)
  show ?case
  proof (cases "p = e")
    case True
    then have q: "snd q \<in> keys l \<union> keys r" using Node.prems(2) by (auto simp: keys_leaves)
    show ?thesis
    proof (cases "b < 0")
      case neg: True
      then have "snd q = pk" using q Node.prems(1) by auto
      then show ?thesis using Node.prems(1) True neg by simp
    next
      case False
      then have "snd q \<in> branch_keys pk (nat b) False \<or> snd q \<in> branch_keys pk (nat b) True"
        using q Node.prems(1) by auto
      then have "branch_keys (snd q) (nat b) side = branch_keys pk (nat b) side" for side
        using branch_keys_cong by blast
      then show ?thesis using Node.prems(1) True False by simp
    qed
  next
    case False
    with Node show ?thesis by auto
  qed
qed simp

text \<open>The invariant of a root: of the tree, and the entries are distinct.\<close>

definition eb_tree_inv :: "'a ebt \<Rightarrow> bool" where
  "eb_tree_inv t \<longleftrightarrow> eb_ok t \<and> eb_own t \<and> distinct (owners t) \<and> distinct (map fst (leaves t))"

definition eb_inv :: "'a eb_root \<Rightarrow> bool" where
  "eb_inv root \<longleftrightarrow> \<not> b_uniq root \<and> (case b_left root of None \<Rightarrow> True | Some t \<Rightarrow> eb_tree_inv t)"

lemma eb_inv_empty: "eb_inv EB_ROOT" "entries EB_ROOT = []"
  by (simp_all add: eb_inv_def EB_ROOT_def entries_def)

lemma eb_inv_sorted: "eb_inv root \<Longrightarrow> sorted (map snd (entries root))"
  by (auto simp: eb_inv_def entries_def eb_tree_inv_def eb_ok_sorted split: option.splits)

lemma eb_inv_distinct: "eb_inv root \<Longrightarrow> distinct (map fst (entries root))"
  by (auto simp: eb_inv_def entries_def eb_tree_inv_def split: option.splits)

lemma distinct_ins_after:
  "distinct (map fst xs) \<Longrightarrow> fst e \<notin> fst ` set xs \<Longrightarrow> distinct (map fst (ins_after e xs))"
proof -
  assume d: "distinct (map fst xs)" and e: "fst e \<notin> fst ` set xs"
  have "mset (ins_after e xs) = mset (e # xs)"
    unfolding ins_after_def using takeWhile_dropWhile_id [of "\<lambda>x. snd x \<le> snd e" xs]
    by (metis mset.simps(2) mset_append union_mset_add_mset_right)
  then have "mset (map fst (ins_after e xs)) = mset (map fst (e # xs))" by (metis mset_map)
  then show ?thesis using d e mset_eq_imp_distinct_iff by fastforce
qed

lemma eb32_insert_inv:
  assumes inv: "eb_inv root" and new: "\<not> eb_linked n root"
  shows "eb_inv (fst (eb32_insert root n k)) \<and>
         entries (fst (eb32_insert root n k)) = ins_after (n, k) (entries root) \<and>
         snd (eb32_insert root n k) = n"
proof (cases "b_left root")
  case None
  with inv show ?thesis
    by (simp add: eb32_insert_def eb_inv_def eb_tree_inv_def entries_def ins_after_def)
next
  case (Some t)
  then have u: "\<not> b_uniq root" and t: "eb_ok t" "eb_own t" "distinct (owners t)" "distinct (map fst (leaves t))"
    and n: "n \<notin> ids t"
    using inv new by (auto simp: eb_inv_def eb_tree_inv_def eb_linked_def entries_def)
  obtain t' ret where t': "eb32_insert_at (b_uniq root) n k t = (t', ret)" by fastforce
  have ok: "eb_ok t'" "leaves t' = ins_after (n, k) (leaves t)" "ret = n"
    using eb32_insert_at_ok [OF t(1), of "b_uniq root" k n] u t' by auto
  have own: "eb_own t'" "t' = t \<or> mset (owners t') = add_mset n (mset (owners t))"
    using insert_at_own [OF t(2) t'] by auto
  have "distinct (n # owners t)" using t(3) n owners_ids [OF t(2)] by auto
  then have "distinct (owners t')"
    using own(2) t(3) by (metis mset.simps(2) mset_eq_imp_distinct_iff)
  then show ?thesis
    using Some u t' ok own(1) t n distinct_ins_after [of "leaves t" "(n, k)"]
    by (simp add: eb32_insert_def eb_inv_def eb_tree_inv_def entries_def)
qed

lemma distinct_replace:
  "distinct xs \<Longrightarrow> q \<notin> set xs \<Longrightarrow> distinct (map (\<lambda>x. if x = e then q else x) xs)"
  by (induction xs) auto

lemma eb_delete_inv:
  assumes inv: "eb_inv root"
  shows "eb_inv (eb_delete e root) \<and> entries (eb_delete e root) = without e (entries root)"
proof (cases "b_left root")
  case None
  with inv show ?thesis by (simp add: eb_delete_def entries_def)
next
  case (Some t)
  then have u: "\<not> b_uniq root" and t: "eb_ok t" "eb_own t" "distinct (owners t)" "distinct (map fst (leaves t))"
    using inv by (auto simp: eb_inv_def eb_tree_inv_def)
  consider (leaf) k where "t = Leaf e k" | (out) "e \<notin> ids t" | (node) "e \<in> ids t" "\<nexists>k. t = Leaf e k"
    by blast
  then show ?thesis
  proof cases
    case leaf
    with Some u show ?thesis by (simp add: eb_delete_def eb_inv_def entries_def)
  next
    case out
    then have "eb_delete e root = root"
      using Some eb_unlink_absent [OF out] by (cases t) (simp_all add: eb_delete_def)
    with inv out Some show ?thesis by (simp add: entries_def without_absent)
  next
    case node
    then obtain t' q where del: "eb_unlink e t = Some (t', q)" and un: "unlinked e t t' q"
      using eb_unlink_some [OF t] by blast
    have lv: "leaves t' = without e (leaves t)" and ow: "mset (owners t) = mset (fst q # owners t')"
      and o: "eb_ok t'" "own_but e q t'"
      using un by (auto simp: unlinked_def)
    have d: "distinct (fst q # owners t')" using t(3) ow mset_eq_imp_distinct_iff by blast
    have "eb_tree_inv (eb_reown e q t')"
      using o d t(4) lv by (simp add: eb_tree_inv_def eb_ok_reown eb_own_reown owners_reown
          distinct_replace distinct_map_filter)
    moreover have "eb_delete e root = root\<lparr>b_left := Some (eb_reown e q t')\<rparr>"
      using Some del node by (cases t) (simp_all add: eb_delete_def)
    ultimately show ?thesis using u lv Some by (simp add: eb_inv_def entries_def)
  qed
qed

section \<open>Duplicates queued at a known node\<close>

text \<open>One element more, the others in their order.\<close>

definition adds :: "'b \<Rightarrow> 'b list \<Rightarrow> 'b list \<Rightarrow> bool" where
  "adds x l l' \<longleftrightarrow> (\<exists>xs ys. l = xs @ ys \<and> l' = xs @ x # ys)"

lemma adds_mset: "adds x l l' \<Longrightarrow> mset l' = add_mset x (mset l)"
  by (auto simp: adds_def)

lemma adds_set: "adds x l l' \<Longrightarrow> set l' = insert x (set l)"
  by (auto simp: adds_def)

lemma adds_end: "adds x l (l @ [x])"
  unfolding adds_def by blast

lemma adds_left: "adds x l l' \<Longrightarrow> adds x (l @ r) (l' @ r)"
  unfolding adds_def by (metis append_Cons append_assoc)

lemma adds_right: "adds x r r' \<Longrightarrow> adds x (l @ r) (l @ r')"
  unfolding adds_def by (metis append_assoc)

lemma adds_ins_after: "adds x l (ins_after x l)"
  unfolding adds_def ins_after_def by (metis takeWhile_dropWhile_id)

lemma dup_at_absent: "e \<notin> set (owners t) \<Longrightarrow> eb_insert_dup_at e n nk t = t"
  by (induction t) auto

lemma node_bit_owner: "node_bit e t = Some b \<Longrightarrow> e \<in> set (owners t)"
  by (induction t) (auto split: if_splits option.splits)

lemma dup_at_ok:
  assumes "eb_ok t" and "eb_own t" and "distinct (owners t)" and "distinct (map fst (leaves t))"
    and "node_bit e t = Some b" and "b < 0" and "(e, nk) \<in> set (leaves t)"
  shows "eb_ok (eb_insert_dup_at e n nk t) \<and> eb_own (eb_insert_dup_at e n nk t) \<and>
         adds (n, nk) (leaves t) (leaves (eb_insert_dup_at e n nk t)) \<and>
         mset (owners (eb_insert_dup_at e n nk t)) = add_mset n (mset (owners t))"
  using assms
proof (induction t)
  case (Leaf x k)
  then show ?case by simp
next
  case (Node c p pk l r)
  have parts: "eb_ok l" "eb_ok r" "eb_own l" "eb_own r" "distinct (owners l)" "distinct (owners r)"
      "distinct (map fst (leaves l))" "distinct (map fst (leaves r))"
      "(p, pk) \<in> set (leaves l) \<union> set (leaves r)" "set (owners l) \<inter> set (owners r) = {}"
    using Node.prems by auto
  have below: "(e, nk) \<in> set (leaves u)" if "e \<in> set (owners u)" "eb_own u" "u = l \<or> u = r" for u
  proof -
    have "e \<in> ids u" using that owners_ids by blast
    then obtain k where k: "(e, k) \<in> set (leaves u)" by auto
    then have "(e, k) \<in> set (leaves (Node c p pk l r))" using that(3) by auto
    then have "k = nk" by (rule eq_key_imp_eq_value [OF Node.prems(4) _ Node.prems(7)])
    with k show ?thesis by simp
  qed
  show ?case
  proof (cases "p = e")
    case True
    then have c: "c < 0" using Node.prems(5,6) by simp
    have "(e, pk) \<in> set (leaves (Node c p pk l r))" using parts(9) True by auto
    then have "pk = nk" by (rule eq_key_imp_eq_value [OF Node.prems(4) _ Node.prems(7)])
    then have "keys (Node c p pk l r) \<subseteq> {nk}" using Node.prems(1) c by auto
    then have "eb_ok (eb_insert_dup n nk (Node c p pk l r))" by (rule eb_ok_insert_dup [OF Node.prems(1)])
    moreover have "eb_own (eb_insert_dup n nk (Node c p pk l r))" by (rule insert_dup_own [OF Node.prems(2)])
    moreover have "adds (n, nk) (leaves (Node c p pk l r)) (leaves (eb_insert_dup n nk (Node c p pk l r)))"
      by (simp only: leaves_insert_dup adds_end)
    ultimately show ?thesis
      using True insert_dup_owners [of n nk "Node c p pk l r"] by (simp del: eb_insert_dup.simps)
  next
    case False
    show ?thesis
    proof (cases "node_bit e l")
      case None
      then have nb: "node_bit e r = Some b" using Node.prems(5) False by simp
      then have er: "e \<in> set (owners r)" by (rule node_bit_owner)
      then have el: "e \<notin> set (owners l)" using parts(10) by auto
      have mem: "(e, nk) \<in> set (leaves r)" using below er parts(4) by blast
      note ih = Node.IH(2) [OF parts(2,4,6,8) nb Node.prems(6) mem]
      have add: "adds (n, nk) (leaves r) (leaves (eb_insert_dup_at e n nk r))" using ih by blast
      note set = adds_set [OF add]
      then have "keys (eb_insert_dup_at e n nk r) = keys r"
        using mem by (force simp: keys_leaves)
      then show ?thesis using ih set Node.prems(1) parts False el by (auto simp: dup_at_absent adds_right)
    next
      case (Some b')
      then have nb: "node_bit e l = Some b" using Node.prems(5) False by simp
      then have el: "e \<in> set (owners l)" by (rule node_bit_owner)
      then have er: "e \<notin> set (owners r)" using parts(10) by auto
      have mem: "(e, nk) \<in> set (leaves l)" using below el parts(3) by blast
      note ih = Node.IH(1) [OF parts(1,3,5,7) nb Node.prems(6) mem]
      have add: "adds (n, nk) (leaves l) (leaves (eb_insert_dup_at e n nk l))" using ih by blast
      note set = adds_set [OF add]
      then have "keys (eb_insert_dup_at e n nk l) = keys l"
        using mem by (force simp: keys_leaves)
      then show ?thesis using ih set Node.prems(1) parts False er by (auto simp: dup_at_absent adds_left)
    qed
  qed
qed

lemma eb_queue_dup_inv:
  assumes inv: "eb_inv root" and new: "\<not> eb_linked n root"
    and nb: "eb_node_bit e root = Some b" "b < 0" and mem: "(e, nk) \<in> set (entries root)"
  shows "eb_inv (eb_queue_dup root e n nk) \<and>
         adds (n, nk) (entries root) (entries (eb_queue_dup root e n nk))"
proof -
  obtain t where some: "b_left root = Some t" using nb by (cases "b_left root") (auto simp: eb_node_bit_def)
  then have t: "eb_ok t" "eb_own t" "distinct (owners t)" "distinct (map fst (leaves t))"
    and n: "n \<notin> ids t"
    using inv new by (auto simp: eb_inv_def eb_tree_inv_def eb_linked_def entries_def)
  let ?t = "eb_insert_dup_at e n nk t"
  have r: "eb_ok ?t" "eb_own ?t" "adds (n, nk) (leaves t) (leaves ?t)"
      "mset (owners ?t) = mset (n # owners t)"
    using dup_at_ok [OF t, of e b nk n] some nb mem by (simp_all add: eb_node_bit_def entries_def)
  have "distinct (n # owners t)" using t(3) n owners_ids [OF t(2)] by auto
  then have d1: "distinct (owners ?t)" using r(4) mset_eq_imp_distinct_iff by blast
  have "mset (map fst (leaves ?t)) = mset (map fst ((n, nk) # leaves t))" using adds_mset [OF r(3)] by (metis mset.simps(2) mset_map)
  moreover have "distinct (map fst ((n, nk) # leaves t))" using t(4) n by simp
  ultimately have "distinct (map fst (leaves ?t))" using mset_eq_imp_distinct_iff by blast
  then show ?thesis
    using inv some r d1 by (simp add: eb_queue_dup_def eb_inv_def eb_tree_inv_def entries_def)
qed

section \<open>The contract of an ordered queue\<close>

text \<open>What the scheduler relies on in its two queues: the entries are kept in key order, equal
  keys in order of insertion; a duplicate may be queued beside a known entry of its key. The
  lemmas are the circular scan both scheduler loops make.\<close>

lemma circular_le:
  fixes a b x :: u32
  assumes "(a \<le> b \<and> b < x) \<or> (x \<le> a \<and> (a \<le> b \<or> b < x))"
  shows "a - x \<le> b - x"
proof -
  have "unat (v - x) = (if x \<le> v then unat v - unat x else unat v + 2 ^ 32 - unat x)" for v :: u32
    by (simp add: unat_sub_if_size word_size word_le_nat_alt)
  moreover have "unat x < 2 ^ 32" "unat a < 2 ^ 32" using unsigned_less [of x] unsigned_less [of a] by simp_all
  ultimately show ?thesis
    using assms unfolding word_le_nat_alt word_less_nat_alt by (auto split: if_splits)
qed

locale keyed_queue =
  fixes empty :: 'q
    and inv :: "'q \<Rightarrow> bool"
    and entries_of :: "'q \<Rightarrow> ('a \<times> u32) list"
    and insert_key :: "'q \<Rightarrow> 'a \<Rightarrow> u32 \<Rightarrow> 'q"
    and dup_key :: "'q \<Rightarrow> 'a \<Rightarrow> 'a \<Rightarrow> u32 \<Rightarrow> 'q"
    and dup_ok :: "'q \<Rightarrow> 'a \<Rightarrow> bool"
    and delete :: "'a \<Rightarrow> 'q \<Rightarrow> 'q"
    and first :: "'q \<Rightarrow> ('a \<times> u32) option"
    and succ :: "'a \<Rightarrow> 'q \<Rightarrow> ('a \<times> u32) option"
    and lookup_ge :: "'q \<Rightarrow> u32 \<Rightarrow> ('a \<times> u32) option"
  assumes inv_empty: "inv empty" and entries_empty: "entries_of empty = []"
    and inv_sorted: "inv q \<Longrightarrow> sorted (map snd (entries_of q))"
    and inv_distinct: "inv q \<Longrightarrow> distinct (map fst (entries_of q))"
    and insert_inv: "inv q \<Longrightarrow> e \<notin> fst ` set (entries_of q) \<Longrightarrow> inv (insert_key q e k)"
    and insert_entries: "inv q \<Longrightarrow> e \<notin> fst ` set (entries_of q) \<Longrightarrow>
                         entries_of (insert_key q e k) = ins_after (e, k) (entries_of q)"
    and dup_inv: "inv q \<Longrightarrow> n \<notin> fst ` set (entries_of q) \<Longrightarrow> dup_ok q e \<Longrightarrow> (e, k) \<in> set (entries_of q) \<Longrightarrow>
                  inv (dup_key q e n k)"
    and dup_entries: "inv q \<Longrightarrow> n \<notin> fst ` set (entries_of q) \<Longrightarrow> dup_ok q e \<Longrightarrow> (e, k) \<in> set (entries_of q) \<Longrightarrow>
                      adds (n, k) (entries_of q) (entries_of (dup_key q e n k))"
    and delete_inv: "inv q \<Longrightarrow> inv (delete e q)"
    and delete_entries: "inv q \<Longrightarrow> entries_of (delete e q) = without e (entries_of q)"
    and first_entry: "inv q \<Longrightarrow> first q = (case entries_of q of [] \<Rightarrow> None | x # _ \<Rightarrow> Some x)"
    and succ_entry: "inv q \<Longrightarrow> e \<in> fst ` set (entries_of q) \<Longrightarrow> succ e q = next_in e (entries_of q)"
    and lookup_ge_entry: "inv q \<Longrightarrow> lookup_ge q x = find (\<lambda>e. x \<le> snd e) (entries_of q)"
begin

lemma insert_adds:
  "inv q \<Longrightarrow> e \<notin> fst ` set (entries_of q) \<Longrightarrow> adds (e, k) (entries_of q) (entries_of (insert_key q e k))"
  by (simp add: insert_entries adds_ins_after)

lemma lookup_ge_mem: "inv q \<Longrightarrow> lookup_ge q x = Some y \<Longrightarrow> y \<in> set (entries_of q)"
  unfolding lookup_ge_entry find_Some_iff by auto

lemma insert_delete:
  assumes "inv q" and "e \<notin> fst ` set (entries_of q)"
  shows "entries_of (delete e (insert_key q e k)) = entries_of q"
proof -
  have "without e (entries_of q) = entries_of q" using assms(2) by (rule without_absent)
  moreover have "without e (ins_after (e, k) xs) = without e xs" for xs :: "('a \<times> u32) list"
  proof -
    have "without e xs = without e (takeWhile (\<lambda>x. snd x \<le> k) xs @ dropWhile (\<lambda>x. snd x \<le> k) xs)"
      by (simp only: takeWhile_dropWhile_id)
    then show ?thesis by (simp add: ins_after_def del: takeWhile_dropWhile_id)
  qed
  ultimately show ?thesis
    using assms by (simp add: delete_entries insert_inv insert_entries)
qed

text \<open>Starting at base \<open>x\<close> and falling back to the first entry finds an entry of the least
  distance above \<open>x\<close>, counted modulo \<open>2 ^ 32\<close>.\<close>

lemma circular_first:
  assumes q: "inv q"
    and e: "(case lookup_ge q x of Some y \<Rightarrow> Some y | None \<Rightarrow> first q) = Some (e, k)"
  shows "(e, k) \<in> set (entries_of q) \<and> (\<forall>y \<in> set (entries_of q). k - x \<le> snd y - x)"
proof (cases "find (\<lambda>e. x \<le> snd e) (entries_of q)")
  case None
  then have low: "snd y < x" if "y \<in> set (entries_of q)" for y
    using None that by (metis find_None_iff not_le)
  obtain ys where es: "entries_of q = (e, k) # ys"
    using e None by (auto simp: lookup_ge_entry [OF q] first_entry [OF q] split: list.splits)
  then have "k \<le> snd y" if "y \<in> set (entries_of q)" for y
    using inv_sorted [OF q] that by auto
  then have "k - x \<le> snd y - x" if "y \<in> set (entries_of q)" for y
    using low [OF that] that by (intro circular_le) auto
  then show ?thesis using es by simp
next
  case (Some a)
  then have a: "find (\<lambda>e. x \<le> snd e) (entries_of q) = Some (e, k)" using e by (simp add: lookup_ge_entry [OF q])
  then obtain i where i: "i < length (entries_of q)" "x \<le> k" "entries_of q ! i = (e, k)"
      "\<forall>j < i. \<not> x \<le> snd (entries_of q ! j)"
    unfolding find_Some_iff by (metis snd_conv)
  have "k - x \<le> snd y - x" if y: "y \<in> set (entries_of q)" for y
  proof -
    obtain j where j: "j < length (entries_of q)" "y = entries_of q ! j"
      using y by (metis in_set_conv_nth)
    have "k \<le> snd y \<or> snd y < x"
    proof (cases "j < i")
      case True
      with i(4) j show ?thesis by auto
    next
      case False
      then show ?thesis using sorted_nth_mono [OF inv_sorted [OF q], of i j] i j by simp
    qed
    then show ?thesis using i(2) by (intro circular_le) auto
  qed
  moreover have "(e, k) \<in> set (entries_of q)" using i(1,3) by (metis nth_mem)
  ultimately show ?thesis by blast
qed

end

definition eb_dup_ok :: "'a eb_root \<Rightarrow> 'a \<Rightarrow> bool" where
  "eb_dup_ok root e \<longleftrightarrow> (case eb_node_bit e root of Some b \<Rightarrow> b < 0 | None \<Rightarrow> False)"

interpretation ebq: keyed_queue EB_ROOT eb_inv entries "\<lambda>q e k. fst (eb32_insert q e k)"
  eb_queue_dup eb_dup_ok eb_delete eb_first eb_next eb32_lookup_ge
proof unfold_locales
  fix q :: "'a eb_root" and e n :: 'a and k x :: u32
  show "eb_inv (EB_ROOT :: 'a eb_root)" "entries (EB_ROOT :: 'a eb_root) = []" by (rule eb_inv_empty)+
  assume q: "eb_inv q"
  show "sorted (map snd (entries q))" using q by (rule eb_inv_sorted)
  show "distinct (map fst (entries q))" using q by (rule eb_inv_distinct)
  show "eb_inv (eb_delete e q)" "entries (eb_delete e q) = without e (entries q)"
    using eb_delete_inv [OF q] by blast+
  show "eb_first q = (case entries q of [] \<Rightarrow> None | x # _ \<Rightarrow> Some x)"
    by (auto simp: eb_first_def entries_def split: option.splits list.splits)
  show "eb32_lookup_ge q x = find (\<lambda>e. x \<le> snd e) (entries q)"
    using q by (auto simp: eb32_lookup_ge_def entries_def eb_inv_def eb_tree_inv_def eb32_ge_at_find
        split: option.splits)
  show "eb_next e q = next_in e (entries q)" if "e \<in> fst ` set (entries q)"
    using eb_next_in [of e q] that by (simp add: eb_linked_def)
  show "eb_inv (fst (eb32_insert q e k))" "entries (fst (eb32_insert q e k)) = ins_after (e, k) (entries q)"
    if "e \<notin> fst ` set (entries q)"
    using eb32_insert_inv [OF q, of e k] that by (simp_all add: eb_linked_def)
  show "eb_inv (eb_queue_dup q e n k)" "adds (n, k) (entries q) (entries (eb_queue_dup q e n k))"
    if "n \<notin> fst ` set (entries q)" "eb_dup_ok q e" "(e, k) \<in> set (entries q)"
    using eb_queue_dup_inv [OF q, of n e _ k] that
    by (auto simp: eb_linked_def eb_dup_ok_def split: option.splits)
qed

section \<open>Properties\<close>

text \<open>\<open>flsnz\<close>, the divide-and-conquer search with five masks, is the position from 1 of
  the highest bit set of any non-zero word.\<close>

theorem flsnz_is_highest_bit:
  assumes "a \<noteq> 0"
  shows "flsnz a \<ge> 1 \<and> flsnz a \<le> 32 \<and> bit a (flsnz a - 1) \<and> (\<forall>i. bit a i \<longrightarrow> i < flsnz a)"
proof -
  obtain m where m: "bit a m" "\<And>i. bit a i \<Longrightarrow> i \<le> m" using assms by (rule highest_bit) blast
  moreover have "m < 32" using bit_imp_le_length [OF m(1)] by simp
  ultimately show ?thesis using flsnz_highest [OF m] by (auto simp: less_Suc_eq_le)
qed

theorem flsnz_is_highest_bit_witness: "flsnz 0x00501234 = 23"
proof -
  have "flsnz 0x00501234 \<ge> 1 \<and> flsnz 0x00501234 \<le> 32 \<and> bit (0x00501234 :: u32) (flsnz 0x00501234 - 1)"
    using flsnz_is_highest_bit [of "0x00501234"] by simp
  then show ?thesis by code_simp
qed

text \<open>C16: inserting an entry that is not linked keeps the tree's invariant, returns the entry and
  puts it after all the entries of a smaller or the same key, before all those of a
  greater key, leaving the order of the others alone.\<close>

theorem eb32_insert_spec:
  assumes "eb_inv root" and "\<not> eb_linked n root"
  shows "eb_inv (fst (eb32_insert root n k)) \<and> snd (eb32_insert root n k) = n \<and>
         entries (fst (eb32_insert root n k)) =
           filter (\<lambda>x. snd x \<le> k) (entries root) @ (n, k) # filter (\<lambda>x. k < snd x) (entries root)"
proof -
  have "sorted (map snd xs) \<Longrightarrow>
      ins_after (n, k) xs = filter (\<lambda>x. snd x \<le> k) xs @ (n, k) # filter (\<lambda>x. k < snd x) xs"
    for xs :: "('a \<times> u32) list"
  proof (induction xs)
    case (Cons x xs)
    show ?case
    proof (cases "snd x \<le> k")
      case True
      with Cons show ?thesis by (simp add: ins_after_def not_less)
    next
      case False
      then have "\<forall>y \<in> set (x # xs). k < snd y" using Cons.prems by auto
      then have "filter (\<lambda>y. snd y \<le> k) (x # xs) = []" "filter (\<lambda>y. k < snd y) (x # xs) = x # xs"
        by (metis filter_empty_conv not_le, metis filter_id_conv)
      with False show ?thesis by (simp only: ins_after_def) simp
    qed
  qed (simp add: ins_after_def)
  then show ?thesis using eb32_insert_inv [OF assms] eb_inv_sorted [OF assms(1)] by simp
qed

theorem eb32_insert_spec_witness:
  "entries (fst (eb32_insert (fst (eb32_insert (fst (eb32_insert EB_ROOT (1::nat) 5)) 2 3)) 3 3)) =
     [(2, 3), (3, 3), (1, 5)]"
proof -
  let ?a = "fst (eb32_insert EB_ROOT (1::nat) 5)"
  let ?b = "fst (eb32_insert ?a 2 3)"
  have a: "eb_inv ?a" "entries ?a = [(1, 5)]"
    using eb32_insert_spec [OF eb_inv_empty(1), of "1::nat" 5] by (simp_all add: eb_linked_def eb_inv_empty)
  then have b: "eb_inv ?b" "entries ?b = [(2, 3), (1, 5)]"
    using eb32_insert_spec [OF a(1), of 2 3] by (simp_all add: eb_linked_def)
  then show ?thesis using eb32_insert_spec [OF b(1), of 3 3] by (simp add: eb_linked_def)
qed

text \<open>C17: \<open>eb_delete\<close> keeps the invariant, whatever entry it is called on, and removes exactly that
  entry: it is no longer linked and all the others stay in their order. In particular the
  node part released by the deletion is always below the one it takes the place of.\<close>

theorem eb_delete_spec:
  assumes "eb_inv root"
  shows "eb_inv (eb_delete e root) \<and> \<not> eb_linked e (eb_delete e root) \<and>
         entries (eb_delete e root) = filter (\<lambda>x. fst x \<noteq> e) (entries root)"
  using eb_delete_inv [OF assms, of e] by (auto simp: eb_linked_def)

theorem eb_delete_spec_witness:
  "entries (eb_delete 1 (fst (eb32_insert (fst (eb32_insert EB_ROOT (1::nat) 5)) 2 3))) = [(2, 3)]"
proof -
  let ?a = "fst (eb32_insert EB_ROOT (1::nat) 5)"
  have a: "eb_inv ?a" "entries ?a = [(1, 5)]"
    using eb32_insert_inv [OF eb_inv_empty(1), of "1::nat" 5]
    by (simp_all add: eb_linked_def eb_inv_empty ins_after_def)
  then have b: "eb_inv (fst (eb32_insert ?a 2 3))" "entries (fst (eb32_insert ?a 2 3)) = [(2, 3), (1, 5)]"
    using eb32_insert_inv [OF a(1), of 2 3] by (simp_all add: eb_linked_def ins_after_def)
  then show ?thesis using eb_delete_spec [OF b(1), of 1] by simp
qed

text \<open>The lookups and walks of a well-formed tree read its key order: \<open>eb32_lookup_ge\<close> is the
  first entry of a key not below \<open>x\<close>, \<open>eb32_lookup_le\<close> the last of a key not above it, \<open>eb_first\<close> and
  \<open>eb_last\<close> the ends, and \<open>eb_next\<close> and \<open>eb_prev\<close> the neighbours of a linked entry.\<close>

theorem eb_walk_spec:
  assumes "eb_inv root"
  shows "eb32_lookup_ge root x = find (\<lambda>e. x \<le> snd e) (entries root) \<and>
         eb32_lookup_le root x = find (\<lambda>e. snd e \<le> x) (rev (entries root)) \<and>
         eb_first root = find (\<lambda>_. True) (entries root) \<and>
         eb_last root = find (\<lambda>_. True) (rev (entries root)) \<and>
         (eb_linked e root \<longrightarrow>
            eb_next e root = next_in e (entries root) \<and> eb_prev e root = prev_in e (entries root))"
proof -
  have some: "xs \<noteq> [] \<Longrightarrow> find (\<lambda>_. True) xs = Some (hd xs)" for xs :: "('a \<times> u32) list"
    by (rule find_hd) simp
  have "eb_first root = find (\<lambda>_. True) (entries root)"
    "eb_last root = find (\<lambda>_. True) (rev (entries root))"
    by (cases "b_left root"; simp add: eb_first_def eb_last_def entries_def some hd_rev)+
  moreover have "eb32_lookup_le root x = find (\<lambda>e. snd e \<le> x) (rev (entries root))"
    using assms by (cases "b_left root")
      (auto simp: eb32_lookup_le_def entries_def eb_inv_def eb_tree_inv_def eb32_le_at_find split: option.splits)
  ultimately show ?thesis
    using ebq.lookup_ge_entry [OF assms] eb_next_in [of e root] eb_prev_in [of e root] by simp
qed

theorem eb_walk_spec_witness:
  "eb32_lookup_ge (fst (eb32_insert (fst (eb32_insert EB_ROOT (1::nat) 5)) 2 3)) 4 = Some (1, 5)"
proof -
  let ?a = "fst (eb32_insert EB_ROOT (1::nat) 5)"
  have a: "eb_inv ?a" "entries ?a = [(1, 5)]"
    using eb32_insert_inv [OF eb_inv_empty(1), of "1::nat" 5]
    by (simp_all add: eb_linked_def eb_inv_empty ins_after_def)
  then have b: "eb_inv (fst (eb32_insert ?a 2 3))" "entries (fst (eb32_insert ?a 2 3)) = [(2, 3), (1, 5)]"
    using eb32_insert_inv [OF a(1), of 2 3] by (simp_all add: eb_linked_def ins_after_def)
  then show ?thesis using eb_walk_spec [OF b(1), of 4] by simp
qed

end
