(* ===== verification/Task.thy ===== *)
theory Task
  imports Ticks Ebtree_Queue
begin

text \<open>
  The task scheduler, \<open>src/src/task.c\<close>, \<open>src/src/task.h\<close> and \<open>src/src/type/task.h\<close>: a run queue
  ordered by an insertion counter and a wait queue ordered by expiration dates, both elastic
  binary trees on 32-bit keys that may wrap.

  A task is named by a number, the address of its \<open>struct task\<close>; the store \<open>tasks\<close> gives its
  fields, the two trees say whether its \<open>rq\<close> and \<open>wq\<close> nodes are linked. The field \<open>bit\<close> of a
  \<open>wq\<close> node outlives the use of its node part and is read by \<open>__task_queue\<close> through
  \<open>last_timer\<close>: \<open>wq_bits\<close> keeps it, and \<open>set_timers\<close> brings it up to date after each change of the tree.
  Functions whose C name starts with two underscores have the prefix \<open>raw_\<close>. The invariant
  \<open>sched_inv\<close> ties the counters, the keys and \<open>last_timer\<close> to the trees; all operations keep it.
\<close>

section \<open>State\<close>

definition TASK_SLEEPING :: u16 where "TASK_SLEEPING = 0x00"
definition TASK_RUNNING :: u16 where "TASK_RUNNING = 0x01"
definition TASK_WOKEN_INIT :: u16 where "TASK_WOKEN_INIT = 0x02"
definition TASK_WOKEN_TIMER :: u16 where "TASK_WOKEN_TIMER = 0x04"
definition TASK_WOKEN_IO :: u16 where "TASK_WOKEN_IO = 0x08"
definition TASK_WOKEN_SIGNAL :: u16 where "TASK_WOKEN_SIGNAL = 0x10"
definition TASK_WOKEN_MSG :: u16 where "TASK_WOKEN_MSG = 0x20"
definition TASK_WOKEN_RES :: u16 where "TASK_WOKEN_RES = 0x40"
definition TASK_WOKEN_OTHER :: u16 where "TASK_WOKEN_OTHER = 0x80"

definition TASK_WOKEN_ANY :: u16 where
  "TASK_WOKEN_ANY = (TASK_WOKEN_OTHER OR TASK_WOKEN_INIT OR TASK_WOKEN_TIMER OR TASK_WOKEN_IO OR
     TASK_WOKEN_SIGNAL OR TASK_WOKEN_MSG OR TASK_WOKEN_RES)"

definition TIMER_LOOK_BACK :: u32 where
  "TIMER_LOOK_BACK = push_bit 31 1"

record task =
  rq_key :: u32
  state :: u16
  nice :: u16          \<comment> \<open>a \<open>short\<close>, read with \<open>sint\<close>\<close>
  calls :: u32
  wq_key :: u32
  expire :: u32

record sched =
  tasks :: "nat \<Rightarrow> task"
  timers :: "nat eb_root"
  rqueue :: "nat eb_root"
  last_timer :: "nat option"
  wq_bits :: "nat \<Rightarrow> int"
  nb_tasks :: u32
  run_queue :: u32
  niced_tasks :: u32
  rqueue_ticks :: u32
  run_queue_cur :: u32
  nb_tasks_cur :: u32

abbreviation upd_task :: "nat \<Rightarrow> (task \<Rightarrow> task) \<Rightarrow> sched \<Rightarrow> sched" where
  "upd_task t f s \<equiv> s\<lparr>tasks := (tasks s)(t := f (tasks s t))\<rparr>"

definition set_timers :: "nat eb_root \<Rightarrow> sched \<Rightarrow> sched" where
  "set_timers r s =
     s\<lparr>timers := r,
       wq_bits := (\<lambda>e. case eb_node_bit e r of Some b \<Rightarrow> b | None \<Rightarrow> wq_bits s e)\<rparr>"

section \<open>Operations\<close>

definition task_in_rq :: "nat \<Rightarrow> sched \<Rightarrow> bool" where
  "task_in_rq t s \<longleftrightarrow> eb_linked t (rqueue s)"

definition task_in_wq :: "nat \<Rightarrow> sched \<Rightarrow> bool" where
  "task_in_wq t s \<longleftrightarrow> eb_linked t (timers s)"

text \<open>The offset a nice value adds to the position in the run queue.\<close>

definition rq_offset :: "u32 \<Rightarrow> u16 \<Rightarrow> u32" where
  "rq_offset rq n =
     (if n = 0 then 0
      else if sint n > 0 then (rq * of_int (sint n)) div 32
      else - ((rq * of_int (- sint n)) div 32))"

definition raw_task_wakeup :: "nat \<Rightarrow> sched \<Rightarrow> sched" where
  "raw_task_wakeup t s =
     (let rq = run_queue s + 1;
          ticks = rqueue_ticks s + 1;
          tk = tasks s t;
          key = ticks + rq_offset rq (nice tk)
      in s\<lparr>run_queue := rq,
           rqueue_ticks := ticks,
           niced_tasks := (if nice tk \<noteq> 0 then niced_tasks s + 1 else niced_tasks s),
           tasks := (tasks s)(t := tk\<lparr>rq_key := key, state := state tk AND NOT TASK_WOKEN_ANY\<rparr>),
           rqueue := fst (eb32_insert (rqueue s) t key)\<rparr>)"

definition task_wakeup :: "nat \<Rightarrow> u16 \<Rightarrow> sched \<Rightarrow> sched" where
  "task_wakeup t f s =
     (let s1 = (if \<not> task_in_rq t s then raw_task_wakeup t s else s)
      in upd_task t (\<lambda>tk. tk\<lparr>state := state tk OR f\<rparr>) s1)"

definition raw_task_unlink_wq :: "nat \<Rightarrow> sched \<Rightarrow> sched" where
  "raw_task_unlink_wq t s =
     (let s1 = set_timers (eb_delete t (timers s)) s
      in if last_timer s1 = Some t then s1\<lparr>last_timer := None\<rparr> else s1)"

definition task_unlink_wq :: "nat \<Rightarrow> sched \<Rightarrow> sched" where
  "task_unlink_wq t s = (if task_in_wq t s then raw_task_unlink_wq t s else s)"

definition raw_task_unlink_rq :: "nat \<Rightarrow> sched \<Rightarrow> sched" where
  "raw_task_unlink_rq t s =
     s\<lparr>rqueue := eb_delete t (rqueue s),
       run_queue := run_queue s - 1,
       niced_tasks := (if nice (tasks s t) \<noteq> 0 then niced_tasks s - 1 else niced_tasks s)\<rparr>"

definition task_unlink_rq :: "nat \<Rightarrow> sched \<Rightarrow> sched" where
  "task_unlink_rq t s = (if task_in_rq t s then raw_task_unlink_rq t s else s)"

definition task_delete :: "nat \<Rightarrow> sched \<Rightarrow> sched" where
  "task_delete t s = task_unlink_rq t (task_unlink_wq t s)"

text \<open>\<open>task_init\<close> sets \<open>leaf_p\<close> of a block fresh from \<open>malloc\<close> to NULL: the trees do not know the
  new address, and the fields it does not write keep what the block held.\<close>

definition task_init :: "nat \<Rightarrow> sched \<Rightarrow> sched" where
  "task_init t s = upd_task t (\<lambda>tk. tk\<lparr>state := TASK_SLEEPING, nice := 0, calls := 0\<rparr>) s"

definition task_new :: "nat option \<Rightarrow> sched \<Rightarrow> nat option \<times> sched" where
  "task_new block s =
     (case block of
        None \<Rightarrow> (None, s)
      | Some t \<Rightarrow> (Some t, task_init t (s\<lparr>nb_tasks := nb_tasks s + 1\<rparr>)))"

definition task_free :: "nat \<Rightarrow> sched \<Rightarrow> sched" where
  "task_free t s = s\<lparr>nb_tasks := nb_tasks s - 1\<rparr>"

definition raw_task_queue :: "nat \<Rightarrow> sched \<Rightarrow> sched" where
  "raw_task_queue t s0 =
     (let s1 = (if task_in_wq t s0 then raw_task_unlink_wq t s0 else s0);
          key = expire (tasks s1 t);
          s2 = upd_task t (\<lambda>tk. tk\<lparr>wq_key := key\<rparr>) s1;
          plain =
            (let s3 = set_timers (fst (eb32_insert (timers s2) t key)) s2
             in if eb_node_bit t (timers s3) \<noteq> None \<and>
                   (case last_timer s3 of None \<Rightarrow> True | Some e \<Rightarrow> wq_bits s3 t < wq_bits s3 e)
                then s3\<lparr>last_timer := Some t\<rparr> else s3)
      in case last_timer s2 of
           None \<Rightarrow> plain
         | Some e \<Rightarrow>
             if wq_bits s2 e < 0 \<and> wq_key (tasks s2 e) = key \<and> eb_node_bit e (timers s2) \<noteq> None
             then (let s3 = set_timers (eb_queue_dup (timers s2) e t key) s2
                   in if wq_bits s3 t < wq_bits s3 e then s3\<lparr>last_timer := Some t\<rparr> else s3)
             else plain)"

definition task_queue :: "nat \<Rightarrow> sched \<Rightarrow> sched" where
  "task_queue t s =
     (if \<not> tick_isset (expire (tasks s t)) then s
      else if \<not> task_in_wq t s \<or> tick_is_lt (expire (tasks s t)) (wq_key (tasks s t))
      then raw_task_queue t s else s)"

definition task_schedule :: "nat \<Rightarrow> u32 \<Rightarrow> sched \<Rightarrow> sched" where
  "task_schedule t when0 s =
     (if task_in_rq t s then s
      else
        let when' = (if task_in_wq t s then tick_first when0 (expire (tasks s t)) else when0);
            s1 = upd_task t (\<lambda>tk. tk\<lparr>expire := when'\<rparr>) s
        in if \<not> task_in_wq t s1 \<or> tick_is_lt (expire (tasks s1 t)) (wq_key (tasks s1 t))
           then raw_task_queue t s1 else s1)"

text \<open>\<open>wake_expired_tasks\<close>: \<open>wake_one\<close> is the body of the loop once the timer \<open>x\<close> looks expired,
  up to the next value of \<open>eb\<close>; of the loop \<open>None\<close> would be that it does not end.\<close>

definition wake_one :: "u32 \<Rightarrow> nat \<times> u32 \<Rightarrow> sched \<Rightarrow> (nat \<times> u32) option \<times> sched" where
  "wake_one now_ms x s =
     (let t = fst x;
          eb = eb_next t (timers s);
          s1 = raw_task_unlink_wq t s
      in if \<not> tick_is_expired (expire (tasks s1 t)) now_ms
         then (if \<not> tick_isset (expire (tasks s1 t)) then (eb, s1)
               else let s2 = raw_task_queue t s1;
                        k = wq_key (tasks s2 t)
                    in (case eb of
                          None \<Rightarrow> (Some (t, k), s2)
                        | Some y \<Rightarrow> (if snd y > k then Some (t, k) else Some y, s2)))
         else (eb, task_wakeup t TASK_WOKEN_TIMER s1))"

partial_function (option) wake_loop :: "u32 \<Rightarrow> (nat \<times> u32) option \<Rightarrow> sched \<Rightarrow> (u32 \<times> sched) option" where
  "wake_loop now_ms eb s =
     (case (case eb of None \<Rightarrow> eb_first (timers s) | Some x \<Rightarrow> Some x) of
        None \<Rightarrow> Some (TICK_ETERNITY, s)
      | Some x \<Rightarrow>
          if tick_is_lt now_ms (snd x) then Some (snd x, s)
          else (case wake_one now_ms x s of (eb', s') \<Rightarrow> wake_loop now_ms eb' s'))"

declare wake_loop.simps [code]

definition wake_expired_tasks :: "u32 \<Rightarrow> sched \<Rightarrow> (u32 \<times> sched) option" where
  "wake_expired_tasks now_ms s =
     wake_loop now_ms (eb32_lookup_ge (timers s) (now_ms - TIMER_LOOK_BACK)) s"

text \<open>\<open>process_runnable_tasks\<close>. The function pointer \<open>t->process\<close> is a parameter: given the
  task it returns the task or NULL, and the state it leaves.\<close>

type_synonym callback = "nat \<Rightarrow> sched \<Rightarrow> nat option \<times> sched"

text \<open>\<open>run_after\<close> is the block under \<open>if (likely(t != NULL))\<close>, \<open>run_one\<close> the loop's body from the
  task's detachment on; they give the new \<open>expire\<close> and \<open>eb\<close>.\<close>

definition run_after :: "u32 \<Rightarrow> (nat \<times> u32) option \<Rightarrow> nat \<Rightarrow> sched \<Rightarrow> u32 \<times> (nat \<times> u32) option \<times> sched" where
  "run_after expire0 eb t s =
     (let s1 = upd_task t (\<lambda>tk. tk\<lparr>state := state tk AND NOT TASK_RUNNING\<rparr>) s;
          ex = expire (tasks s1 t);
          s2 = (if ex \<noteq> 0 then task_queue t s1 else s1);
          expire1 = (if ex \<noteq> 0 then tick_first_2nz expire0 ex else expire0);
          eb1 = (if task_in_rq t s2 \<and>
                    (case eb of None \<Rightarrow> True | Some y \<Rightarrow> tick_is_lt (rq_key (tasks s2 t)) (snd y))
                 then eb32_lookup_ge (rqueue s2) (rqueue_ticks s2 - TIMER_LOOK_BACK) else eb)
      in (expire1, eb1, s2))"

definition run_one :: "callback \<Rightarrow> u32 \<Rightarrow> nat \<times> u32 \<Rightarrow> sched \<Rightarrow> u32 \<times> (nat \<times> u32) option \<times> sched" where
  "run_one process expire0 x s =
     (let t = fst x;
          eb = eb_next t (rqueue s);
          s1 = raw_task_unlink_rq t s;
          s2 = upd_task t (\<lambda>tk. tk\<lparr>state := state tk OR TASK_RUNNING, calls := calls tk + 1\<rparr>) s1
      in (case process t s2 of
            (None, s3) \<Rightarrow> (expire0, eb, s3)
          | (Some t', s3) \<Rightarrow> run_after expire0 eb t' s3))"

fun run_loop :: "callback \<Rightarrow> nat \<Rightarrow> u32 \<Rightarrow> (nat \<times> u32) option \<Rightarrow> sched \<Rightarrow> u32 \<times> sched" where
  "run_loop process 0 expire0 eb s = (expire0, s)"
| "run_loop process (Suc n) expire0 eb s =
     (case (case eb of None \<Rightarrow> eb_first (rqueue s) | Some x \<Rightarrow> Some x) of
        None \<Rightarrow> (expire0, s)
      | Some x \<Rightarrow>
          (case run_one process expire0 x s of
             (expire1, eb1, s1) \<Rightarrow> run_loop process n expire1 eb1 s1))"

definition max_processed :: "sched \<Rightarrow> u32" where
  "max_processed s =
     (let m = (if run_queue s > 200 then 200 else run_queue s)
      in if niced_tasks s \<noteq> 0 then (m + 3) div 4 else m)"

definition process_runnable_tasks :: "callback \<Rightarrow> u32 \<Rightarrow> sched \<Rightarrow> u32 \<times> sched" where
  "process_runnable_tasks process next0 s =
     (let s1 = s\<lparr>run_queue_cur := run_queue s, nb_tasks_cur := nb_tasks s\<rparr>
      in if run_queue s1 = 0 then (next0, s1)
         else run_loop process (unat (max_processed s1)) next0
                (eb32_lookup_ge (rqueue s1) (rqueue_ticks s1 - TIMER_LOOK_BACK)) s1)"

definition init_task :: "sched \<Rightarrow> int \<times> sched" where
  "init_task s = (0, set_timers EB_ROOT (s\<lparr>rqueue := EB_ROOT\<rparr>))"

section \<open>The scheduler's invariant\<close>

definition sched_inv :: "sched \<Rightarrow> bool" where
  "sched_inv s \<longleftrightarrow>
     eb_inv (timers s) \<and> eb_inv (rqueue s) \<and>
     (\<forall>x \<in> set (entries (timers s)). wq_key (tasks s (fst x)) = snd x) \<and>
     (\<forall>x \<in> set (entries (rqueue s)). rq_key (tasks s (fst x)) = snd x) \<and>
     run_queue s = of_nat (length (entries (rqueue s))) \<and>
     niced_tasks s = of_nat (length (filter (\<lambda>x. nice (tasks s (fst x)) \<noteq> 0) (entries (rqueue s)))) \<and>
     (\<forall>e. last_timer s = Some e \<longrightarrow> eb_linked e (timers s)) \<and>
     (\<forall>e b. eb_node_bit e (timers s) = Some b \<longrightarrow> wq_bits s e = b)"

lemma sched_invD:
  assumes "sched_inv s"
  shows "eb_inv (timers s)" "eb_inv (rqueue s)"
    "x \<in> set (entries (timers s)) \<Longrightarrow> wq_key (tasks s (fst x)) = snd x"
    "x \<in> set (entries (rqueue s)) \<Longrightarrow> rq_key (tasks s (fst x)) = snd x"
    "run_queue s = of_nat (length (entries (rqueue s)))"
    "niced_tasks s = of_nat (length (filter (\<lambda>x. nice (tasks s (fst x)) \<noteq> 0) (entries (rqueue s))))"
    "last_timer s = Some e \<Longrightarrow> eb_linked e (timers s)"
    "eb_node_bit e (timers s) = Some b \<Longrightarrow> wq_bits s e = b"
  using assms by (auto simp: sched_inv_def)

text \<open>What the operations on the wait queue leave alone.\<close>

lemma set_timers_frame [simp]:
  "tasks (set_timers r s) = tasks s" "timers (set_timers r s) = r" "rqueue (set_timers r s) = rqueue s"
  "last_timer (set_timers r s) = last_timer s" "run_queue (set_timers r s) = run_queue s"
  "niced_tasks (set_timers r s) = niced_tasks s" "rqueue_ticks (set_timers r s) = rqueue_ticks s"
  "nb_tasks (set_timers r s) = nb_tasks s"
  "eb_node_bit e r = Some b \<Longrightarrow> wq_bits (set_timers r s) e = b"
  by (simp_all add: set_timers_def)

lemma unlink_wq_frame [simp]:
  "tasks (raw_task_unlink_wq t s) = tasks s" "timers (raw_task_unlink_wq t s) = eb_delete t (timers s)"
  "rqueue (raw_task_unlink_wq t s) = rqueue s" "run_queue (raw_task_unlink_wq t s) = run_queue s"
  "niced_tasks (raw_task_unlink_wq t s) = niced_tasks s" "rqueue_ticks (raw_task_unlink_wq t s) = rqueue_ticks s"
  "nb_tasks (raw_task_unlink_wq t s) = nb_tasks s"
  by (simp_all add: raw_task_unlink_wq_def Let_def)

lemma linked_delete: "eb_inv q \<Longrightarrow> eb_linked e (eb_delete t q) \<longleftrightarrow> eb_linked e q \<and> e \<noteq> t"
  by (auto simp: eb_linked_def ebq.delete_entries)

lemma unlink_wq_inv:
  assumes "sched_inv s"
  shows "sched_inv (raw_task_unlink_wq t s)"
proof -
  note q = sched_invD(1) [OF assms]
  have "last_timer (raw_task_unlink_wq t s) = Some e \<Longrightarrow> last_timer s = Some e \<and> e \<noteq> t" for e
    by (auto simp: raw_task_unlink_wq_def Let_def split: if_splits)
  moreover have "eb_node_bit e (eb_delete t (timers s)) = Some b \<Longrightarrow>
      wq_bits (raw_task_unlink_wq t s) e = b" for e b
    by (simp add: raw_task_unlink_wq_def Let_def)
  ultimately show ?thesis
    using assms ebq.delete_inv [OF q, of t] ebq.delete_entries [OF q, of t] linked_delete [OF q, of _ t]
    unfolding sched_inv_def by auto
qed

text \<open>\<open>__task_queue\<close>, both on its usual path and on the short cut through \<open>last_timer\<close>.\<close>

definition queued :: "nat \<Rightarrow> sched \<Rightarrow> sched \<Rightarrow> bool" where
  "queued t s s' \<longleftrightarrow>
     adds (t, expire (tasks s t)) (without t (entries (timers s))) (entries (timers s')) \<and>
     tasks s' = (tasks s)(t := (tasks s t)\<lparr>wq_key := expire (tasks s t)\<rparr>) \<and>
     rqueue s' = rqueue s \<and> run_queue s' = run_queue s \<and> niced_tasks s' = niced_tasks s \<and>
     rqueue_ticks s' = rqueue_ticks s \<and> nb_tasks s' = nb_tasks s"

lemma sched_inv_tasks:
  assumes inv: "sched_inv s"
    and wq: "\<And>x. x \<in> set (entries (timers s)) \<Longrightarrow> wq_key (f (fst x)) = snd x"
    and rq: "\<And>x. x \<in> set (entries (rqueue s)) \<Longrightarrow>
               rq_key (f (fst x)) = snd x \<and> nice (f (fst x)) = nice (tasks s (fst x))"
  shows "sched_inv (s\<lparr>tasks := f\<rparr>)"
proof -
  have "filter (\<lambda>x. nice (f (fst x)) \<noteq> 0) (entries (rqueue s)) =
      filter (\<lambda>x. nice (tasks s (fst x)) \<noteq> 0) (entries (rqueue s))"
    using rq by (intro filter_cong) auto
  then show ?thesis using inv wq rq unfolding sched_inv_def by simp
qed

lemma upd_last:
  "\<exists>l. (if P then r\<lparr>last_timer := Some t\<rparr> else r) = r\<lparr>last_timer := l\<rparr> \<and> (l = last_timer r \<or> l = Some t)"
proof (cases P)
  case False
  then show ?thesis by (intro exI [of _ "last_timer r"]) simp
qed auto

lemma raw_task_queue_cases:
  assumes new: "\<not> eb_linked t (timers s)"
  defines "s2 \<equiv> upd_task t (\<lambda>tk. tk\<lparr>wq_key := expire (tasks s t)\<rparr>) s"
  shows "(\<exists>l. raw_task_queue t s =
              (set_timers (fst (eb32_insert (timers s2) t (expire (tasks s t)))) s2)\<lparr>last_timer := l\<rparr> \<and>
            (l = last_timer s2 \<or> l = Some t)) \<or>
         (\<exists>e l. raw_task_queue t s =
              (set_timers (eb_queue_dup (timers s2) e t (expire (tasks s t))) s2)\<lparr>last_timer := l\<rparr> \<and>
            (l = last_timer s2 \<or> l = Some t) \<and> last_timer s2 = Some e \<and> wq_bits s2 e < 0 \<and>
            wq_key (tasks s2 e) = expire (tasks s t) \<and> eb_node_bit e (timers s2) \<noteq> None)"
proof -
  let ?k = "expire (tasks s t)"
  define a where "a = set_timers (fst (eb32_insert (timers s2) t ?k)) s2"
  define c where "c = (eb_node_bit t (timers a) \<noteq> None \<and>
      (case last_timer a of None \<Rightarrow> True | Some e \<Rightarrow> wq_bits a t < wq_bits a e))"
  define d where "d e = set_timers (eb_queue_dup (timers s2) e t ?k) s2" for e
  have eq: "raw_task_queue t s =
    (case last_timer s2 of None \<Rightarrow> if c then a\<lparr>last_timer := Some t\<rparr> else a
     | Some e \<Rightarrow>
         if wq_bits s2 e < 0 \<and> wq_key (tasks s2 e) = ?k \<and> eb_node_bit e (timers s2) \<noteq> None
         then if wq_bits (d e) t < wq_bits (d e) e then (d e)\<lparr>last_timer := Some t\<rparr> else d e
         else if c then a\<lparr>last_timer := Some t\<rparr> else a)"
    using new unfolding raw_task_queue_def Let_def task_in_wq_def a_def c_def d_def s2_def by simp
  have la: "last_timer a = last_timer s2" and ld: "last_timer (d e) = last_timer s2" for e
    by (simp_all add: a_def d_def)
  note la2 = upd_last [where r = a and t = t, unfolded la]
  note ld2 = upd_last [where r = "d e" and t = t for e, unfolded ld]
  show ?thesis
  proof (cases "last_timer s2")
    case None
    then show ?thesis using la2 [of c] unfolding eq a_def [symmetric] by simp
  next
    case (Some e)
    then show ?thesis using la2 [of c] ld2 [of "wq_bits (d e) t < wq_bits (d e) e" e]
      unfolding eq a_def [symmetric] d_def [symmetric] by auto
  qed
qed

lemma sched_inv_link:
  assumes inv: "sched_inv s" and q: "eb_inv q" and add: "adds (t, k) (entries (timers s)) (entries q)"
    and key: "wq_key (tasks s t) = k" and lt: "l = last_timer s \<or> l = Some t"
  shows "sched_inv ((set_timers q s)\<lparr>last_timer := l\<rparr>)"
proof -
  have set: "set (entries q) = insert (t, k) (set (entries (timers s)))" using add by (rule adds_set)
  then have "l = Some e \<Longrightarrow> eb_linked e q" for e
    using lt sched_invD(7) [OF inv, of e] by (auto simp: eb_linked_def)
  then show ?thesis
    using inv q key set unfolding sched_inv_def by (auto simp: set_timers_def)
qed

lemma raw_task_queue_unlinked:
  assumes inv: "sched_inv s" and new: "\<not> eb_linked t (timers s)"
  shows "sched_inv (raw_task_queue t s) \<and> queued t s (raw_task_queue t s)"
proof -
  define k where "k = expire (tasks s t)"
  define s2 where "s2 = upd_task t (\<lambda>tk. tk\<lparr>wq_key := k\<rparr>) s"
  have inv2: "sched_inv s2"
    unfolding s2_def
    using sched_invD [OF inv] new by (intro sched_inv_tasks [OF inv]) (auto simp: eb_linked_def)
  have out: "t \<notin> fst ` set (entries (timers s2))" using new by (simp add: s2_def eb_linked_def)
  have key: "wq_key (tasks s2 t) = k" by (simp add: s2_def)
  note q = sched_invD(1) [OF inv2]
  let ?plain = "fst (eb32_insert (timers s2) t k)"
  consider (plain) l where "raw_task_queue t s = (set_timers ?plain s2)\<lparr>last_timer := l\<rparr>"
      "l = last_timer s2 \<or> l = Some t"
    | (dup) e l where "raw_task_queue t s = (set_timers (eb_queue_dup (timers s2) e t k) s2)\<lparr>last_timer := l\<rparr>"
      "l = last_timer s2 \<or> l = Some t" "last_timer s2 = Some e" "wq_bits s2 e < 0"
      "wq_key (tasks s2 e) = k" "eb_node_bit e (timers s2) \<noteq> None"
    using raw_task_queue_cases [OF new, folded k_def, folded s2_def] by blast
  then obtain q' l where r: "raw_task_queue t s = (set_timers q' s2)\<lparr>last_timer := l\<rparr>"
      "l = last_timer s2 \<or> l = Some t" "eb_inv q'" "adds (t, k) (entries (timers s2)) (entries q')"
  proof cases
    case plain
    then show ?thesis using that ebq.insert_inv [OF q out] ebq.insert_adds [OF q out] by blast
  next
    case dup
    obtain b where b: "eb_node_bit e (timers s2) = Some b" "b < 0"
      using dup sched_invD(8) [OF inv2] by auto
    then have ok: "eb_dup_ok (timers s2) e" by (simp add: eb_dup_ok_def)
    have "eb_linked e (timers s2)" using dup(3) sched_invD(7) [OF inv2] by blast
    then have "(e, k) \<in> set (entries (timers s2))"
      using sched_invD(3) [OF inv2] dup(5) by (fastforce simp: eb_linked_def)
    then show ?thesis
      using that dup ebq.dup_inv [OF q out ok] ebq.dup_entries [OF q out ok] by blast
  qed
  have "without t (entries (timers s)) = entries (timers s2)"
    using out by (simp add: without_absent s2_def)
  then have "queued t s (raw_task_queue t s)"
    using r unfolding queued_def by (simp add: s2_def k_def)
  moreover have "sched_inv (raw_task_queue t s)"
    unfolding r(1) by (rule sched_inv_link [OF inv2 r(3,4) key r(2)])
  ultimately show ?thesis by blast
qed

lemma raw_task_queue_effect:
  assumes inv: "sched_inv s"
  shows "sched_inv (raw_task_queue t s) \<and> queued t s (raw_task_queue t s)"
proof (cases "eb_linked t (timers s)")
  case True
  let ?u = "raw_task_unlink_wq t s"
  note q = sched_invD(1) [OF inv]
  have "\<not> eb_linked t (timers ?u)" by (simp add: linked_delete [OF q])
  moreover have "raw_task_queue t s = raw_task_queue t ?u"
    using True calculation unfolding raw_task_queue_def task_in_wq_def by simp
  moreover have "without t (without t xs) = without t xs" for xs :: "(nat \<times> u32) list" by simp
  ultimately show ?thesis
    using raw_task_queue_unlinked [OF unlink_wq_inv [OF inv, of t], of t] ebq.delete_entries [OF q, of t]
    by (simp add: queued_def)
qed (rule raw_task_queue_unlinked [OF inv])

lemma queuedD:
  assumes "queued t s s'"
  shows "adds (t, expire (tasks s t)) (without t (entries (timers s))) (entries (timers s'))"
    "tasks s' = (tasks s)(t := (tasks s t)\<lparr>wq_key := expire (tasks s t)\<rparr>)"
    "rqueue s' = rqueue s" "run_queue s' = run_queue s" "niced_tasks s' = niced_tasks s"
    "rqueue_ticks s' = rqueue_ticks s" "nb_tasks s' = nb_tasks s"
  using assms by (simp_all add: queued_def)

text \<open>The run queue.\<close>

lemma wakeup_inv:
  assumes inv: "sched_inv s" and out: "\<not> task_in_rq t s"
  shows "sched_inv (raw_task_wakeup t s)"
proof -
  define k where "k = rqueue_ticks s + 1 + rq_offset (run_queue s + 1) (nice (tasks s t))"
  define s' where "s' = raw_task_wakeup t s"
  have t: "t \<notin> fst ` set (entries (rqueue s))" using out by (simp add: task_in_rq_def eb_linked_def)
  note q = sched_invD(2) [OF inv]
  have r: "rqueue s' = fst (eb32_insert (rqueue s) t k)" "timers s' = timers s"
      "last_timer s' = last_timer s" "wq_bits s' = wq_bits s" "run_queue s' = run_queue s + 1"
      "tasks s' = (tasks s)(t := (tasks s t)\<lparr>rq_key := k, state := state (tasks s t) AND NOT TASK_WOKEN_ANY\<rparr>)"
      "niced_tasks s' = niced_tasks s + of_bool (nice (tasks s t) \<noteq> 0)"
    by (simp_all add: s'_def raw_task_wakeup_def Let_def k_def)
  have add: "adds (t, k) (entries (rqueue s)) (entries (rqueue s'))"
    using ebq.insert_adds [OF q t] by (simp add: r(1))
  have nice: "nice (tasks s' e) = nice (tasks s e)" for e by (simp add: r(6))
  have "mset (filter (\<lambda>x. nice (tasks s (fst x)) \<noteq> 0) (entries (rqueue s'))) =
      (if nice (tasks s t) \<noteq> 0 then {#(t, k)#} else {#}) +
      mset (filter (\<lambda>x. nice (tasks s (fst x)) \<noteq> 0) (entries (rqueue s)))"
    using adds_mset [OF add] by simp
  then have "length (filter (\<lambda>x. nice (tasks s (fst x)) \<noteq> 0) (entries (rqueue s'))) =
      of_bool (nice (tasks s t) \<noteq> 0) + length (filter (\<lambda>x. nice (tasks s (fst x)) \<noteq> 0) (entries (rqueue s)))"
    by (drule_tac f = size in arg_cong) (simp only: size_mset size_union, simp split: if_splits)
  moreover have "length (entries (rqueue s')) = Suc (length (entries (rqueue s)))"
    using adds_mset [OF add] by (metis size_add_mset size_mset)
  moreover have "rq_key (tasks s' (fst x)) = snd x" if "x \<in> set (entries (rqueue s'))" for x
    using that t sched_invD(4) [OF inv, of x] by (auto simp: adds_set [OF add] r(6))
  moreover have "wq_key (tasks s' e) = wq_key (tasks s e)" for e by (simp add: r(6))
  moreover have "eb_inv (rqueue s')" using ebq.insert_inv [OF q t] by (simp add: r(1))
  ultimately show ?thesis
    using inv unfolding sched_inv_def s'_def [symmetric] by (auto simp: r(2-5,7) nice)
qed

lemma raw_wakeup_frame [simp]:
  "timers (raw_task_wakeup t s) = timers s" "last_timer (raw_task_wakeup t s) = last_timer s"
  "wq_bits (raw_task_wakeup t s) = wq_bits s" "nb_tasks (raw_task_wakeup t s) = nb_tasks s"
  by (simp_all add: raw_task_wakeup_def Let_def)

lemma upd_state_inv: "sched_inv s \<Longrightarrow> sched_inv (s\<lparr>tasks := (tasks s)(t := (tasks s t)\<lparr>state := v\<rparr>)\<rparr>)"
  using sched_invD(3,4) by (intro sched_inv_tasks) auto

lemma task_wakeup_inv: "sched_inv s \<Longrightarrow> sched_inv (task_wakeup t f s)"
  by (simp add: task_wakeup_def Let_def wakeup_inv upd_state_inv)

lemma unlink_rq_inv:
  assumes inv: "sched_inv s" and "in": "task_in_rq t s"
  shows "sched_inv (raw_task_unlink_rq t s)"
proof -
  note q = sched_invD(2) [OF inv]
  obtain k where k: "(t, k) \<in> set (entries (rqueue s))" using "in" by (auto simp: task_in_rq_def eb_linked_def)
  then obtain xs ys where es: "entries (rqueue s) = xs @ (t, k) # ys" by (meson split_list)
  have "t \<notin> fst ` set xs" "t \<notin> fst ` set ys" using ebq.inv_distinct [OF q] es by auto
  then have del: "entries (eb_delete t (rqueue s)) = xs @ ys"
    by (simp add: ebq.delete_entries [OF q] es without_absent)
  show ?thesis
    using inv es del ebq.delete_inv [OF q, of t] unfolding sched_inv_def
    by (cases "nice (tasks s t) = 0") (auto simp: raw_task_unlink_rq_def)
qed

lemma unlink_rq_frame [simp]:
  "tasks (raw_task_unlink_rq t s) = tasks s" "timers (raw_task_unlink_rq t s) = timers s"
  "rqueue (raw_task_unlink_rq t s) = eb_delete t (rqueue s)" "nb_tasks (raw_task_unlink_rq t s) = nb_tasks s"
  "rqueue_ticks (raw_task_unlink_rq t s) = rqueue_ticks s"
  by (simp_all add: raw_task_unlink_rq_def)

lemma task_queue_inv: "sched_inv s \<Longrightarrow> sched_inv (task_queue t s)"
  using raw_task_queue_effect by (simp add: task_queue_def)

lemma upd_expire_inv: "sched_inv s \<Longrightarrow> sched_inv (s\<lparr>tasks := (tasks s)(t := (tasks s t)\<lparr>expire := v\<rparr>)\<rparr>)"
  using sched_invD(3,4) by (intro sched_inv_tasks) auto

lemma task_schedule_inv: "sched_inv s \<Longrightarrow> sched_inv (task_schedule t w s)"
  using raw_task_queue_effect upd_expire_inv by (simp add: task_schedule_def Let_def)

lemma task_delete_inv: "sched_inv s \<Longrightarrow> sched_inv (task_delete t s)"
  by (simp add: task_delete_def task_unlink_rq_def task_unlink_wq_def unlink_wq_inv unlink_rq_inv)

text \<open>The state at start-up: globals are zero, no task is queued.\<close>

definition sched0 :: sched where
  "sched0 =
     \<lparr>tasks = (\<lambda>_. \<lparr>rq_key = 0, state = 0, nice = 0, calls = 0, wq_key = 0, expire = 0\<rparr>),
      timers = EB_ROOT, rqueue = EB_ROOT, last_timer = None, wq_bits = (\<lambda>_. 0), nb_tasks = 0,
      run_queue = 0, niced_tasks = 0, rqueue_ticks = 0, run_queue_cur = 0, nb_tasks_cur = 0\<rparr>"

lemma sched0_inv: "sched_inv sched0"
proof -
  have "eb_node_bit e (EB_ROOT :: nat eb_root) = None" for e by (simp add: eb_node_bit_def EB_ROOT_def)
  then show ?thesis by (simp add: sched_inv_def sched0_def eb_inv_empty)
qed

end
