(* ===== verification/Task_Wake.thy ===== *)
theory Task_Wake
  imports Task
begin

text \<open>
  The two loops of the scheduler, \<open>wake_expired_tasks\<close> and \<open>process_runnable_tasks\<close> of
  \<open>src/src/task.c\<close>: from any well-formed state the first ends, wakes no task early and loses no
  timer; while the clock does not wrap within the window it wakes every task that has expired and returns
  the date of the next timer. At the wrap it may stop too early, which is shown on
  an example. The second runs a bounded number of tasks and keeps the invariant.
\<close>

section \<open>Waking expired tasks\<close>

lemma sint_uminus_neg:
  assumes "0 < sint (w :: u32)"
  shows "sint (- w) < 0"
proof -
  have "sint w < 2 ^ 31" using sint_lt [of w] by simp
  then have "sint (of_int (- sint w) :: u32) = - sint w"
    using assms by (intro sint_of_int_in_range) simp_all
  moreover have "(of_int (- sint w) :: u32) = - w" by simp
  ultimately show ?thesis using assms by simp
qed

lemma not_expired_lt:
  assumes "tick_isset e" and "\<not> tick_is_expired e now"
  shows "tick_is_lt now e"
proof -
  have "0 < sint (e - now)" using assms by (simp add: tick_is_expired_def split: if_splits)
  then show ?thesis using sint_uminus_neg [of "e - now"] by (simp add: tick_is_lt_def)
qed

text \<open>What happens to each task between two states of the loop: no date changes, a
  task leaves the wait queue only if it has expired or has no date, one that has expired is then in the
  run queue and knows why, all the others keep their state; timers that are not due stay.\<close>

definition wake_task :: "u32 \<Rightarrow> sched \<Rightarrow> sched \<Rightarrow> nat \<Rightarrow> bool" where
  "wake_task now_ms s s' e \<longleftrightarrow>
     expire (tasks s' e) = expire (tasks s e) \<and> nice (tasks s' e) = nice (tasks s e) \<and>
     calls (tasks s' e) = calls (tasks s e) \<and>
     (task_in_wq e s' \<longrightarrow> task_in_wq e s) \<and>
     (task_in_wq e s \<and> \<not> task_in_wq e s' \<longrightarrow>
        \<not> tick_isset (expire (tasks s e)) \<or> tick_is_expired (expire (tasks s e)) now_ms) \<and>
     (if task_in_wq e s \<and> \<not> task_in_wq e s' \<and> tick_is_expired (expire (tasks s e)) now_ms
      then task_in_rq e s' \<and> state (tasks s' e) AND TASK_WOKEN_TIMER \<noteq> 0
      else state (tasks s' e) = state (tasks s e) \<and> (task_in_rq e s' \<longleftrightarrow> task_in_rq e s))"

definition wake_safe :: "u32 \<Rightarrow> sched \<Rightarrow> sched \<Rightarrow> bool" where
  "wake_safe now_ms s s' \<longleftrightarrow>
     (\<forall>e. wake_task now_ms s s' e) \<and>
     (\<forall>x \<in> set (entries (timers s')). x \<in> set (entries (timers s)) \<or>
          snd x = expire (tasks s (fst x)) \<and> \<not> tick_is_expired (snd x) now_ms \<and> tick_is_lt now_ms (snd x)) \<and>
     (\<forall>x \<in> set (entries (timers s)). tick_is_lt now_ms (snd x) \<longrightarrow> x \<in> set (entries (timers s')))"

lemma wake_safe_refl: "wake_safe now s s"
  by (auto simp: wake_safe_def wake_task_def)

lemma wake_task_trans: "wake_task now s s1 e \<Longrightarrow> wake_task now s1 s2 e \<Longrightarrow> wake_task now s s2 e"
  by (cases "task_in_wq e s"; cases "task_in_wq e s1"; cases "task_in_wq e s2")
     (simp_all add: wake_task_def split: if_splits)

lemma wake_safe_trans:
  assumes a: "wake_safe now s s1" and b: "wake_safe now s1 s2"
  shows "wake_safe now s s2"
proof -
  have f: "expire (tasks s1 e) = expire (tasks s e)" for e using a by (simp add: wake_safe_def wake_task_def)
  have "\<forall>e. wake_task now s s2 e" using a b wake_task_trans unfolding wake_safe_def by blast
  moreover have "x \<in> set (entries (timers s)) \<or> snd x = expire (tasks s (fst x)) \<and>
      \<not> tick_is_expired (snd x) now \<and> tick_is_lt now (snd x)"
    if "x \<in> set (entries (timers s2))" for x
    using a b that f [of "fst x"] unfolding wake_safe_def by metis
  moreover have "x \<in> set (entries (timers s2))" if "x \<in> set (entries (timers s))" "tick_is_lt now (snd x)" for x
    using a b that unfolding wake_safe_def by blast
  ultimately show ?thesis unfolding wake_safe_def by blast
qed

text \<open>The three ways an expired timer is handled.\<close>

lemma linked_wq: "task_in_wq e s \<longleftrightarrow> e \<in> fst ` set (entries (timers s))"
  by (simp add: task_in_wq_def eb_linked_def)

lemma unlink_wq_entries:
  "sched_inv s \<Longrightarrow> entries (timers (raw_task_unlink_wq t s)) = without t (entries (timers s))"
  using sched_invD(1) by (simp add: ebq.delete_entries)

lemma unlink_wq_in: "sched_inv s \<Longrightarrow> task_in_wq e (raw_task_unlink_wq t s) \<longleftrightarrow> task_in_wq e s \<and> e \<noteq> t"
  using sched_invD(1) by (simp add: task_in_wq_def linked_delete)

lemma other_timer:
  assumes "sched_inv s" and "x \<in> set (entries (timers s))" and "y \<in> set (entries (timers s))"
    and "\<not> tick_is_lt now (snd x)" and "tick_is_lt now (snd y)"
  shows "fst y \<noteq> fst x"
  using assms ebq.inv_distinct [OF sched_invD(1) [OF assms(1)]] eq_key_imp_eq_value
  by (metis prod.collapse)

text \<open>Any step that takes the timer \<open>x\<close> out of the wait queue, and puts it back only at its date.\<close>

lemma wake_safeI:
  assumes inv: "sched_inv s" and x: "x \<in> set (entries (timers s))" and late: "\<not> tick_is_lt now (snd x)"
    and other: "\<And>e. e \<noteq> fst x \<Longrightarrow> tasks s' e = tasks s e \<and> (task_in_rq e s' \<longleftrightarrow> task_in_rq e s)"
    and self: "wake_task now s s' (fst x)"
    and es: "set (entries (timers s')) = set (without (fst x) (entries (timers s))) \<union> A"
    and A: "A \<subseteq> {(fst x, expire (tasks s (fst x)))} \<inter> {y. \<not> tick_is_expired (snd y) now \<and> tick_is_lt now (snd y)}"
  shows "wake_safe now s s'"
proof -
  have "task_in_wq e s' \<longleftrightarrow> task_in_wq e s" if "e \<noteq> fst x" for e
    using that A by (force simp: linked_wq es)
  then have "wake_task now s s' e" for e
    using self other [of e] by (cases "e = fst x") (auto simp: wake_task_def)
  moreover have "y \<in> set (entries (timers s'))" if "y \<in> set (entries (timers s))" "tick_is_lt now (snd y)" for y
    using other_timer [OF inv x that(1) late that(2)] that by (simp add: es)
  moreover have "y \<in> set (entries (timers s)) \<or> snd y = expire (tasks s (fst y)) \<and>
      \<not> tick_is_expired (snd y) now \<and> tick_is_lt now (snd y)"
    if "y \<in> set (entries (timers s'))" for y
    using that A by (auto simp: es)
  ultimately show ?thesis unfolding wake_safe_def by blast
qed

lemma wakeup_state: "\<not> task_in_rq t s \<Longrightarrow> sched_inv s \<Longrightarrow> task_in_rq t (raw_task_wakeup t s)"
  unfolding task_in_rq_def eb_linked_def
  using ebq.insert_entries [OF sched_invD(2)] by (simp add: raw_task_wakeup_def Let_def)

lemma task_wakeup_effect:
  assumes inv: "sched_inv s"
  shows "task_in_rq t (task_wakeup t f s)"
    "state (tasks (task_wakeup t f s) t) AND f = f"
    "timers (task_wakeup t f s) = timers s"
    "e \<noteq> t \<Longrightarrow> tasks (task_wakeup t f s) e = tasks s e"
    "e \<noteq> t \<Longrightarrow> task_in_rq e (task_wakeup t f s) \<longleftrightarrow> task_in_rq e s"
    "expire (tasks (task_wakeup t f s) t) = expire (tasks s t)"
    "nice (tasks (task_wakeup t f s) t) = nice (tasks s t)"
    "calls (tasks (task_wakeup t f s) t) = calls (tasks s t)"
proof -
  have rq: "task_in_rq e (upd_task t g s') \<longleftrightarrow> task_in_rq e s'" for e g s' by (simp add: task_in_rq_def)
  show "task_in_rq t (task_wakeup t f s)"
    using wakeup_state [OF _ inv] by (simp add: task_wakeup_def Let_def task_in_rq_def)
  have "(w OR f) AND f = f" for w :: u16 by (auto simp: bit_eq_iff bit_simps)
  then show "state (tasks (task_wakeup t f s) t) AND f = f" by (simp add: task_wakeup_def Let_def)
  show "timers (task_wakeup t f s) = timers s" by (simp add: task_wakeup_def Let_def)
  show "e \<noteq> t \<Longrightarrow> tasks (task_wakeup t f s) e = tasks s e"
    by (simp add: task_wakeup_def raw_task_wakeup_def Let_def)
  show "e \<noteq> t \<Longrightarrow> task_in_rq e (task_wakeup t f s) \<longleftrightarrow> task_in_rq e s"
    using ebq.insert_entries [OF sched_invD(2) [OF inv]]
    by (auto simp: task_wakeup_def raw_task_wakeup_def Let_def task_in_rq_def eb_linked_def)
  show "expire (tasks (task_wakeup t f s) t) = expire (tasks s t)"
    "nice (tasks (task_wakeup t f s) t) = nice (tasks s t)"
    "calls (tasks (task_wakeup t f s) t) = calls (tasks s t)"
    by (simp_all add: task_wakeup_def raw_task_wakeup_def Let_def)
qed

lemma wake_one_cases:
  assumes inv: "sched_inv s" and x: "x \<in> set (entries (timers s))" and late: "\<not> tick_is_lt now (snd x)"
    and one: "wake_one now x s = (eb, s')"
  defines "rest \<equiv> without (fst x) (entries (timers s))" and "nxt \<equiv> next_in (fst x) (entries (timers s))"
    and "k \<equiv> expire (tasks s (fst x))"
  shows "sched_inv s' \<and> wake_safe now s s' \<and>
         (entries (timers s') = rest \<and> eb = nxt \<or>
          tick_isset k \<and> \<not> tick_is_expired k now \<and> tick_is_lt now k \<and>
          adds (fst x, k) rest (entries (timers s')) \<and>
          eb = (case nxt of None \<Rightarrow> Some (fst x, k) | Some y \<Rightarrow> if k < snd y then Some (fst x, k) else Some y))"
proof -
  let ?u = "raw_task_unlink_wq (fst x) s"
  note u = unlink_wq_inv [OF inv, of "fst x"]
  have t: "task_in_wq (fst x) s" using x by (simp add: linked_wq)
  have eu: "entries (timers ?u) = rest" by (simp only: unlink_wq_entries [OF inv] rest_def)
  have nxt: "eb_next (fst x) (timers s) = nxt"
    using ebq.succ_entry [OF sched_invD(1) [OF inv]] x by (simp add: nxt_def)
  have out: "fst x \<notin> fst ` set rest" by (auto simp: rest_def)
  consider (none) "\<not> tick_isset k" | (late) "tick_is_expired k now"
    | (later) "tick_isset k" "\<not> tick_is_expired k now" by blast
  then show ?thesis
  proof cases
    case none
    then have ne: "\<not> tick_is_expired k now" by (simp add: tick_is_expired_def)
    with none have r: "eb = nxt" "s' = ?u" using one nxt by (simp_all add: wake_one_def Let_def k_def)
    have "wake_task now s s' (fst x)"
      using none ne t unlink_wq_in [OF inv] by (simp add: wake_task_def r k_def task_in_rq_def)
    then have "wake_safe now s s'"
      using eu by (intro wake_safeI [OF inv x late, where A = "{}"]) (simp_all add: r rest_def task_in_rq_def)
    then show ?thesis using r u eu by simp
  next
    case late
    then have r: "eb = nxt" "s' = task_wakeup (fst x) TASK_WOKEN_TIMER ?u"
      using one nxt by (simp_all add: wake_one_def Let_def k_def)
    note w = task_wakeup_effect [OF u, where t = "fst x" and f = TASK_WOKEN_TIMER, folded r(2)]
    have es: "entries (timers s') = rest" using w(3) eu by simp
    then have "\<not> task_in_wq (fst x) s'" using out by (simp add: linked_wq)
    moreover have "state (tasks s' (fst x)) AND TASK_WOKEN_TIMER \<noteq> 0" using w(2) by (simp add: TASK_WOKEN_TIMER_def)
    ultimately have "wake_task now s s' (fst x)" using w t late by (simp add: wake_task_def k_def)
    then have "wake_safe now s s'"
      using es w by (intro wake_safeI [OF inv x assms(3), where A = "{}"]) (simp_all add: rest_def task_in_rq_def)
    then show ?thesis using r es task_wakeup_inv [OF u] by simp
  next
    case later
    have q: "sched_inv (raw_task_queue (fst x) ?u)" "queued (fst x) ?u (raw_task_queue (fst x) ?u)"
      using raw_task_queue_effect [OF u] by blast+
    note d = queuedD [OF q(2), unfolded unlink_wq_frame(1), folded k_def]
    have r: "s' = raw_task_queue (fst x) ?u"
        "eb = (case nxt of None \<Rightarrow> Some (fst x, k) | Some y \<Rightarrow> if k < snd y then Some (fst x, k) else Some y)"
      using one nxt later d(2) by (auto simp: wake_one_def Let_def k_def split: option.splits)
    have add: "adds (fst x, k) rest (entries (timers s'))"
      using d(1) out by (simp only: r(1) eu) (simp add: without_absent)
    have lt: "tick_is_lt now k" using later by (rule not_expired_lt)
    have "wake_task now s s' (fst x)"
      using later t d adds_set [OF add] by (simp add: wake_task_def linked_wq r(1) task_in_rq_def k_def)
    then have "wake_safe now s s'"
      using adds_set [OF add] lt d
      by (intro wake_safeI [OF inv x late, where A = "{(fst x, k)}"]) (use later in \<open>auto simp: rest_def task_in_rq_def r(1) k_def\<close>)
    then show ?thesis using r add lt q(1) later by simp
  qed
qed

lemma next_in_without:
  "distinct (map fst xs) \<Longrightarrow> next_in e xs = Some y \<Longrightarrow> y \<in> set (without e xs)"
proof (induction xs)
  case (Cons x xs)
  show ?case
  proof (cases "fst x = e")
    case True
    then obtain ys where "xs = y # ys" using Cons.prems(2) by (cases xs) auto
    with True Cons.prems(1) show ?thesis by auto
  qed (use Cons in auto)
qed simp

text \<open>The number of timers that look expired goes down at each round.\<close>

definition due :: "u32 \<Rightarrow> sched \<Rightarrow> nat" where
  "due now_ms s = length (filter (\<lambda>x. \<not> tick_is_lt now_ms (snd x)) (entries (timers s)))"

lemma adds_filter_out: "adds x xs ys \<Longrightarrow> \<not> P x \<Longrightarrow> filter P ys = filter P xs"
  by (auto simp: adds_def)

lemma due_without:
  assumes "x \<in> set es" and "P x"
  shows "length (filter P (without (fst x) es)) < length (filter P es)"
proof -
  have "filter P (without (fst x) es) = without (fst x) (filter P es)"
    by (simp add: conj_commute)
  moreover have "length (without (fst x) (filter P es)) < length (filter P es)"
    using assms by (intro length_filter_less [of x]) simp_all
  ultimately show ?thesis by simp
qed

lemma wake_one_progress:
  assumes inv: "sched_inv s" and x: "x \<in> set (entries (timers s))" and late: "\<not> tick_is_lt now (snd x)"
    and one: "wake_one now x s = (eb, s')"
  shows "due now s' < due now s \<and> (\<forall>y. eb = Some y \<longrightarrow> y \<in> set (entries (timers s')))"
proof -
  let ?k = "expire (tasks s (fst x))" and ?rest = "without (fst x) (entries (timers s))"
  note less = due_without [OF x, of "\<lambda>x. \<not> tick_is_lt now (snd x)", OF late]
  note mem = next_in_without [OF ebq.inv_distinct [OF sched_invD(1) [OF inv]], of "fst x"]
  consider (out) "entries (timers s') = ?rest" "eb = next_in (fst x) (entries (timers s))"
    | (again) "tick_is_lt now ?k" "adds (fst x, ?k) ?rest (entries (timers s'))"
      "eb = (case next_in (fst x) (entries (timers s)) of None \<Rightarrow> Some (fst x, ?k)
             | Some y \<Rightarrow> if ?k < snd y then Some (fst x, ?k) else Some y)"
    using wake_one_cases [OF inv x late one] by blast
  then show ?thesis
  proof cases
    case out
    then show ?thesis using less mem by (simp add: due_def)
  next
    case again
    have "due now s' < due now s"
      using less adds_filter_out [OF again(2), of "\<lambda>x. \<not> tick_is_lt now (snd x)"] again(1) by (simp add: due_def)
    moreover have "y \<in> set (entries (timers s'))" if "eb = Some y" for y
      using that again(3) mem adds_set [OF again(2)] by (auto split: option.splits if_splits)
    ultimately show ?thesis by blast
  qed
qed

text \<open>The loop ends and is safe from any state, at any date.\<close>

lemma wake_loop_safe:
  assumes "sched_inv s" and "\<And>x. eb = Some x \<Longrightarrow> x \<in> set (entries (timers s))"
  shows "\<exists>nx s'. wake_loop now eb s = Some (nx, s') \<and> sched_inv s' \<and> wake_safe now s s'"
  using assms
proof (induction "due now s" arbitrary: eb s rule: less_induct)
  case less
  define cur where "cur = (case eb of None \<Rightarrow> eb_first (timers s) | Some x \<Rightarrow> Some x)"
  have mem: "x \<in> set (entries (timers s))" if "cur = Some x" for x
    using that less.prems ebq.first_entry [OF sched_invD(1) [OF less.prems(1)]]
    by (auto simp: cur_def split: option.splits list.splits)
  have unf: "wake_loop now eb s = (case cur of None \<Rightarrow> Some (TICK_ETERNITY, s)
      | Some x \<Rightarrow> if tick_is_lt now (snd x) then Some (snd x, s)
          else (case wake_one now x s of (eb', s') \<Rightarrow> wake_loop now eb' s'))"
    unfolding cur_def by (rule wake_loop.simps)
  show ?case
  proof (cases "\<exists>x. cur = Some x \<and> \<not> tick_is_lt now (snd x)")
    case False
    then show ?thesis using less.prems wake_safe_refl by (auto simp: unf split: option.splits)
  next
    case True
    then obtain x where x: "cur = Some x" and late: "\<not> tick_is_lt now (snd x)" by blast
    obtain eb1 s1 where one: "wake_one now x s = (eb1, s1)" by fastforce
    note st = wake_one_cases [OF less.prems(1) mem [OF x] late one]
      wake_one_progress [OF less.prems(1) mem [OF x] late one]
    have "\<exists>nx s'. wake_loop now eb1 s1 = Some (nx, s') \<and> sched_inv s' \<and> wake_safe now s1 s'"
      using st by (intro less.hyps) blast+
    moreover have "wake_loop now eb s = wake_loop now eb1 s1" using x late one by (simp add: unf)
    ultimately show ?thesis using st wake_safe_trans by metis
  qed
qed

text \<open>Dates that do not wrap around within the window: then the tick order is the unsigned order.\<close>

definition in_window :: "u32 \<Rightarrow> sched \<Rightarrow> bool" where
  "in_window now_ms s \<longleftrightarrow>
     TIMER_LOOK_BACK \<le> now_ms \<and>
     list_all (\<lambda>x. now_ms - TIMER_LOOK_BACK < snd x \<and>
                   (let e = expire (tasks s (fst x))
                    in tick_isset e \<and> \<not> tick_is_expired e now_ms \<longrightarrow> now_ms < e))
       (entries (timers s))"

lemma look_back_unat: "unat TIMER_LOOK_BACK = 2 ^ 31"
  by (simp add: TIMER_LOOK_BACK_def)

lemma window_lt:
  assumes "TIMER_LOOK_BACK \<le> now" and "now - TIMER_LOOK_BACK < k"
  shows "tick_is_lt now k \<longleftrightarrow> now < k"
proof -
  have small: "unat w < 2 ^ 31 \<Longrightarrow> sint w = int (unat w)" for w :: u32
    using sint_of_nat_small [of "unat w", where 'a = 32] by simp
  have diff: "a \<le> b \<Longrightarrow> unat (b - a) = unat b - unat a" for a b :: u32
    by (simp add: unat_sub word_le_nat_alt)
  have lo: "unat now - 2 ^ 31 < unat k" using assms diff [of TIMER_LOOK_BACK now] look_back_unat
    by (simp add: word_less_nat_alt)
  have hi: "2 ^ 31 \<le> unat now" using assms(1) look_back_unat by (simp add: word_le_nat_alt)
  show ?thesis
  proof (cases "now < k")
    case True
    have "unat k < 2 ^ 32" using unsigned_less [of k] by simp
    then have "unat (k - now) < 2 ^ 31" using diff [of now k] True hi by (simp add: less_imp_le)
    moreover have "0 < unat (k - now)" using diff [of now k] True by (simp add: less_imp_le word_less_nat_alt)
    ultimately have "0 < sint (k - now)" by (simp only: small of_nat_0_less_iff)
    then have "sint (now - k) < 0" using sint_uminus_neg [of "k - now"] by simp
    with True show ?thesis by (simp add: tick_is_lt_def)
  next
    case False
    then have "unat (now - k) < 2 ^ 31" using diff [of k now] lo hi by (simp add: word_le_nat_alt not_less)
    then have "sint (now - k) \<ge> 0" using small by simp
    with False show ?thesis by (simp add: tick_is_lt_def)
  qed
qed

lemma in_windowD:
  assumes "in_window now s"
  shows "TIMER_LOOK_BACK \<le> now" "x \<in> set (entries (timers s)) \<Longrightarrow> now - TIMER_LOOK_BACK < snd x"
    "x \<in> set (entries (timers s)) \<Longrightarrow> tick_isset (expire (tasks s (fst x))) \<Longrightarrow>
     \<not> tick_is_expired (expire (tasks s (fst x))) now \<Longrightarrow> now < expire (tasks s (fst x))"
  using assms by (simp_all add: in_window_def list_all_iff Let_def)

lemma in_window_safe:
  assumes w: "in_window now s" and safe: "wake_safe now s s'"
    and key: "\<And>x. x \<in> set (entries (timers s')) \<Longrightarrow> now - TIMER_LOOK_BACK < snd x"
  shows "in_window now s'"
proof -
  have "now < expire (tasks s' (fst x))"
    if x: "x \<in> set (entries (timers s'))" and e: "tick_isset (expire (tasks s' (fst x)))"
      "\<not> tick_is_expired (expire (tasks s' (fst x))) now" for x
  proof -
    have f: "expire (tasks s' (fst x)) = expire (tasks s (fst x))"
      using safe by (simp add: wake_safe_def wake_task_def)
    have "task_in_wq (fst x) s'" using x by (simp add: linked_wq)
    then have "task_in_wq (fst x) s" using safe by (simp add: wake_safe_def wake_task_def)
    then obtain y where "y \<in> set (entries (timers s))" "fst y = fst x" by (auto simp: linked_wq)
    then show ?thesis using in_windowD(3) [OF w, of y] e f by simp
  qed
  then show ?thesis using key in_windowD(1) [OF w] by (simp add: in_window_def list_all_iff Let_def)
qed

text \<open>The cursor of the loop: nothing before it, and at the very first entry as long as that is due.\<close>

definition cursor_ok :: "u32 \<Rightarrow> (nat \<times> u32) option \<Rightarrow> (nat \<times> u32) list \<Rightarrow> bool" where
  "cursor_ok now_ms eb es \<longleftrightarrow>
     (case eb of
        None \<Rightarrow> es = []
      | Some x \<Rightarrow> x \<in> set es \<and> (\<forall>y \<in> set es. snd x \<le> snd y) \<and> (snd x \<le> now_ms \<longrightarrow> hd es = x))"

lemma next_in_hd: "next_in (fst x) (x # xs) = (case xs of [] \<Rightarrow> None | y # _ \<Rightarrow> Some y)"
  by simp

lemma cursor_tail:
  "sorted (map snd (x # xs)) \<Longrightarrow> cursor_ok now (next_in (fst x) (x # xs)) xs"
  by (cases xs) (auto simp: cursor_ok_def)

lemma cursor_requeue:
  assumes add: "adds (t, k) xs es" and es: "sorted (map snd es)" and k: "now < k"
    and eb: "eb = (case xs of [] \<Rightarrow> Some (t, k) | y # _ \<Rightarrow> if k < snd y then Some (t, k) else Some y)"
  shows "cursor_ok now eb es"
proof -
  obtain a b where ab: "xs = a @ b" "es = a @ (t, k) # b" using add by (auto simp: adds_def)
  show ?thesis
  proof (cases "\<exists>y ys. xs = y # ys \<and> snd y \<le> k")
    case True
    then obtain y ys where y: "xs = y # ys" "snd y \<le> k" by blast
    then have eb': "eb = Some y" using eb by (simp add: leD)
    have le: "snd y \<le> snd z" if "z \<in> set xs" for z
      using that es y(1) ab by (cases a) (auto simp: sorted_append)
    have "hd es = y" if "snd y \<le> now"
    proof (cases a)
      case Nil
      then have "k \<le> snd y" using ab es y(1) by auto
      with that k show ?thesis by simp
    qed (use ab y in auto)
    then show ?thesis using eb' y le adds_set [OF add] by (auto simp: cursor_ok_def)
  next
    case False
    then have eb': "eb = Some (t, k)" using eb by (cases xs) auto
    have "k \<le> snd z" if z: "z \<in> set xs" for z
    proof -
      obtain y ys where y: "xs = y # ys" "k < snd y" using False z by (cases xs) auto
      have "a = []" using ab y es by (cases a) auto
      then show ?thesis using z ab es by auto
    qed
    then show ?thesis using eb' k adds_set [OF add] by (auto simp: cursor_ok_def)
  qed
qed

lemma wake_one_cursor:
  assumes inv: "sched_inv s" and win: "in_window now s" and es: "entries (timers s) = x # xs"
    and late: "\<not> tick_is_lt now (snd x)" and one: "wake_one now x s = (eb, s')"
  shows "cursor_ok now eb (entries (timers s')) \<and> in_window now s'"
proof -
  note q = sched_invD(1) [OF inv]
  let ?k = "expire (tasks s (fst x))"
  have x: "x \<in> set (entries (timers s))" using es by simp
  have rest: "without (fst x) (entries (timers s)) = xs"
    using ebq.inv_distinct [OF q] by (simp add: es without_absent)
  note c = wake_one_cases [OF inv x late one, unfolded rest]
  have srt: "sorted (map snd (x # xs))" using ebq.inv_sorted [OF q] es by simp
  have low: "now - TIMER_LOOK_BACK < snd y" if "y \<in> set xs" for y
    using in_windowD(2) [OF win] that es by simp
  have "cursor_ok now eb (entries (timers s')) \<and> (\<forall>y \<in> set (entries (timers s')). now - TIMER_LOOK_BACK < snd y)"
  proof (cases "entries (timers s') = xs \<and> eb = next_in (fst x) (entries (timers s))")
    case True
    then show ?thesis using cursor_tail [OF srt] low es by simp
  next
    case False
    then have a: "tick_isset ?k" "\<not> tick_is_expired ?k now" "adds (fst x, ?k) xs (entries (timers s'))"
      and eb: "eb = (case xs of [] \<Rightarrow> Some (fst x, ?k)
                     | y # _ \<Rightarrow> if ?k < snd y then Some (fst x, ?k) else Some y)"
      using c by (auto simp: es split: list.splits)
    have k: "now < ?k" using in_windowD(3) [OF win x a(1,2)] .
    have lo: "now - TIMER_LOOK_BACK \<le> now"
      using in_windowD(1) [OF win] by (simp add: word_sub_le)
    have "sorted (map snd (entries (timers s')))" using c ebq.inv_sorted sched_invD(1) by blast
    then show ?thesis
      using cursor_requeue [OF a(3) _ k eb] adds_set [OF a(3)] low le_less_trans [OF lo k] by auto
  qed
  then show ?thesis using in_window_safe [OF win] c by blast
qed

lemma wake_loop_complete:
  assumes "sched_inv s" and "in_window now s" and "cursor_ok now eb (entries (timers s))"
    and "wake_loop now eb s = Some (nx, s')"
  shows "(\<forall>x \<in> set (entries (timers s')). now < snd x \<and> nx \<le> snd x) \<and>
         (if entries (timers s') = [] then nx = TICK_ETERNITY else nx \<in> snd ` set (entries (timers s')))"
  using assms
proof (induction "due now s" arbitrary: eb s rule: less_induct)
  case less
  note q = sched_invD(1) [OF less.prems(1)]
  have lt: "tick_is_lt now (snd x) \<longleftrightarrow> now < snd x" if "x \<in> set (entries (timers s))" for x
    using in_windowD(1,2) [OF less.prems(2)] that window_lt by blast
  show ?case
  proof (cases eb)
    case None
    then have es: "entries (timers s) = []" using less.prems(3) by (simp add: cursor_ok_def)
    then have "eb_first (timers s) = None" using ebq.first_entry [OF q] by simp
    then show ?thesis using less.prems(4) None es by (subst (asm) wake_loop.simps) auto
  next
    case (Some x)
    then have x: "x \<in> set (entries (timers s))" and min: "\<And>y. y \<in> set (entries (timers s)) \<Longrightarrow> snd x \<le> snd y"
      and hd: "snd x \<le> now \<Longrightarrow> hd (entries (timers s)) = x"
      using less.prems(3) by (auto simp: cursor_ok_def)
    show ?thesis
    proof (cases "now < snd x")
      case True
      then have "wake_loop now eb s = Some (snd x, s)"
        using Some lt [OF x] by (subst wake_loop.simps) simp
      then have "nx = snd x" "s' = s" using less.prems(4) by simp_all
      then show ?thesis using True x min by force
    next
      case False
      then obtain xs where es: "entries (timers s) = x # xs" using hd x by (cases "entries (timers s)") auto
      obtain eb1 s1 where one: "wake_one now x s = (eb1, s1)" by fastforce
      have late: "\<not> tick_is_lt now (snd x)" using False lt [OF x] by simp
      have run: "wake_loop now eb1 s1 = Some (nx, s')"
        using less.prems(4) Some late one by (subst (asm) wake_loop.simps) simp
      note c = wake_one_cases [OF less.prems(1) x late one]
      note p = wake_one_progress [OF less.prems(1) x late one]
      note w = wake_one_cursor [OF less.prems(1,2) es late one]
      show ?thesis using c p run w by (intro less.hyps [of s1 eb1]) simp_all
    qed
  qed
qed

section \<open>Running tasks\<close>

text \<open>What a task's \<open>process\<close> function may do, by the comment in \<open>type/task.h\<close>: it returns its
  task or NULL, leaves the scheduler well-formed and the other runnable tasks in the run queue.\<close>

definition callback_ok :: "callback \<Rightarrow> bool" where
  "callback_ok process \<longleftrightarrow>
     (\<forall>t s. sched_inv s \<longrightarrow>
        fst (process t s) \<in> {None, Some t} \<and> sched_inv (snd (process t s)) \<and>
        {x \<in> set (entries (rqueue s)). fst x \<noteq> t} \<subseteq> set (entries (rqueue (snd (process t s)))))"

lemma upd_run_inv:
  "sched_inv s \<Longrightarrow> sched_inv (s\<lparr>tasks := (tasks s)(t := (tasks s t)\<lparr>state := v, calls := c\<rparr>)\<rparr>)"
  using sched_invD(3,4) by (intro sched_inv_tasks) auto

lemma task_queue_rqueue: "sched_inv s \<Longrightarrow> rqueue (task_queue t s) = rqueue s"
  using queuedD(3) raw_task_queue_effect [of s t] by (auto simp: task_queue_def)

lemma run_after_inv:
  assumes inv: "sched_inv s" and eb: "\<And>y. eb = Some y \<Longrightarrow> y \<in> set (entries (rqueue s))"
    and run: "run_after ex eb t s = (ex', eb', s')"
  shows "sched_inv s' \<and> rqueue s' = rqueue s \<and> (\<forall>y. eb' = Some y \<longrightarrow> y \<in> set (entries (rqueue s')))"
proof -
  define s1 where "s1 = upd_task t (\<lambda>tk. tk\<lparr>state := state tk AND NOT TASK_RUNNING\<rparr>) s"
  have i1: "sched_inv s1" using inv upd_state_inv by (simp add: s1_def)
  define s2 where "s2 = (if expire (tasks s1 t) \<noteq> 0 then task_queue t s1 else s1)"
  note r = run [unfolded run_after_def Let_def prod.inject, folded s1_def, folded s2_def]
  have s': "s' = s2" using r by blast
  have eb': "eb' = eb \<or> eb' = eb32_lookup_ge (rqueue s') (rqueue_ticks s' - TIMER_LOOK_BACK)"
    unfolding s' using r by (metis (no_types, lifting))
  have i: "sched_inv s'" and rq: "rqueue s' = rqueue s"
    using i1 task_queue_inv task_queue_rqueue [OF i1] by (simp_all add: s' s2_def s1_def)
  have "y \<in> set (entries (rqueue s'))" if "eb' = Some y" for y
    using that eb' eb rq ebq.lookup_ge_mem [OF sched_invD(2) [OF i]] by metis
  then show ?thesis using i rq by blast
qed

lemma run_one_inv:
  assumes cb: "callback_ok process" and inv: "sched_inv s" and x: "x \<in> set (entries (rqueue s))"
    and one: "run_one process ex x s = (ex', eb, s')"
  shows "sched_inv s' \<and> (\<forall>y. eb = Some y \<longrightarrow> y \<in> set (entries (rqueue s')))"
proof -
  define s2 where "s2 = upd_task (fst x) (\<lambda>tk. tk\<lparr>state := state tk OR TASK_RUNNING, calls := calls tk + 1\<rparr>)
      (raw_task_unlink_rq (fst x) s)"
  note q = sched_invD(2) [OF inv]
  have "sched_inv (raw_task_unlink_rq (fst x) s)"
    using inv x by (intro unlink_rq_inv) (auto simp: task_in_rq_def eb_linked_def)
  then have i2: "sched_inv s2" unfolding s2_def by (rule upd_run_inv)
  obtain r s3 where p: "process (fst x) s2 = (r, s3)" by fastforce
  have cbp: "sched_inv (snd (process (fst x) s2)) \<and>
      {y \<in> set (entries (rqueue s2)). fst y \<noteq> fst x} \<subseteq> set (entries (rqueue (snd (process (fst x) s2))))"
    using cb i2 unfolding callback_ok_def by blast
  have i3: "sched_inv s3" and keep: "{y \<in> set (entries (rqueue s2)). fst y \<noteq> fst x} \<subseteq> set (entries (rqueue s3))"
    using cbp p by simp_all
  have nxt: "y \<in> set (entries (rqueue s3))" if "eb_next (fst x) (rqueue s) = Some y" for y
  proof -
    have "y \<in> set (without (fst x) (entries (rqueue s)))"
      using that ebq.succ_entry [OF q, of "fst x"] x by (intro next_in_without [OF ebq.inv_distinct [OF q]]) auto
    then show ?thesis using keep ebq.delete_entries [OF q] by (auto simp: s2_def)
  qed
  show ?thesis
  proof (cases r)
    case None
    then show ?thesis using one p i3 nxt by (simp add: run_one_def Let_def s2_def)
  next
    case (Some t)
    then have "run_after ex (eb_next (fst x) (rqueue s)) t s3 = (ex', eb, s')"
      using one p by (simp add: run_one_def Let_def s2_def)
    then show ?thesis using run_after_inv [OF i3 nxt] by blast
  qed
qed

lemma run_loop_inv:
  assumes cb: "callback_ok process"
  shows "sched_inv s \<Longrightarrow> (\<And>x. eb = Some x \<Longrightarrow> x \<in> set (entries (rqueue s))) \<Longrightarrow>
         sched_inv (snd (run_loop process n ex eb s))"
proof (induction n arbitrary: ex eb s)
  case (Suc n)
  define cur where "cur = (case eb of None \<Rightarrow> eb_first (rqueue s) | Some x \<Rightarrow> Some x)"
  show ?case
  proof (cases cur)
    case None
    then show ?thesis using Suc.prems by (simp add: cur_def)
  next
    case (Some x)
    then have x: "x \<in> set (entries (rqueue s))"
      using Suc.prems(2) ebq.first_entry [OF sched_invD(2) [OF Suc.prems(1)]]
      by (auto simp: cur_def split: option.splits list.splits)
    obtain ex1 eb1 s1 where one: "run_one process ex x s = (ex1, eb1, s1)" by (rule prod_cases3)
    have step: "run_loop process (Suc n) ex eb s = run_loop process n ex1 eb1 s1"
      using Some one by (simp add: cur_def [symmetric])
    show ?thesis unfolding step using run_one_inv [OF cb Suc.prems(1) x one] by (intro Suc.IH) blast+
  qed
qed simp

text \<open>A callback that does not touch the run queue: each round takes one task off it.\<close>

definition quiet :: "callback \<Rightarrow> bool" where
  "quiet process \<longleftrightarrow> (\<forall>t s. rqueue (snd (process t s)) = rqueue s)"

lemma run_one_quiet:
  assumes cb: "callback_ok process" and qt: "quiet process" and inv: "sched_inv s"
    and x: "x \<in> set (entries (rqueue s))" and one: "run_one process ex x s = (ex', eb, s')"
  shows "rqueue s' = eb_delete (fst x) (rqueue s)"
proof -
  define s2 where "s2 = upd_task (fst x) (\<lambda>tk. tk\<lparr>state := state tk OR TASK_RUNNING, calls := calls tk + 1\<rparr>)
      (raw_task_unlink_rq (fst x) s)"
  obtain r s3 where p: "process (fst x) s2 = (r, s3)" by fastforce
  have "sched_inv (raw_task_unlink_rq (fst x) s)"
    using inv x by (intro unlink_rq_inv) (auto simp: task_in_rq_def eb_linked_def)
  then have "sched_inv s2" unfolding s2_def by (rule upd_run_inv)
  then have "sched_inv (snd (process (fst x) s2))" using cb unfolding callback_ok_def by blast
  then have i3: "sched_inv s3" using p by simp
  have "rqueue (snd (process (fst x) s2)) = rqueue s2" using qt unfolding quiet_def by blast
  then have rq: "rqueue s3 = eb_delete (fst x) (rqueue s)" using p by (simp add: s2_def)
  show ?thesis
  proof (cases r)
    case None
    then show ?thesis using one p rq by (simp add: run_one_def Let_def s2_def)
  next
    case (Some t)
    let ?s = "upd_task t (\<lambda>tk. tk\<lparr>state := state tk AND NOT TASK_RUNNING\<rparr>) s3"
    have "sched_inv ?s" using i3 upd_state_inv by simp
    moreover have "s' = (if expire (tasks ?s t) \<noteq> 0 then task_queue t ?s else ?s)"
      using one p Some unfolding run_one_def Let_def s2_def [symmetric] run_after_def by simp
    ultimately show ?thesis using rq task_queue_rqueue by simp
  qed
qed

lemma length_without:
  "distinct (map fst xs) \<Longrightarrow> x \<in> set xs \<Longrightarrow> length (without (fst x) xs) = length xs - 1"
proof (induction xs)
  case (Cons y ys)
  show ?case
  proof (cases "fst y = fst x")
    case True
    then have "fst x \<notin> fst ` set ys" using Cons.prems(1) by auto
    with True show ?thesis by (simp add: without_absent)
  next
    case False
    with Cons show ?thesis by (cases ys) auto
  qed
qed simp

lemma run_loop_quiet:
  assumes cb: "callback_ok process" and qt: "quiet process"
  shows "sched_inv s \<Longrightarrow> (\<And>x. eb = Some x \<Longrightarrow> x \<in> set (entries (rqueue s))) \<Longrightarrow>
         length (entries (rqueue (snd (run_loop process n ex eb s)))) = length (entries (rqueue s)) - n"
proof (induction n arbitrary: ex eb s)
  case (Suc n)
  define cur where "cur = (case eb of None \<Rightarrow> eb_first (rqueue s) | Some x \<Rightarrow> Some x)"
  note q = sched_invD(2) [OF Suc.prems(1)]
  show ?case
  proof (cases cur)
    case None
    then have "entries (rqueue s) = []"
      using ebq.first_entry [OF q] by (auto simp: cur_def split: option.splits list.splits)
    then show ?thesis using None by (simp add: cur_def [symmetric])
  next
    case (Some x)
    then have x: "x \<in> set (entries (rqueue s))"
      using Suc.prems(2) ebq.first_entry [OF q] by (auto simp: cur_def split: option.splits list.splits)
    obtain ex1 eb1 s1 where one: "run_one process ex x s = (ex1, eb1, s1)" by (rule prod_cases3)
    have step: "run_loop process (Suc n) ex eb s = run_loop process n ex1 eb1 s1"
      using Some one by (simp add: cur_def [symmetric])
    have "length (entries (rqueue s1)) = length (entries (rqueue s)) - 1"
      using run_one_quiet [OF cb qt Suc.prems(1) x one] ebq.delete_entries [OF q]
        length_without [OF ebq.inv_distinct [OF q] x] by simp
    moreover have "length (entries (rqueue (snd (run_loop process n ex1 eb1 s1)))) = length (entries (rqueue s1)) - n"
      using run_one_inv [OF cb Suc.prems(1) x one] by (intro Suc.IH) blast+
    ultimately show ?thesis unfolding step by simp
  qed
qed simp

section \<open>Properties\<close>

text \<open>C8: every operation of the scheduler keeps its invariant: the two trees are well formed, the
  counters \<open>run_queue\<close> and \<open>niced_tasks\<close> count the run queue and its niced tasks, the keys of
  the queued nodes are those of the trees and \<open>last_timer\<close> is a linked timer.\<close>

theorem sched_ops_inv:
  assumes "sched_inv s"
  shows "sched_inv (task_wakeup t f s) \<and> sched_inv (task_queue t s) \<and> sched_inv (task_schedule t w s) \<and>
         sched_inv (task_unlink_wq t s) \<and> sched_inv (task_unlink_rq t s) \<and>
         sched_inv (task_delete t s) \<and> \<not> task_in_wq t (task_delete t s) \<and> \<not> task_in_rq t (task_delete t s)"
proof -
  note q = sched_invD(1,2) [OF assms]
  have "\<not> task_in_wq t (task_delete t s) \<and> \<not> task_in_rq t (task_delete t s)"
    using q by (auto simp: task_delete_def task_unlink_wq_def task_unlink_rq_def task_in_wq_def
        task_in_rq_def linked_delete)
  then show ?thesis
    using assms task_wakeup_inv task_queue_inv task_schedule_inv task_delete_inv unlink_wq_inv unlink_rq_inv
    by (simp add: task_unlink_wq_def task_unlink_rq_def)
qed

theorem sched_ops_inv_witness:
  "sched_inv (task_wakeup 1 TASK_WOKEN_IO sched0) \<and> \<not> task_in_rq 1 (task_delete 1 (task_wakeup 1 TASK_WOKEN_IO sched0))"
  using sched_ops_inv [OF sched0_inv, of 1 TASK_WOKEN_IO 1]
    sched_ops_inv [of "task_wakeup 1 TASK_WOKEN_IO sched0" 1 TASK_WOKEN_IO 1] by blast

text \<open>After \<open>task_queue\<close> a task with a date is in the wait queue no later than that date, its
  date is unchanged, and the other timers are where they were.\<close>

theorem task_queue_places:
  assumes "sched_inv s" and "tick_isset (expire (tasks s t))"
  shows "task_in_wq t (task_queue t s) \<and>
         expire (tasks (task_queue t s) t) = expire (tasks s t) \<and>
         \<not> tick_is_lt (expire (tasks s t)) (wq_key (tasks (task_queue t s) t)) \<and>
         filter (\<lambda>x. fst x \<noteq> t) (entries (timers (task_queue t s))) =
           filter (\<lambda>x. fst x \<noteq> t) (entries (timers s))"
proof (cases "\<not> task_in_wq t s \<or> tick_is_lt (expire (tasks s t)) (wq_key (tasks s t))")
  case True
  then have eq: "task_queue t s = raw_task_queue t s" using assms(2) by (simp add: task_queue_def)
  have "queued t s (task_queue t s)" using raw_task_queue_effect [OF assms(1)] by (simp add: eq)
  note d = queuedD [OF this]
  have "without t (entries (timers (task_queue t s))) = without t (without t (entries (timers s)))"
    using adds_filter_out [OF d(1), of "\<lambda>x. fst x \<noteq> t"] by simp
  then show ?thesis using d(2) adds_set [OF d(1)] by (simp add: linked_wq)
next
  case False
  then show ?thesis by (simp add: task_queue_def)
qed

theorem task_queue_places_witness:
  "task_in_wq 7 (task_queue 7 (sched0\<lparr>tasks := (tasks sched0)(7 := (tasks sched0 7)\<lparr>expire := 99\<rparr>)\<rparr>))"
proof -
  let ?s = "sched0\<lparr>tasks := (tasks sched0)(7 := (tasks sched0 7)\<lparr>expire := 99\<rparr>)\<rparr>"
  have "sched_inv ?s" using sched0_inv by (rule upd_expire_inv)
  moreover have "tick_isset (expire (tasks ?s 7))" by (simp add: tick_isset_def)
  ultimately show ?thesis using task_queue_places by blast
qed

text \<open>C6: from any well-formed state and at any date, also while the clock wraps,
  \<open>wake_expired_tasks\<close> ends and keeps the invariant; no task is woken before its date, a task
  leaves the wait queue only when it has expired or its date was disabled, an expired task that left it is in
  the run queue with the flag \<open>TASK_WOKEN_TIMER\<close>, every other task keeps its state, and no date changes.\<close>

theorem wake_expired_safe:
  assumes "sched_inv s"
  shows "\<exists>nx s'. wake_expired_tasks now s = Some (nx, s') \<and> sched_inv s' \<and> wake_safe now s s'"
  unfolding wake_expired_tasks_def
  using assms ebq.lookup_ge_mem [OF sched_invD(1) [OF assms]] by (intro wake_loop_safe)

theorem wake_expired_safe_witness:
  "\<exists>nx s'. wake_expired_tasks 20 (task_schedule 1 10 sched0) = Some (nx, s') \<and> sched_inv s' \<and>
           wake_safe 20 (task_schedule 1 10 sched0) s'"
  using task_schedule_inv [OF sched0_inv] by (rule wake_expired_safe)

text \<open>C7: as long as the dates of the window do not wrap around, \<open>wake_expired_tasks\<close> wakes every
  task whose timer is due and whose date has passed, leaves only timers that are not due, and returns the date of the
  earliest of them, or \<open>TICK_ETERNITY\<close> when none is left.\<close>

theorem wake_expired_complete:
  assumes "sched_inv s" and "in_window now s"
  shows "\<exists>nx s'. wake_expired_tasks now s = Some (nx, s') \<and>
           (\<forall>x \<in> set (entries (timers s)). snd x \<le> now \<and> tick_is_expired (expire (tasks s (fst x))) now \<longrightarrow>
              task_in_rq (fst x) s' \<and> \<not> task_in_wq (fst x) s' \<and>
              state (tasks s' (fst x)) AND TASK_WOKEN_TIMER \<noteq> 0) \<and>
           (\<forall>x \<in> set (entries (timers s')). now < snd x \<and> nx \<le> snd x) \<and>
           (if entries (timers s') = [] then nx = TICK_ETERNITY else nx \<in> snd ` set (entries (timers s')))"
proof -
  let ?eb = "eb32_lookup_ge (timers s) (now - TIMER_LOOK_BACK)"
  note q = sched_invD(1) [OF assms(1)]
  have "\<exists>nx s'. wake_loop now ?eb s = Some (nx, s') \<and> sched_inv s' \<and> wake_safe now s s'"
    by (rule wake_loop_safe [OF assms(1) ebq.lookup_ge_mem [OF q]])
  then obtain nx s' where run: "wake_loop now ?eb s = Some (nx, s')" and safe: "wake_safe now s s'" by blast
  have cur: "cursor_ok now ?eb (entries (timers s))"
  proof (cases "entries (timers s)")
    case (Cons x xs)
    then have "?eb = Some x"
      using in_windowD(2) [OF assms(2), of x] ebq.lookup_ge_entry [OF q] by (simp add: less_imp_le)
    then show ?thesis using Cons ebq.inv_sorted [OF q] by (auto simp: cursor_ok_def)
  qed (use ebq.lookup_ge_entry [OF q] in \<open>simp add: cursor_ok_def\<close>)
  note fin = wake_loop_complete [OF assms cur run]
  have "task_in_rq (fst x) s' \<and> \<not> task_in_wq (fst x) s' \<and> state (tasks s' (fst x)) AND TASK_WOKEN_TIMER \<noteq> 0"
    if x: "x \<in> set (entries (timers s))" and le: "snd x \<le> now" and ex: "tick_is_expired (expire (tasks s (fst x))) now" for x
  proof -
    have out: "\<not> task_in_wq (fst x) s'"
    proof
      assume "task_in_wq (fst x) s'"
      then obtain y where y: "y \<in> set (entries (timers s'))" "fst y = fst x" by (auto simp: linked_wq)
      then have gt: "now < snd y" using fin by blast
      have "y \<in> set (entries (timers s))" using safe y ex unfolding wake_safe_def by metis
      then have "snd y = snd x" using sched_invD(3) [OF assms(1)] x y(2) by metis
      then show False using gt le by simp
    qed
    have "wake_task now s s' (fst x)" using safe unfolding wake_safe_def by blast
    moreover have "task_in_wq (fst x) s" using x by (simp add: linked_wq)
    ultimately show ?thesis using out ex by (simp add: wake_task_def)
  qed
  then show ?thesis using run fin unfolding wake_expired_tasks_def by blast
qed

theorem wake_expired_complete_witness:
  "\<exists>nx s'. wake_expired_tasks 0x80000020 (task_schedule 1 0x80000010 sched0) = Some (nx, s') \<and>
     task_in_rq 1 s' \<and> \<not> task_in_wq 1 s' \<and> state (tasks s' 1) AND TASK_WOKEN_TIMER \<noteq> 0"
proof -
  let ?s = "task_schedule 1 0x80000010 sched0"
  have "in_window 0x80000020 ?s" by code_simp
  moreover have "(1, 0x80000010) \<in> set (entries (timers ?s))" by code_simp
  moreover have "tick_is_expired (expire (tasks ?s (fst (1, 0x80000010 :: u32)))) 0x80000020" by code_simp
  moreover have "snd (1, 0x80000010) \<le> (0x80000020 :: u32)" by simp
  ultimately show ?thesis
    using wake_expired_complete [OF task_schedule_inv [OF sched0_inv], of "0x80000020"] by fastforce
qed


text \<open>C18: \<open>process_runnable_tasks\<close> keeps the invariant with every task function that keeps to its
  contract; and when these functions do not wake tasks themselves it runs exactly 200 tasks or all there are,
  a quarter of that (rounded up) when some are niced.\<close>

theorem process_runnable_progress:
  assumes "callback_ok process" and "sched_inv s"
  shows "sched_inv (snd (process_runnable_tasks process nx s)) \<and>
         (quiet process \<and> length (entries (rqueue s)) < 2 ^ 32 \<longrightarrow>
            length (entries (rqueue (snd (process_runnable_tasks process nx s)))) =
              length (entries (rqueue s)) -
                (let m = min 200 (length (entries (rqueue s)))
                 in if niced_tasks s \<noteq> 0 then (m + 3) div 4 else m))"
proof -
  let ?s = "s\<lparr>run_queue_cur := run_queue s, nb_tasks_cur := nb_tasks s\<rparr>"
  let ?n = "length (entries (rqueue s))"
  have inv: "sched_inv ?s" using assms(2) unfolding sched_inv_def by simp
  note mem = ebq.lookup_ge_mem [OF sched_invD(2) [OF inv], of "rqueue_ticks ?s - TIMER_LOOK_BACK"]
  have rq: "unat (run_queue s) = ?n" if "?n < 2 ^ 32"
    using that sched_invD(5) [OF assms(2)] unat_of_nat_small [of ?n, where 'a = 32] by simp
  have "unat (max_processed ?s) = (let m = min 200 ?n in if niced_tasks s \<noteq> 0 then (m + 3) div 4 else m)"
    if "?n < 2 ^ 32"
  proof -
    define m where "m = (if run_queue s > 200 then 200 else run_queue s)"
    have n: "unat m = min 200 ?n" using rq [OF that] by (simp add: m_def word_less_nat_alt min_def)
    then have "unat (m + 3) = min 200 ?n + 3" by (subst unat_add_lem [THEN iffD1]) simp_all
    then have "unat ((m + 3) div 4) = (min 200 ?n + 3) div 4" by (simp add: unat_div)
    moreover have "max_processed ?s = (if niced_tasks s \<noteq> 0 then (m + 3) div 4 else m)"
      by (simp add: max_processed_def Let_def m_def)
    ultimately show ?thesis using n by (simp add: Let_def)
  qed
  then show ?thesis
    using run_loop_inv [OF assms(1) inv mem] run_loop_quiet [OF assms(1) _ inv mem] rq inv
    by (auto simp: process_runnable_tasks_def Let_def)
qed

theorem process_runnable_progress_witness:
  "sched_inv (snd (process_runnable_tasks (\<lambda>t s. (Some t, s)) 0 (task_wakeup 1 TASK_WOKEN_IO sched0))) \<and>
   entries (rqueue (snd (process_runnable_tasks (\<lambda>t s. (Some t, s)) 0 (task_wakeup 1 TASK_WOKEN_IO sched0)))) = []"
proof -
  let ?p = "\<lambda>t s. (Some t, s)" and ?s = "task_wakeup 1 TASK_WOKEN_IO sched0"
  have "callback_ok ?p" "quiet ?p" by (auto simp: callback_ok_def quiet_def)
  moreover have "length (entries (rqueue ?s)) = 1" "niced_tasks ?s = 0" by code_simp+
  ultimately show ?thesis
    using process_runnable_progress [OF _ task_wakeup_inv [OF sched0_inv], of ?p 0 1 TASK_WOKEN_IO]
    by (simp add: Let_def)
qed

end
