(* ===== verification/Timeval.thy ===== *)
theory Timeval
  imports Prelude "HOL-Library.Signed_Division"
begin

text \<open>
  Dates and delays as \<open>struct timeval\<close>, \<open>src/src/common/time.h\<close> and \<open>src/src/time.c\<close>. The two
  fields are \<open>long\<close>, modelled as \<open>int\<close> (their arithmetic does not overflow 64 bits); a cast to
  \<open>unsigned\<close> is \<open>of_int\<close> to 32-bit words, one to \<open>signed\<close> is \<open>sint\<close> of it. Division is C's, towards zero
  (\<open>sdiv\<close>, \<open>smod\<close>). The theorems say that on normalised dates of 32-bit seconds the
  comparisons are those of the number of microseconds, and that the operators
  add and subtract exactly.
\<close>

section \<open>Data\<close>

record timeval =
  tv_sec :: int
  tv_usec :: int

definition TIME_ETERNITY :: int where
  "TIME_ETERNITY = - 1"

definition TV_ETERNITY :: u64 where
  "TV_ETERNITY = - 1"

definition MAX_DELAY_MS :: int where
  "MAX_DELAY_MS = 1000"

definition MINTIME :: "int \<Rightarrow> int \<Rightarrow> int" where
  "MINTIME old new = (if new < 0 then old else if old < 0 \<or> new < old then new else old)"

abbreviation usec32 :: "timeval \<Rightarrow> u32" where
  "usec32 tv \<equiv> of_int (tv_usec tv)"

abbreviation sec32 :: "timeval \<Rightarrow> u32" where
  "sec32 tv \<equiv> of_int (tv_sec tv)"

section \<open>General purpose functions\<close>

definition tv_eternity :: timeval where
  "tv_eternity = \<lparr>tv_sec = sint TV_ETERNITY, tv_usec = sint TV_ETERNITY\<rparr>"

definition tv_zero :: timeval where
  "tv_zero = \<lparr>tv_sec = 0, tv_usec = 0\<rparr>"

definition tv_iseternity :: "timeval \<Rightarrow> bool" where
  "tv_iseternity tv \<longleftrightarrow> tv_usec tv = sint TV_ETERNITY"

definition tv_isset :: "timeval \<Rightarrow> bool" where
  "tv_isset tv \<longleftrightarrow> tv_usec tv \<noteq> sint TV_ETERNITY"

definition tv_iszero :: "timeval \<Rightarrow> bool" where
  "tv_iszero tv \<longleftrightarrow> (tv_sec tv OR tv_usec tv) = 0"

definition tv_to_ms :: "timeval \<Rightarrow> u64" where
  "tv_to_ms tv = of_int (tv_sec tv * 1000) + of_int (tv_usec tv sdiv 1000)"

definition tv_from_ms :: "u64 \<Rightarrow> timeval" where
  "tv_from_ms ms = \<lparr>tv_sec = uint (ms div 1000), tv_usec = uint ((ms mod 1000) * 1000)\<rparr>"

definition usec_to_1024th :: "u32 \<Rightarrow> u32" where
  "usec_to_1024th usec = drop_bit 20 (usec * 1073 + 742516)"

section \<open>Comparisons\<close>

definition tv_cmp :: "timeval \<Rightarrow> timeval \<Rightarrow> int" where
  "tv_cmp tv1 tv2 =
     (if sec32 tv1 < sec32 tv2 then - 1
      else if sec32 tv1 > sec32 tv2 then 1
      else if usec32 tv1 < usec32 tv2 then - 1
      else if usec32 tv1 > usec32 tv2 then 1
      else 0)"

definition tv_iseq :: "timeval \<Rightarrow> timeval \<Rightarrow> bool" where
  "tv_iseq tv1 tv2 \<longleftrightarrow> sec32 tv1 = sec32 tv2 \<and> usec32 tv1 = usec32 tv2"

definition tv_isgt :: "timeval \<Rightarrow> timeval \<Rightarrow> bool" where
  "tv_isgt tv1 tv2 =
     (if sec32 tv1 = sec32 tv2 then usec32 tv1 > usec32 tv2 else sec32 tv1 > sec32 tv2)"

definition tv_isge :: "timeval \<Rightarrow> timeval \<Rightarrow> bool" where
  "tv_isge tv1 tv2 =
     (if sec32 tv1 = sec32 tv2 then usec32 tv1 \<ge> usec32 tv2 else sec32 tv1 > sec32 tv2)"

definition tv_islt :: "timeval \<Rightarrow> timeval \<Rightarrow> bool" where
  "tv_islt tv1 tv2 =
     (if sec32 tv1 = sec32 tv2 then usec32 tv1 < usec32 tv2 else sec32 tv1 < sec32 tv2)"

definition tv_isle :: "timeval \<Rightarrow> timeval \<Rightarrow> bool" where
  "tv_isle tv1 tv2 =
     (if sec32 tv1 = sec32 tv2 then usec32 tv1 \<le> usec32 tv2 else sec32 tv1 < sec32 tv2)"

definition tv_ms_cmp :: "timeval \<Rightarrow> timeval \<Rightarrow> int" where
  "tv_ms_cmp tv1 tv2 =
     (if sec32 tv1 = sec32 tv2 then
        (if usec32 tv2 \<ge> usec32 tv1 + 1000 then - 1
         else if usec32 tv1 \<ge> usec32 tv2 + 1000 then 1
         else 0)
      else if sec32 tv2 > sec32 tv1 + 1 \<or>
              (sec32 tv2 = sec32 tv1 + 1 \<and> usec32 tv2 + 1000000 \<ge> usec32 tv1 + 1000)
      then - 1
      else if sec32 tv1 > sec32 tv2 + 1 \<or>
              (sec32 tv1 = sec32 tv2 + 1 \<and> usec32 tv1 + 1000000 \<ge> usec32 tv2 + 1000)
      then 1
      else 0)"

definition tv_ms_cmp2 :: "timeval \<Rightarrow> timeval \<Rightarrow> int" where
  "tv_ms_cmp2 tv1 tv2 =
     (if tv_iseternity tv1 then (if tv_iseternity tv2 then 0 else 1)
      else if tv_iseternity tv2 then - 1
      else tv_ms_cmp tv1 tv2)"

definition tv_ms_le2 :: "timeval \<Rightarrow> timeval \<Rightarrow> bool" where
  "tv_ms_le2 tv1 tv2 =
     (if sec32 tv1 > sec32 tv2 + 1 then False
      else if sec32 tv1 < sec32 tv2 then True
      else if sec32 tv1 = sec32 tv2 then
        (if usec32 tv2 \<ge> usec32 tv1 + 1000 then True else False)
      else if sec32 tv1 = sec32 tv2 + 1 \<and> usec32 tv1 + 1000000 \<ge> usec32 tv2 + 1000 then False
      else True)"

definition tv_isbefore :: "timeval \<Rightarrow> timeval \<Rightarrow> bool" where
  "tv_isbefore tv1 tv2 =
     (if sec32 tv1 < sec32 tv2 then True
      else if sec32 tv1 > sec32 tv2 then False
      else usec32 tv1 < usec32 tv2)"

definition tv_min :: "timeval \<Rightarrow> timeval \<Rightarrow> timeval" where
  "tv_min tv1 tv2 = (if tv_isbefore tv1 tv2 then tv1 else tv2)"

definition tv_bound :: "timeval \<Rightarrow> timeval \<Rightarrow> timeval" where
  "tv_bound tv1 tv2 = (if tv_isbefore tv2 tv1 then tv2 else tv1)"

section \<open>Operators\<close>

definition tv_ms_elapsed :: "timeval \<Rightarrow> timeval \<Rightarrow> u64" where
  "tv_ms_elapsed tv1 tv2 =
     of_int ((tv_sec tv2 - tv_sec tv1) * 1000) + of_int ((tv_usec tv2 - tv_usec tv1) sdiv 1000)"

definition tv_ms_remain :: "timeval \<Rightarrow> timeval \<Rightarrow> u64" where
  "tv_ms_remain tv1 tv2 = (if tv_ms_cmp tv1 tv2 \<ge> 0 then 0 else tv_ms_elapsed tv1 tv2)"

definition tv_ms_remain2 :: "timeval \<Rightarrow> timeval \<Rightarrow> u64" where
  "tv_ms_remain2 tv1 tv2 =
     (if tv_iseternity tv2 then of_int TIME_ETERNITY else tv_ms_remain tv1 tv2)"

definition tv_add :: "timeval \<Rightarrow> timeval \<Rightarrow> timeval" where
  "tv_add from inc =
     (let usec = tv_usec from + tv_usec inc;
          sec = tv_sec from + tv_sec inc
      in if usec \<ge> 1000000 then \<lparr>tv_sec = sec + 1, tv_usec = usec - 1000000\<rparr>
         else \<lparr>tv_sec = sec, tv_usec = usec\<rparr>)"

text \<open>\<open>None\<close>: 0 is returned and \<open>tv\<close> is left alone.\<close>

definition tv_add_ifset :: "timeval \<Rightarrow> timeval \<Rightarrow> timeval option" where
  "tv_add_ifset from inc =
     (if tv_iseternity inc then None
      else let usec = tv_usec from + tv_usec inc;
               sec = tv_sec from + tv_sec inc
           in if usec \<ge> 1000000 then Some \<lparr>tv_sec = sec + 1, tv_usec = usec - 1000000\<rparr>
              else Some \<lparr>tv_sec = sec, tv_usec = usec\<rparr>)"

definition tv_add2 :: "timeval \<Rightarrow> timeval \<Rightarrow> timeval" where
  "tv_add2 tv inc =
     (let tv1 = tv\<lparr>tv_usec := tv_usec tv + tv_usec inc, tv_sec := tv_sec tv + tv_sec inc\<rparr>
      in if tv_usec tv1 \<ge> 1000000
         then tv1\<lparr>tv_usec := tv_usec tv1 - 1000000, tv_sec := tv_sec tv1 + 1\<rparr> else tv1)"

definition tv_remain :: "timeval \<Rightarrow> timeval \<Rightarrow> timeval" where
  "tv_remain tv1 tv2 =
     (let usec = tv_usec tv2 - tv_usec tv1;
          sec = tv_sec tv2 - tv_sec tv1
      in if sint (of_int sec :: u32) > 0 then
           (if sint (of_int usec :: u32) < 0 then \<lparr>tv_sec = sec - 1, tv_usec = usec + 1000000\<rparr>
            else \<lparr>tv_sec = sec, tv_usec = usec\<rparr>)
         else if sec = 0 then
           (if sint (of_int usec :: u32) < 0 then \<lparr>tv_sec = sec, tv_usec = 0\<rparr>
            else \<lparr>tv_sec = sec, tv_usec = usec\<rparr>)
         else \<lparr>tv_sec = 0, tv_usec = 0\<rparr>)"

definition tv_remain2 :: "timeval \<Rightarrow> timeval \<Rightarrow> timeval" where
  "tv_remain2 tv1 tv2 = (if tv_iseternity tv2 then tv_eternity else tv_remain tv1 tv2)"

text \<open>The loop of \<open>__tv_ms_add\<close> that carries whole seconds.\<close>

function tv_carry :: "int \<Rightarrow> int \<Rightarrow> timeval" where
  "tv_carry sec usec =
     (if usec \<ge> 1000000 then tv_carry (sec + 1) (usec - 1000000)
      else \<lparr>tv_sec = sec, tv_usec = usec\<rparr>)"
  by pat_completeness auto
termination
  by (relation "measure (\<lambda>(sec, usec). nat usec)") auto

declare tv_carry.simps [simp del]

definition tv_ms_add :: "timeval \<Rightarrow> int \<Rightarrow> timeval" where
  "tv_ms_add from ms =
     tv_carry (tv_sec from + ms sdiv 1000) (tv_usec from + (ms smod 1000) * 1000)"

section \<open>The clock\<close>

record clock =
  curr_sec_ms :: u32
  ms_left_scaled :: u32
  now_ms :: u32
  samp_time :: u32
  idle_time :: u32
  idle_pct :: u32
  now :: timeval
  date :: timeval
  before_poll :: timeval
  after_poll :: timeval

text \<open>\<open>tv_update_date\<close>: the two calls of \<open>gettimeofday\<close> give \<open>t1\<close> and \<open>t2\<close>. The \<open>goto to_ms\<close> after
  the second one skips the correction of time jumps, which is never executed; the arguments are
  not used.\<close>

definition tv_update_date :: "timeval \<Rightarrow> timeval \<Rightarrow> int \<Rightarrow> int \<Rightarrow> clock \<Rightarrow> clock" where
  "tv_update_date t1 t2 max_wait interrupted c0 =
     (let c = c0\<lparr>date := t1\<rparr>;
          adjusted = t2;
          ms = of_int (tv_usec adjusted sdiv 1000)
      in c\<lparr>now := adjusted,
           curr_sec_ms := ms,
           ms_left_scaled := (999 - ms) * 4294967,
           now_ms := of_int (tv_sec adjusted * 1000) + ms\<rparr>)"

text \<open>\<open>measure_idle\<close>: \<open>delta\<close> is an \<open>int\<close> that ends up in an unsigned sum, so everything is modulo
  \<open>2 ^ 32\<close>.\<close>

definition usec_since :: "timeval \<Rightarrow> timeval \<Rightarrow> u32" where
  "usec_since t t0 =
     (let delta = of_int (tv_sec t - tv_sec t0);
          delta' = (if delta \<noteq> 0 then delta * 1000000 else delta)
      in delta' + of_int (tv_usec t - tv_usec t0))"

definition measure_idle :: "clock \<Rightarrow> clock" where
  "measure_idle c =
     (let c1 = c\<lparr>idle_time := idle_time c + usec_since (date c) (before_poll c)\<rparr>;
          c2 = c1\<lparr>samp_time := samp_time c1 + usec_since (date c1) (after_poll c1)\<rparr>;
          c3 = c2\<lparr>after_poll := \<lparr>tv_sec = tv_sec (date c2), tv_usec = tv_usec (date c2)\<rparr>\<rparr>
      in if samp_time c3 < 500000 then c3
         else c3\<lparr>idle_pct := (100 * idle_time c3 + samp_time c3 div 2) div samp_time c3,
                 idle_time := 0, samp_time := 0\<rparr>)"

section \<open>Normalised dates\<close>

definition tv_ok :: "timeval \<Rightarrow> bool" where
  "tv_ok tv \<longleftrightarrow> 0 \<le> tv_sec tv \<and> tv_sec tv < 2 ^ 31 \<and> 0 \<le> tv_usec tv \<and> tv_usec tv < 1000000"

definition us :: "timeval \<Rightarrow> int" where
  "us tv = tv_sec tv * 1000000 + tv_usec tv"

lemmas cmp32 = of_int_word_cmp [where 'a = 32, simplified]

lemma tv_ok_cmp:
  assumes "tv_ok a" and "tv_ok b"
  shows "sec32 a = sec32 b \<longleftrightarrow> tv_sec a = tv_sec b" "sec32 a < sec32 b \<longleftrightarrow> tv_sec a < tv_sec b"
    "usec32 a = usec32 b \<longleftrightarrow> tv_usec a = tv_usec b" "usec32 a < usec32 b \<longleftrightarrow> tv_usec a < tv_usec b"
    "usec32 a \<le> usec32 b \<longleftrightarrow> tv_usec a \<le> tv_usec b"
  using assms unfolding tv_ok_def by (auto simp: cmp32)

lemma of_int_add_const: "of_int a + (1000 :: u32) = of_int (a + 1000)" "of_int a + (1 :: u32) = of_int (a + 1)"
  "of_int a + (1000000 :: u32) = of_int (a + 1000000)"
  by simp_all

lemma tv_ok_cmp_add:
  assumes "tv_ok a" and "tv_ok b"
  shows "usec32 a + 1000 \<le> usec32 b \<longleftrightarrow> tv_usec a + 1000 \<le> tv_usec b"
    "sec32 a + 1 < sec32 b \<longleftrightarrow> tv_sec a + 1 < tv_sec b" "sec32 b = sec32 a + 1 \<longleftrightarrow> tv_sec b = tv_sec a + 1"
    "usec32 a + 1000 \<le> usec32 b + 1000000 \<longleftrightarrow> tv_usec a + 1000 \<le> tv_usec b + 1000000"
  using assms unfolding tv_ok_def of_int_add_const by (auto simp: cmp32 simp del: of_int_add)

text \<open>Microseconds decide by the seconds first.\<close>

lemma us_cmp:
  assumes "tv_ok a" and "tv_ok b"
  shows "us a < us b \<longleftrightarrow> tv_sec a < tv_sec b \<or> tv_sec a = tv_sec b \<and> tv_usec a < tv_usec b"
    "us a = us b \<longleftrightarrow> tv_sec a = tv_sec b \<and> tv_usec a = tv_usec b"
  using assms unfolding us_def tv_ok_def
  by (auto, cases rule: linorder_cases [of "tv_sec a" "tv_sec b"], auto)

section \<open>Properties\<close>

text \<open>On normalised dates all the comparisons of \<open>time.h\<close> are those of the number of
  microseconds: \<open>tv_cmp\<close> is its sign, the predicates and the minima agree with it.\<close>

theorem tv_compare_us:
  assumes "tv_ok a" and "tv_ok b"
  shows "tv_cmp a b = sgn (us a - us b) \<and>
         (tv_iseq a b \<longleftrightarrow> us a = us b) \<and> (tv_isgt a b \<longleftrightarrow> us a > us b) \<and>
         (tv_isge a b \<longleftrightarrow> us a \<ge> us b) \<and> (tv_islt a b \<longleftrightarrow> us a < us b) \<and>
         (tv_isle a b \<longleftrightarrow> us a \<le> us b) \<and> (tv_isbefore a b \<longleftrightarrow> us a < us b) \<and>
         us (tv_min a b) = min (us a) (us b) \<and> us (tv_bound a b) = min (us a) (us b)"
proof -
  note c = tv_ok_cmp [OF assms] tv_ok_cmp [OF assms(2,1)]
  note u = us_cmp [OF assms] us_cmp [OF assms(2,1)]
  have le: "us a \<le> us b \<longleftrightarrow> us a < us b \<or> us a = us b" "us b \<le> us a \<longleftrightarrow> us b < us a \<or> us a = us b" by auto
  have b: "tv_isbefore a b \<longleftrightarrow> us a < us b" "tv_isbefore b a \<longleftrightarrow> us b < us a"
    by (auto simp: tv_isbefore_def c u)
  moreover have "tv_cmp a b = sgn (us a - us b)"
    by (auto simp: tv_cmp_def c sgn_if u algebra_simps)
  moreover have "tv_iseq a b \<longleftrightarrow> us a = us b" by (simp add: tv_iseq_def c u)
  moreover have "tv_isgt a b \<longleftrightarrow> us a > us b" "tv_islt a b \<longleftrightarrow> us a < us b"
    by (auto simp: tv_isgt_def tv_islt_def c u)
  moreover have "tv_isge a b \<longleftrightarrow> us a \<ge> us b" "tv_isle a b \<longleftrightarrow> us a \<le> us b"
    by (auto simp: tv_isge_def tv_isle_def c u le)
  ultimately show ?thesis by (auto simp: tv_min_def tv_bound_def)
qed

theorem tv_compare_us_witness:
  "tv_islt \<lparr>tv_sec = 3, tv_usec = 999999\<rparr> \<lparr>tv_sec = 4, tv_usec = 0\<rparr>"
  using tv_compare_us [of "\<lparr>tv_sec = 3, tv_usec = 999999\<rparr>" "\<lparr>tv_sec = 4, tv_usec = 0\<rparr>"]
  by (simp add: tv_ok_def us_def)

text \<open>\<open>tv_ms_cmp\<close> compares with a tolerance of one millisecond, across the second boundary too:
  -1 when the second date is at least 1000 microseconds later, 1 when the first is, 0 between.\<close>

theorem tv_ms_cmp_us:
  assumes "tv_ok a" and "tv_ok b"
  shows "tv_ms_cmp a b =
           (if us b \<ge> us a + 1000 then - 1 else if us a \<ge> us b + 1000 then 1 else 0)"
proof -
  have 1: "us b \<ge> us a + 1000 \<longleftrightarrow>
      (if tv_sec a = tv_sec b then tv_usec a + 1000 \<le> tv_usec b
       else tv_sec a + 1 < tv_sec b \<or> tv_sec b = tv_sec a + 1 \<and> tv_usec a + 1000 \<le> tv_usec b + 1000000)"
    if "tv_ok a" "tv_ok b" for a b
    using that unfolding us_def tv_ok_def by auto
  show ?thesis
    unfolding tv_ms_cmp_def tv_ok_cmp [OF assms] tv_ok_cmp_add [OF assms] tv_ok_cmp_add [OF assms(2,1)]
      1 [OF assms] 1 [OF assms(2,1)] by auto
qed

theorem tv_ms_cmp_us_witness:
  "tv_ms_cmp \<lparr>tv_sec = 3, tv_usec = 999999\<rparr> \<lparr>tv_sec = 4, tv_usec = 500\<rparr> = 0"
  using tv_ms_cmp_us [of "\<lparr>tv_sec = 3, tv_usec = 999999\<rparr>" "\<lparr>tv_sec = 4, tv_usec = 500\<rparr>"]
  by (simp add: tv_ok_def us_def)

text \<open>\<open>tv_ms_le2\<close> is documented as a replacement of \<open>tv_ms_cmp2 tv now \<le> 0\<close>, but of two dates of the
  same second that are equal modulo 1 ms it says that the first is later.\<close>

theorem tv_ms_le2_not_cmp2:
  "tv_ms_cmp2 \<lparr>tv_sec = 5, tv_usec = 7\<rparr> \<lparr>tv_sec = 5, tv_usec = 7\<rparr> \<le> 0 \<and>
   \<not> tv_ms_le2 \<lparr>tv_sec = 5, tv_usec = 7\<rparr> \<lparr>tv_sec = 5, tv_usec = 7\<rparr>"
  by (simp add: tv_ms_cmp2_def tv_ms_cmp_def tv_ms_le2_def tv_iseternity_def TV_ETERNITY_def)

lemma sdiv_nonneg: "0 \<le> a \<Longrightarrow> a sdiv (1000 :: int) = a div 1000"
  by (simp add: signed_divide_int_def sgn_if)

lemma smod_nonneg: "0 \<le> a \<Longrightarrow> a smod (1000 :: int) = a mod 1000"
  by (simp add: signed_modulo_int_def sgn_if)

lemma tv_carry_us:
  "0 \<le> usec \<Longrightarrow> tv_carry sec usec = \<lparr>tv_sec = sec + usec div 1000000, tv_usec = usec mod 1000000\<rparr>"
proof (induction sec usec rule: tv_carry.induct)
  case (1 sec usec)
  show ?case
  proof (cases "usec \<ge> 1000000")
    case True
    have "usec = (usec - 1000000) + 1000000" by simp
    then have "usec div 1000000 = (usec - 1000000) div 1000000 + 1" "usec mod 1000000 = (usec - 1000000) mod 1000000"
      by (metis div_add_self2 zero_neq_numeral, metis mod_add_self2)
    then show ?thesis using 1 True by (subst tv_carry.simps) simp
  next
    case False
    then show ?thesis using 1 by (subst tv_carry.simps) simp
  qed
qed

lemma sint_small: "- (2 ^ 31) \<le> k \<Longrightarrow> k < 2 ^ 31 \<Longrightarrow> sint (of_int k :: u32) = k"
  using sint_of_int_in_range [of k, where 'a = 32] by simp

lemma tv_ms_add_us:
  assumes "tv_ok a" and "0 \<le> ms"
  shows "us (tv_ms_add a ms) = us a + ms * 1000 \<and> tv_usec (tv_ms_add a ms) \<in> {0..<1000000}"
proof -
  define q r where "q = ms div 1000" and "r = ms mod 1000"
  have ms: "ms = q * 1000 + r" unfolding q_def r_def by simp
  define u where "u = tv_usec a + r * 1000"
  have "0 \<le> u" using assms(1) by (simp add: u_def r_def tv_ok_def)
  then have eq: "tv_ms_add a ms = \<lparr>tv_sec = tv_sec a + q + u div 1000000, tv_usec = u mod 1000000\<rparr>"
    using assms(2) by (simp add: tv_ms_add_def sdiv_nonneg smod_nonneg tv_carry_us u_def q_def r_def)
  have "u div 1000000 * 1000000 + u mod 1000000 = u" by (rule div_mult_mod_eq)
  moreover have "us (tv_ms_add a ms) = (tv_sec a + q) * 1000000 + (u div 1000000 * 1000000 + u mod 1000000)"
    by (simp add: us_def eq algebra_simps)
  ultimately have "us (tv_ms_add a ms) = us a + ms * 1000" by (simp add: us_def u_def ms algebra_simps)
  then show ?thesis by (simp add: eq)
qed

lemma tv_remain_us:
  assumes "tv_ok a" and "tv_ok b"
  shows "us (tv_remain a b) = max 0 (us b - us a) \<and> tv_usec (tv_remain a b) \<in> {0..<1000000}"
proof -
  define ds du where "ds = tv_sec b - tv_sec a" and "du = tv_usec b - tv_usec a"
  have r: "- (2 ^ 31) \<le> ds" "ds < 2 ^ 31" "- 1000000 < du" "du < 1000000"
    using assms by (auto simp: tv_ok_def ds_def du_def)
  then have s: "sint (of_int ds :: u32) = ds" "sint (of_int du :: u32) = du" by (intro sint_small; simp)+
  have eq: "tv_remain a b =
      (if ds > 0 then (if du < 0 then \<lparr>tv_sec = ds - 1, tv_usec = du + 1000000\<rparr> else \<lparr>tv_sec = ds, tv_usec = du\<rparr>)
       else if ds = 0 then (if du < 0 then \<lparr>tv_sec = ds, tv_usec = 0\<rparr> else \<lparr>tv_sec = ds, tv_usec = du\<rparr>)
       else \<lparr>tv_sec = 0, tv_usec = 0\<rparr>)"
    unfolding tv_remain_def Let_def ds_def [symmetric] du_def [symmetric] s ..
  have "us b - us a = ds * 1000000 + du" by (simp add: us_def ds_def du_def)
  then show ?thesis using r by (auto simp: eq us_def max_def)
qed

lemma sdiv_error: "\<bar>(d sdiv 1000) * 1000 - d\<bar> < (1000 :: int)"
proof -
  have e: "0 \<le> (n :: int) \<Longrightarrow> \<bar>n div 1000 * 1000 - n\<bar> < 1000" for n
    using div_mult_mod_eq [of n 1000] pos_mod_bound [of 1000 n] pos_mod_sign [of 1000 n] by linarith
  show ?thesis
  proof (cases "0 \<le> d")
    case True
    then show ?thesis using e [of d] by (simp add: sdiv_nonneg)
  next
    case False
    then have "d sdiv 1000 = - (- d div 1000)" by (simp add: signed_divide_int_def sgn_if)
    then show ?thesis using e [of "- d"] False by linarith
  qed
qed

lemma tv_ms_elapsed_us:
  assumes "tv_ok a" and "tv_ok b" and le: "us a \<le> us b"
  shows "\<bar>uint (tv_ms_elapsed a b) * 1000 - (us b - us a)\<bar> < 1000"
proof -
  define ds du where "ds = tv_sec b - tv_sec a" and "du = tv_usec b - tv_usec a"
  have u: "us b - us a = ds * 1000000 + du" by (simp add: us_def ds_def du_def)
  have r: "ds < 2 ^ 31" "- 1000000 < du" "du < 1000000"
    using assms by (auto simp: tv_ok_def ds_def du_def)
  define x where "x = du sdiv 1000"
  have err: "x * 1000 - du < 1000" "du - x * 1000 < 1000" using sdiv_error [of du] unfolding x_def by linarith+
  define v where "v = ds * 1000 + x"
  have lo: "- 1000 < v * 1000" using err(2) u le unfolding v_def by simp
  have hi: "v * 1000 < 2 ^ 31 * 1000000 + 2000000" using err r unfolding v_def by simp
  have "0 \<le> v" "v < 2 ^ 64" using lo hi by simp_all
  moreover have "tv_ms_elapsed a b = of_int v"
    by (simp add: tv_ms_elapsed_def ds_def du_def v_def x_def)
  ultimately have "uint (tv_ms_elapsed a b) = v" using uint_of_int_small [of v, where 'a = 64] by simp
  then show ?thesis using err u unfolding v_def by (simp add: abs_less_iff)
qed

text \<open>The operators are exact on normalised dates: additions give a normalised date the
  right number of microseconds (or milliseconds) later, \<open>tv_remain\<close> is the time left, zero once the date has
  passed, and \<open>tv_ms_elapsed\<close> is off by less than one millisecond.\<close>

theorem tv_arith_us:
  assumes "tv_ok a" and "tv_ok b"
  shows "us (tv_add a b) = us a + us b \<and> tv_usec (tv_add a b) \<in> {0..<1000000} \<and>
         tv_add2 a b = tv_add a b \<and> tv_add_ifset a b = Some (tv_add a b) \<and>
         (0 \<le> ms \<longrightarrow> us (tv_ms_add a ms) = us a + ms * 1000 \<and> tv_usec (tv_ms_add a ms) \<in> {0..<1000000}) \<and>
         us (tv_remain a b) = max 0 (us b - us a) \<and> tv_usec (tv_remain a b) \<in> {0..<1000000} \<and>
         (us a \<le> us b \<longrightarrow> \<bar>uint (tv_ms_elapsed a b) * 1000 - (us b - us a)\<bar> < 1000)"
proof -
  note ok = assms [unfolded tv_ok_def]
  have "us (tv_add a b) = us a + us b \<and> tv_usec (tv_add a b) \<in> {0..<1000000}"
    using ok by (auto simp: tv_add_def us_def Let_def)
  moreover have "tv_add2 a b = tv_add a b" by (simp add: tv_add2_def tv_add_def Let_def)
  moreover have "tv_add_ifset a b = Some (tv_add a b)"
    using ok by (simp add: tv_add_ifset_def tv_add_def Let_def tv_iseternity_def TV_ETERNITY_def)
  ultimately show ?thesis
    using tv_ms_add_us [OF assms(1)] tv_remain_us [OF assms] tv_ms_elapsed_us [OF assms] by blast
qed

theorem tv_arith_us_witness:
  "us (tv_ms_add \<lparr>tv_sec = 1, tv_usec = 999000\<rparr> 1500) = 3499000 \<and>
   us (tv_remain \<lparr>tv_sec = 1, tv_usec = 999000\<rparr> \<lparr>tv_sec = 2, tv_usec = 1\<rparr>) = 1001"
  using tv_arith_us [of "\<lparr>tv_sec = 1, tv_usec = 999000\<rparr>" "\<lparr>tv_sec = 2, tv_usec = 1\<rparr>" 1500]
  by (simp add: tv_ok_def us_def)

text \<open>\<open>tv_update_date\<close> makes \<open>now\<close> the system date it read, whatever the poll's time-out and outcome
  and whatever \<open>now\<close> was before: \<open>now_ms\<close> is that date in milliseconds modulo \<open>2 ^ 32\<close> and the
  parts of the second are in range. When the system clock steps back, so does \<open>now\<close>.\<close>

theorem tv_update_date_follows_clock:
  assumes "tv_ok t2"
  shows "now (tv_update_date t1 t2 w i c) = t2 \<and> date (tv_update_date t1 t2 w i c) = t1 \<and>
         uint (now_ms (tv_update_date t1 t2 w i c)) = (us t2 div 1000) mod 2 ^ 32 \<and>
         uint (curr_sec_ms (tv_update_date t1 t2 w i c)) = tv_usec t2 div 1000 \<and>
         curr_sec_ms (tv_update_date t1 t2 w i c) < 1000 \<and>
         uint (ms_left_scaled (tv_update_date t1 t2 w i c)) = (999 - tv_usec t2 div 1000) * 4294967"
proof -
  define m where "m = tv_usec t2 div 1000"
  have m: "0 \<le> m" "m < 1000" using assms by (auto simp: m_def tv_ok_def)
  have sd: "tv_usec t2 sdiv 1000 = m" using assms by (simp add: m_def tv_ok_def sdiv_nonneg)
  have u: "us t2 div 1000 = tv_sec t2 * 1000 + m" by (simp add: us_def m_def)
  have cur: "uint (of_int m :: u32) = m" using m uint_of_int_small [of m, where 'a = 32] by simp
  have "(999 - of_int m) * 4294967 = (of_int ((999 - m) * 4294967) :: u32)" by simp
  moreover have "uint (of_int ((999 - m) * 4294967) :: u32) = (999 - m) * 4294967"
    using m by (intro uint_of_int_small) simp_all
  ultimately have left: "uint ((999 - of_int m) * 4294967 :: u32) = (999 - m) * 4294967" by simp
  have "of_int (tv_sec t2 * 1000) + of_int m = (of_int (tv_sec t2 * 1000 + m) :: u32)" by simp
  then have ms: "uint (of_int (tv_sec t2 * 1000) + of_int m :: u32) = (us t2 div 1000) mod 2 ^ 32"
    by (simp only: u unsigned_of_int take_bit_eq_mod) simp
  have "(of_int m :: u32) < 1000" using m cur by (simp add: word_less_def)
  then show ?thesis
    using ms left cur by (simp add: tv_update_date_def Let_def sd m_def [symmetric])
qed

theorem tv_update_date_follows_clock_witness:
  "\<forall>t1 c. uint (now_ms (tv_update_date t1 \<lparr>tv_sec = 4294968, tv_usec = 500000\<rparr> 0 1 c)) = 1204"
proof (intro allI)
  fix t1 c
  show "uint (now_ms (tv_update_date t1 \<lparr>tv_sec = 4294968, tv_usec = 500000\<rparr> 0 1 c)) = 1204"
    using tv_update_date_follows_clock [of "\<lparr>tv_sec = 4294968, tv_usec = 500000\<rparr>" t1 0 1 c]
    by (simp add: tv_ok_def us_def)
qed

end
