(* ===== verification/Poller.thy ===== *)
theory Poller
  imports Timeval
begin

text \<open>
  The event poller and the table of file descriptors, \<open>src/src/poller.c\<close>, \<open>src/src/fd.c\<close>, \<open>src/src/fd.h\<close> and
  \<open>src/src/type/fd.h\<close>. \<open>fd_evts\<close> packs two bits per descriptor, sixteen to a word; changes are
  collected in \<open>chg_list\<close> with the mask the kernel knows and given to \<open>epoll_ctl\<close> before the next wait.

  The kernel is a parameter: a state \<open>'k\<close> with the functions \<open>epoll_ctl\<close>, \<open>close\<close> and \<open>epoll_wait\<close>, collected
  in a record; what the code relies on is the predicate \<open>epoll_spec\<close>, which states the documented
  behaviour of the epoll interface. The callbacks of a descriptor are a parameter too. \<open>chg_list\<close> is the
  list of the entries in use (\<open>nbchanges\<close> is its length) and \<open>chg_ptr\<close> gives the index of an entry.
\<close>

section \<open>Constants and state\<close>

definition FD_STCLOSE :: u8 where "FD_STCLOSE = 0"
definition FD_STLISTEN :: u8 where "FD_STLISTEN = 1"
definition FD_STCONN :: u8 where "FD_STCONN = 2"
definition FD_STREADY :: u8 where "FD_STREADY = 3"
definition FD_STERROR :: u8 where "FD_STERROR = 4"

definition DIR_RD :: nat where "DIR_RD = 0"
definition DIR_WR :: nat where "DIR_WR = 1"
definition DIR_CLO :: nat where "DIR_CLO = 2"

definition ZB_NOP :: u32 where "ZB_NOP = 0"
definition ZB_CLOSE_RD :: u32 where "ZB_CLOSE_RD = 0x1"
definition ZB_CLOSE_WR :: u32 where "ZB_CLOSE_WR = 0x2"
definition ZB_CLOSE :: u32 where "ZB_CLOSE = (ZB_CLOSE_RD OR ZB_CLOSE_WR)"
definition ZB_SET_RD :: u32 where "ZB_SET_RD = 0x4"
definition ZB_SET_WR :: u32 where "ZB_SET_WR = 0x8"
definition ZB_FAIL :: u32 where "ZB_FAIL = 0xff"

text \<open>The event bits of \<open>sys/epoll.h\<close> and its three operations.\<close>

definition EPOLLIN :: u32 where "EPOLLIN = 0x1"
definition EPOLLOUT :: u32 where "EPOLLOUT = 0x4"
definition EPOLLERR :: u32 where "EPOLLERR = 0x8"
definition EPOLLHUP :: u32 where "EPOLLHUP = 0x10"

datatype epoll_op = EPOLL_CTL_ADD | EPOLL_CTL_DEL | EPOLL_CTL_MOD

record 'k sys =
  epoll_ctl :: "epoll_op \<Rightarrow> nat \<Rightarrow> u32 \<Rightarrow> 'k \<Rightarrow> 'k"
  close_fd :: "nat \<Rightarrow> 'k \<Rightarrow> 'k"
  epoll_wait :: "int \<Rightarrow> 'k \<Rightarrow> int \<times> (nat \<times> u32) list"

record 'k poller =
  fd_evts :: "u32 list"
  chg_list :: "(u32 \<times> nat) list"      \<comment> \<open>\<open>prev\<close> and \<open>fd\<close>\<close>
  chg_ptr :: "nat \<Rightarrow> nat option"
  fd_state :: "nat \<Rightarrow> u8"               \<comment> \<open>\<open>fdtab[fd].state\<close>\<close>
  maxfd :: nat
  clk :: clock
  kern :: 'k

type_synonym 'k handlers = "nat \<Rightarrow> nat \<Rightarrow> 'k poller \<Rightarrow> u32 \<times> 'k poller"

section \<open>Descriptor masks\<close>

definition DIR2MSK :: "nat \<Rightarrow> u32" where
  "DIR2MSK dir = of_nat dir + 1"

definition FD2OFS :: "nat \<Rightarrow> nat" where
  "FD2OFS fd = drop_bit 4 fd"

definition FD2BIT :: "nat \<Rightarrow> nat" where
  "FD2BIT fd = push_bit 1 (fd AND 0xF)"

definition FD2MSK :: "nat \<Rightarrow> u32" where
  "FD2MSK fd = push_bit (FD2BIT fd) 3"

text \<open>The two bits of a descriptor, as every function reads them.\<close>

definition evt :: "u32 list \<Rightarrow> nat \<Rightarrow> u32" where
  "evt evts fd = drop_bit (FD2BIT fd) (evts ! FD2OFS fd) AND 3"

definition fd_is_set :: "nat \<Rightarrow> nat \<Rightarrow> 'k poller \<Rightarrow> bool" where
  "fd_is_set fd dir p \<longleftrightarrow> drop_bit (FD2BIT fd) (fd_evts p ! FD2OFS fd) AND DIR2MSK dir \<noteq> 0"

definition dmsk2event :: "u32 \<Rightarrow> u32" where
  "dmsk2event m = [0, EPOLLIN, EPOLLOUT, EPOLLIN OR EPOLLOUT] ! unat m"

section \<open>Changes\<close>

definition flush_one :: "'k sys \<Rightarrow> u32 \<times> nat \<Rightarrow> 'k poller \<Rightarrow> 'k poller" where
  "flush_one sys c p =
     (let prev = fst c; fd = snd c;
          p1 = p\<lparr>chg_ptr := (chg_ptr p)(fd := None)\<rparr>;
          next = evt (fd_evts p1) fd
      in if prev = next then p1
         else let opcode = (if prev \<noteq> 0 then (if next = 0 then EPOLL_CTL_DEL else EPOLL_CTL_MOD)
                            else EPOLL_CTL_ADD)
              in p1\<lparr>kern := epoll_ctl sys opcode fd (dmsk2event next) (kern p1)\<rparr>)"

definition fd_flush_changes :: "'k sys \<Rightarrow> 'k poller \<Rightarrow> 'k poller" where
  "fd_flush_changes sys p = (fold (flush_one sys) (chg_list p) p)\<lparr>chg_list := []\<rparr>"

definition alloc_chg_list :: "nat \<Rightarrow> u32 \<Rightarrow> 'k poller \<Rightarrow> 'k poller" where
  "alloc_chg_list fd old_evt p =
     (if chg_ptr p fd \<noteq> None then p
      else p\<lparr>chg_list := chg_list p @ [(old_evt, fd)],
             chg_ptr := (chg_ptr p)(fd := Some (length (chg_list p)))\<rparr>)"

definition fd_set :: "nat \<Rightarrow> nat \<Rightarrow> 'k poller \<Rightarrow> bool \<times> 'k poller" where
  "fd_set fd dir p =
     (let ofs = FD2OFS fd; dmsk = DIR2MSK dir; old_evt = evt (fd_evts p) fd
      in if old_evt AND dmsk \<noteq> 0 then (False, p)
         else let p1 = alloc_chg_list fd old_evt p
              in (True, p1\<lparr>fd_evts := (fd_evts p1)[ofs := (fd_evts p1 ! ofs) OR push_bit (FD2BIT fd) dmsk]\<rparr>))"

definition fd_clr :: "nat \<Rightarrow> nat \<Rightarrow> 'k poller \<Rightarrow> bool \<times> 'k poller" where
  "fd_clr fd dir p =
     (let ofs = FD2OFS fd; dmsk = DIR2MSK dir; old_evt = evt (fd_evts p) fd
      in if old_evt AND dmsk = 0 then (False, p)
         else let p1 = alloc_chg_list fd old_evt p
              in (True, p1\<lparr>fd_evts := (fd_evts p1)[ofs := (fd_evts p1 ! ofs) AND NOT (push_bit (FD2BIT fd) dmsk)]\<rparr>))"

definition fd_rem :: "nat \<Rightarrow> 'k poller \<Rightarrow> 'k poller" where
  "fd_rem fd p =
     (let ofs = FD2OFS fd; old_evt = evt (fd_evts p) fd
      in if old_evt = 0 then p
         else let p1 = alloc_chg_list fd old_evt p
              in p1\<lparr>fd_evts := (fd_evts p1)[ofs := (fd_evts p1 ! ofs) AND NOT (FD2MSK fd)]\<rparr>)"

definition fd_clo :: "nat \<Rightarrow> 'k poller \<Rightarrow> 'k poller" where
  "fd_clo fd p =
     (let ofs = FD2OFS fd;
          p1 = p\<lparr>fd_evts := (fd_evts p)[ofs := (fd_evts p ! ofs) AND NOT (FD2MSK fd)]\<rparr>
      in case chg_ptr p1 fd of
           None \<Rightarrow> p1
         | Some i \<Rightarrow> p1\<lparr>chg_list := (chg_list p1)[i := (0, snd (chg_list p1 ! i))],
                          chg_ptr := (chg_ptr p1)(fd := None)\<rparr>)"

section \<open>The table of descriptors\<close>

text \<open>The loop at the end of \<open>fd_delete\<close>.\<close>

fun lower_maxfd :: "(nat \<Rightarrow> u8) \<Rightarrow> nat \<Rightarrow> nat" where
  "lower_maxfd st 0 = 0"
| "lower_maxfd st (Suc n) = (if st n = FD_STCLOSE then lower_maxfd st n else Suc n)"

definition fd_delete :: "'k sys \<Rightarrow> nat \<Rightarrow> 'k poller \<Rightarrow> 'k poller" where
  "fd_delete sys fd p =
     (let p1 = fd_clo fd p;
          p2 = p1\<lparr>kern := close_fd sys fd (kern p1)\<rparr>;
          p3 = p2\<lparr>fd_state := (fd_state p2)(fd := FD_STCLOSE)\<rparr>
      in p3\<lparr>maxfd := lower_maxfd (fd_state p3) (maxfd p3)\<rparr>)"

definition fd_insert :: "nat \<Rightarrow> 'k poller \<Rightarrow> 'k poller" where
  "fd_insert fd p = (if fd + 1 > maxfd p then p\<lparr>maxfd := fd + 1\<rparr> else p)"

text \<open>\<open>fd_init\<close> and \<open>poll_init\<close> for \<open>maxconn\<close> descriptors: \<open>fd_set_bytes\<close> bytes of \<open>fd_evts\<close>, whole words of
  which the list has.\<close>

definition fd_set_bytes :: "nat \<Rightarrow> nat" where
  "fd_set_bytes maxconn = 4 * (maxconn + 15) div 16"

definition fd_init :: "nat \<Rightarrow> 'k poller \<Rightarrow> 'k poller" where
  "fd_init maxconn p = p\<lparr>fd_state := (\<lambda>i. if i < maxconn then FD_STCLOSE else fd_state p i)\<rparr>"

definition poll_init :: "nat \<Rightarrow> 'k \<Rightarrow> 'k poller \<Rightarrow> 'k poller" where
  "poll_init maxconn k p =
     p\<lparr>fd_evts := replicate (fd_set_bytes maxconn div 4) 0, chg_list := [], chg_ptr := (\<lambda>_. None), kern := k\<rparr>"

text \<open>\<open>poll_term\<close> closes the epoll descriptor and frees the tables; \<open>poll_fork\<close>, in a new process, closes it and creates another
  one. What the kernel does are parameters. \<open>poll_fork\<close> returns 0 when the kernel refuses.\<close>

definition poll_term :: "('k \<Rightarrow> 'k) \<Rightarrow> 'k poller \<Rightarrow> 'k poller" where
  "poll_term close_epoll p = p\<lparr>fd_evts := [], chg_list := [], chg_ptr := (\<lambda>_. None), kern := close_epoll (kern p)\<rparr>"

definition poll_fork :: "('k \<Rightarrow> int \<times> 'k) \<Rightarrow> 'k poller \<Rightarrow> int \<times> 'k poller" where
  "poll_fork new_epoll p = (let (fd, k) = new_epoll (kern p) in (if fd < 0 then 0 else 1, p\<lparr>kern := k\<rparr>))"

section \<open>Events\<close>

definition recheck_state :: "'k sys \<Rightarrow> 'k handlers \<Rightarrow> nat \<Rightarrow> u32 \<Rightarrow> 'k poller \<Rightarrow> 'k poller" where
  "recheck_state sys cb fd flag p =
     (let p1 = (if flag = ZB_CLOSE then snd (cb DIR_CLO fd (fd_delete sys fd p))
                else let p' = (if flag AND ZB_CLOSE_RD \<noteq> 0 then snd (fd_clr fd DIR_RD p) else p)
                     in if flag AND ZB_CLOSE_WR \<noteq> 0 then snd (fd_clr fd DIR_WR p') else p');
          p2 = (if flag AND ZB_SET_RD \<noteq> 0 then snd (fd_set fd DIR_RD p1) else p1)
      in if flag AND ZB_SET_WR \<noteq> 0 then snd (fd_set fd DIR_WR p2) else p2)"

definition poll_event :: "'k sys \<Rightarrow> 'k handlers \<Rightarrow> nat \<times> u32 \<Rightarrow> 'k poller \<Rightarrow> 'k poller" where
  "poll_event sys cb e p =
     (let fd = fst e; event = snd e
      in if fd_state p fd = FD_STCLOSE then p
         else let (ret1, p1) = (if event AND (EPOLLIN OR EPOLLERR OR EPOLLHUP) \<noteq> 0
                                then cb DIR_RD fd p else (ZB_NOP, p));
                  p2 = recheck_state sys cb fd ret1 p1
              in if fd_state p2 fd = FD_STCLOSE then p2
                 else let (ret2, p3) = (if event AND (EPOLLOUT OR EPOLLERR OR EPOLLHUP) \<noteq> 0
                                        then cb DIR_WR fd p2 else (ret1, p2))
                      in recheck_state sys cb fd ret2 p3)"

definition MAX_POLL_DELAY_MS :: int where
  "MAX_POLL_DELAY_MS = 100"

definition wait_time :: "int \<Rightarrow> int" where
  "wait_time exp = (if exp = 0 \<or> exp > MAX_POLL_DELAY_MS then MAX_POLL_DELAY_MS else exp)"

definition poll_do :: "'k sys \<Rightarrow> 'k handlers \<Rightarrow> timeval \<times> timeval \<Rightarrow> int \<Rightarrow> 'k poller \<Rightarrow> 'k poller" where
  "poll_do sys cb t exp p =
     (let p1 = (if chg_list p \<noteq> [] then fd_flush_changes sys p else p);
          w = wait_time exp;
          (n, events) = epoll_wait sys w (kern p1);
          p2 = p1\<lparr>clk := tv_update_date (fst t) (snd t) w n (clk p1)\<rparr>
      in fold (poll_event sys cb) (take (nat n) events) p2)"

section \<open>Two bits per descriptor\<close>

lemma FD2OFS_div: "FD2OFS fd = fd div 16"
  by (simp add: FD2OFS_def drop_bit_eq_div)

lemma FD2BIT_mod: "FD2BIT fd = 2 * (fd mod 16)"
proof -
  have "fd AND 15 = take_bit 4 fd" by (simp add: take_bit_eq_mask mask_eq_exp_minus_1)
  then show ?thesis by (simp add: FD2BIT_def push_bit_eq_mult take_bit_eq_mod)
qed

lemma bit_and_three: "bit (w AND 3 :: u32) n \<longleftrightarrow> n < 2 \<and> bit w n"
proof -
  have "w AND 3 = take_bit 2 w" by (simp add: take_bit_eq_mask mask_eq_exp_minus_1)
  then show ?thesis by (simp add: bit_take_bit_iff)
qed

lemma bit_evt: "bit (evt es fd) n \<longleftrightarrow> n < 2 \<and> bit (es ! FD2OFS fd) (FD2BIT fd + n)"
  by (simp add: evt_def bit_and_three bit_drop_bit_eq)

lemma evt_bound: "evt es fd AND 3 = evt es fd"
  by (simp add: evt_def and.assoc)

lemma fd_bits_apart:
  assumes "fd \<noteq> fd'" and "FD2OFS fd = FD2OFS fd'" and "n < 2" and "n' < 2"
  shows "FD2BIT fd + n \<noteq> FD2BIT fd' + n'"
proof -
  have "fd mod 16 \<noteq> fd' mod 16"
    using assms(1,2) unfolding FD2OFS_div by (metis div_mult_mod_eq)
  moreover have "2 * a + n \<noteq> 2 * b + n'" if "a \<noteq> b" for a b using that assms(3,4) by presburger
  ultimately show ?thesis unfolding FD2BIT_mod by blast
qed

lemma fd_bit_small: "n < 2 \<Longrightarrow> FD2BIT fd + n < 32"
proof -
  assume "n < 2"
  moreover have "fd mod 16 < 16" by simp
  ultimately show ?thesis unfolding FD2BIT_mod by linarith
qed

text \<open>Masks of two bits written into the word of a descriptor change that descriptor only.\<close>

lemma evt_update:
  assumes ofs: "FD2OFS fd < length es"
    and w: "\<And>n. n < 2 \<Longrightarrow> bit w (FD2BIT fd + n) \<longleftrightarrow> bit m n"
    and keep: "\<And>i. i < FD2BIT fd \<or> FD2BIT fd + 2 \<le> i \<Longrightarrow> bit w i \<longleftrightarrow> bit (es ! FD2OFS fd) i"
  shows "evt (es[FD2OFS fd := w]) fd' = (if fd' = fd then m AND 3 else evt es fd')"
proof (rule bit_eqI)
  fix n
  show "bit (evt (es[FD2OFS fd := w]) fd') n = bit (if fd' = fd then m AND 3 else evt es fd') n"
  proof (cases "fd' = fd")
    case True
    then show ?thesis using w [of n] ofs by (auto simp: bit_evt bit_and_three)
  next
    case False
    show ?thesis
    proof (cases "FD2OFS fd' = FD2OFS fd \<and> n < 2")
      case True
      have "FD2BIT fd' + n \<noteq> FD2BIT fd + 0" "FD2BIT fd' + n \<noteq> FD2BIT fd + 1"
        using fd_bits_apart [OF False, of n 0] fd_bits_apart [OF False, of n 1] True by auto
      then have "bit w (FD2BIT fd' + n) \<longleftrightarrow> bit (es ! FD2OFS fd) (FD2BIT fd' + n)"
        by (intro keep) linarith
      then show ?thesis using False True ofs by (simp add: bit_evt)
    qed (use False ofs in \<open>auto simp: bit_evt nth_list_update\<close>)
  qed
qed

lemma two_bits: "(m :: u32) AND 3 = m \<Longrightarrow> bit m n \<Longrightarrow> n < 2"
  by (metis bit_and_three)

lemma evt_or:
  assumes ofs: "FD2OFS fd < length es" and m: "m AND 3 = m"
  shows "evt (es[FD2OFS fd := (es ! FD2OFS fd) OR push_bit (FD2BIT fd) m]) fd' =
         (if fd' = fd then evt es fd OR m else evt es fd')"
proof -
  have "evt (es[FD2OFS fd := (es ! FD2OFS fd) OR push_bit (FD2BIT fd) m]) fd' =
      (if fd' = fd then (evt es fd OR m) AND 3 else evt es fd')"
    using fd_bit_small [of _ fd]
    by (intro evt_update [OF ofs]) (auto simp: bit_or_iff bit_push_bit_iff bit_evt dest!: two_bits [OF m])
  moreover have "(evt es fd OR m) AND 3 = evt es fd OR m"
    by (simp add: bit.conj_disj_distrib2 evt_bound m)
  ultimately show ?thesis by simp
qed

lemma evt_and_not:
  assumes ofs: "FD2OFS fd < length es" and m: "m AND 3 = m"
  shows "evt (es[FD2OFS fd := (es ! FD2OFS fd) AND NOT (push_bit (FD2BIT fd) m)]) fd' =
         (if fd' = fd then evt es fd AND NOT m else evt es fd')"
proof -
  have "evt (es[FD2OFS fd := (es ! FD2OFS fd) AND NOT (push_bit (FD2BIT fd) m)]) fd' =
      (if fd' = fd then (evt es fd AND NOT m) AND 3 else evt es fd')"
    using fd_bit_small [of _ fd]
    by (intro evt_update [OF ofs])
       (auto simp: bit_and_iff bit_not_iff bit_push_bit_iff bit_evt
         dest!: two_bits [OF m] dest: bit_imp_le_length)
  moreover have "(evt es fd AND NOT m) AND 3 = evt es fd AND NOT m"
    by (metis and.assoc and.commute evt_bound)
  ultimately show ?thesis by simp
qed

section \<open>The kernel's view\<close>

text \<open>The documented behaviour of \<open>epoll_ctl(2)\<close> and \<open>close(2)\<close> on the interest list: \<open>ADD\<close> fails on a
  descriptor already registered (\<open>EEXIST\<close>), \<open>MOD\<close> and \<open>DEL\<close> on one that is not (\<open>ENOENT\<close>), closing a
  descriptor removes it.\<close>

definition epoll_spec :: "'k sys \<Rightarrow> ('k \<Rightarrow> nat \<Rightarrow> u32 option) \<Rightarrow> bool" where
  "epoll_spec sys interest \<longleftrightarrow>
     (\<forall>op fd ev k. interest (epoll_ctl sys op fd ev k) =
        (case op of
           EPOLL_CTL_ADD \<Rightarrow> if interest k fd = None then (interest k)(fd \<mapsto> ev) else interest k
         | EPOLL_CTL_MOD \<Rightarrow> if interest k fd = None then interest k else (interest k)(fd \<mapsto> ev)
         | EPOLL_CTL_DEL \<Rightarrow> (interest k)(fd := None))) \<and>
     (\<forall>fd k. interest (close_fd sys fd k) = (interest k)(fd := None))"

definition kview :: "u32 \<Rightarrow> u32 option" where
  "kview m = (if m = 0 then None else Some (dmsk2event m))"

text \<open>A descriptor with no change pending is known to the kernel with its mask; a pending change has the
  mask the kernel knows; only entries of closed descriptors, whose mask is zero, are not pointed to.\<close>

definition entry_ok :: "('k \<Rightarrow> nat \<Rightarrow> u32 option) \<Rightarrow> 'k poller \<Rightarrow> nat \<Rightarrow> u32 \<times> nat \<Rightarrow> bool" where
  "entry_ok interest p i c \<longleftrightarrow>
     FD2OFS (snd c) < length (fd_evts p) \<and> interest (kern p) (snd c) = kview (fst c) \<and>
     (fst c \<noteq> 0 \<longrightarrow> chg_ptr p (snd c) = Some i)"

definition poll_inv :: "('k \<Rightarrow> nat \<Rightarrow> u32 option) \<Rightarrow> 'k poller \<Rightarrow> bool" where
  "poll_inv interest p \<longleftrightarrow>
     (\<forall>fd. FD2OFS fd < length (fd_evts p) \<and> chg_ptr p fd = None \<longrightarrow>
           interest (kern p) fd = kview (evt (fd_evts p) fd)) \<and>
     (\<forall>i < length (chg_list p). entry_ok interest p i (chg_list p ! i)) \<and>
     (\<forall>fd i. chg_ptr p fd = Some i \<longrightarrow> i < length (chg_list p) \<and> snd (chg_list p ! i) = fd)"

lemma poll_invI:
  assumes "\<And>fd. FD2OFS fd < length (fd_evts p) \<Longrightarrow> chg_ptr p fd = None \<Longrightarrow>
             interest (kern p) fd = kview (evt (fd_evts p) fd)"
    and "\<And>i. i < length (chg_list p) \<Longrightarrow> entry_ok interest p i (chg_list p ! i)"
    and "\<And>fd i. chg_ptr p fd = Some i \<Longrightarrow> i < length (chg_list p) \<and> snd (chg_list p ! i) = fd"
  shows "poll_inv interest p"
  using assms unfolding poll_inv_def by blast

lemma poll_invD:
  assumes "poll_inv interest p"
  shows "FD2OFS fd < length (fd_evts p) \<Longrightarrow> chg_ptr p fd = None \<Longrightarrow> interest (kern p) fd = kview (evt (fd_evts p) fd)"
    "i < length (chg_list p) \<Longrightarrow> entry_ok interest p i (chg_list p ! i)"
    "chg_ptr p fd = Some i \<Longrightarrow> i < length (chg_list p)"
    "chg_ptr p fd = Some i \<Longrightarrow> snd (chg_list p ! i) = fd"
  using assms unfolding poll_inv_def by blast+

text \<open>Recording a change and writing the mask.\<close>

lemma alloc_then_write:
  assumes inv: "poll_inv interest p" and fd: "FD2OFS fd < length (fd_evts p)"
    and len: "length es = length (fd_evts p)"
    and other: "\<And>fd'. fd' \<noteq> fd \<Longrightarrow> evt es fd' = evt (fd_evts p) fd'"
  shows "poll_inv interest ((alloc_chg_list fd (evt (fd_evts p) fd) p)\<lparr>fd_evts := es\<rparr>)" (is "poll_inv _ ?p")
proof (cases "chg_ptr p fd")
  case None
  have r: "fd_evts ?p = es" "kern ?p = kern p" "chg_list ?p = chg_list p @ [(evt (fd_evts p) fd, fd)]"
      "chg_ptr ?p = (chg_ptr p)(fd := Some (length (chg_list p)))"
    using None by (simp_all add: alloc_chg_list_def)
  show ?thesis
  proof (rule poll_invI)
    fix fd' assume "FD2OFS fd' < length (fd_evts ?p)" "chg_ptr ?p fd' = None"
    then show "interest (kern ?p) fd' = kview (evt (fd_evts ?p) fd')"
      using poll_invD(1) [OF inv, of fd'] other [of fd'] len by (auto simp: r split: if_splits)
  next
    fix i assume "i < length (chg_list ?p)"
    then show "entry_ok interest ?p i (chg_list ?p ! i)"
      using poll_invD(1) [OF inv fd None] poll_invD(2) [OF inv, of i] None fd len
      by (auto simp: r entry_ok_def nth_append less_Suc_eq)
  next
    fix fd' i assume "chg_ptr ?p fd' = Some i"
    then show "i < length (chg_list ?p) \<and> snd (chg_list ?p ! i) = fd'"
      using poll_invD(3,4) [OF inv, of fd' i] by (auto simp: r nth_append split: if_splits)
  qed
next
  case (Some i)
  then have "evt es fd' = evt (fd_evts p) fd'" if "chg_ptr p fd' = None" for fd'
    using that by (intro other) auto
  then show ?thesis
    using inv len Some unfolding poll_inv_def alloc_chg_list_def entry_ok_def by simp
qed

lemma alloc_evts [simp]:
  "fd_evts (alloc_chg_list fd m p) = fd_evts p" "kern (alloc_chg_list fd m p) = kern p"
  "fd_state (alloc_chg_list fd m p) = fd_state p" "maxfd (alloc_chg_list fd m p) = maxfd p"
  by (simp_all add: alloc_chg_list_def)

lemma dir_mask: "dir < 2 \<Longrightarrow> DIR2MSK dir AND 3 = DIR2MSK dir"
  by (auto simp: DIR2MSK_def less_2_cases_iff)

lemma bit_dir: "dir < 2 \<Longrightarrow> bit (DIR2MSK dir) n \<longleftrightarrow> n = dir"
proof -
  assume "dir < 2"
  then have "DIR2MSK dir = 2 ^ dir" by (auto simp: DIR2MSK_def less_2_cases_iff)
  then show ?thesis using \<open>dir < 2\<close> by (auto simp: bit_exp_iff)
qed

lemma fd_set_effect:
  assumes inv: "poll_inv interest p" and fd: "FD2OFS fd < length (fd_evts p)" and dir: "dir < 2"
  shows "poll_inv interest (snd (fd_set fd dir p)) \<and> length (fd_evts (snd (fd_set fd dir p))) = length (fd_evts p) \<and>
         evt (fd_evts (snd (fd_set fd dir p))) fd' =
           (if fd' = fd then evt (fd_evts p) fd OR DIR2MSK dir else evt (fd_evts p) fd')"
proof (cases "evt (fd_evts p) fd AND DIR2MSK dir = 0")
  case True
  note w = evt_or [OF fd dir_mask [OF dir]]
  show ?thesis
    using True w alloc_then_write [OF inv fd] by (simp add: fd_set_def Let_def)
next
  case False
  have "evt (fd_evts p) fd OR DIR2MSK dir = evt (fd_evts p) fd"
  proof -
    have "bit (evt (fd_evts p) fd) dir"
    proof (rule ccontr)
      assume "\<not> bit (evt (fd_evts p) fd) dir"
      then have "evt (fd_evts p) fd AND DIR2MSK dir = 0"
        by (intro bit_eqI) (auto simp: bit_and_iff bit_dir [OF dir])
      with False show False by simp
    qed
    then show ?thesis by (intro bit_eqI) (auto simp: bit_or_iff bit_dir [OF dir])
  qed
  then show ?thesis using False inv by (simp add: fd_set_def Let_def)
qed

lemma fd_clr_effect:
  assumes inv: "poll_inv interest p" and fd: "FD2OFS fd < length (fd_evts p)" and dir: "dir < 2"
  shows "poll_inv interest (snd (fd_clr fd dir p)) \<and> length (fd_evts (snd (fd_clr fd dir p))) = length (fd_evts p) \<and>
         evt (fd_evts (snd (fd_clr fd dir p))) fd' =
           (if fd' = fd then evt (fd_evts p) fd AND NOT (DIR2MSK dir) else evt (fd_evts p) fd')"
proof (cases "evt (fd_evts p) fd AND DIR2MSK dir = 0")
  case True
  have "evt (fd_evts p) fd AND NOT (DIR2MSK dir) = evt (fd_evts p) fd"
    using True by (auto simp: bit_eq_iff bit_and_iff bit_not_iff dest: bit_imp_le_length)
  then show ?thesis using True inv by (simp add: fd_clr_def Let_def)
next
  case False
  note w = evt_and_not [OF fd dir_mask [OF dir]]
  show ?thesis
    using False w alloc_then_write [OF inv fd] by (simp add: fd_clr_def Let_def)
qed

lemma evt_clear:
  assumes "FD2OFS fd < length es"
  shows "evt (es[FD2OFS fd := (es ! FD2OFS fd) AND NOT (FD2MSK fd)]) fd' = (if fd' = fd then 0 else evt es fd')"
proof -
  have "evt es fd AND NOT 3 = 0" by (simp add: evt_def and.assoc)
  then show ?thesis using evt_and_not [OF assms, of 3] by (simp add: FD2MSK_def)
qed

lemma fd_rem_effect:
  assumes inv: "poll_inv interest p" and fd: "FD2OFS fd < length (fd_evts p)"
  shows "poll_inv interest (fd_rem fd p) \<and> evt (fd_evts (fd_rem fd p)) fd' = (if fd' = fd then 0 else evt (fd_evts p) fd')"
  using evt_clear [OF fd] alloc_then_write [OF inv fd] inv by (simp add: fd_rem_def Let_def)

text \<open>Closing: the entry of a pending change stays in the list, with nothing known to the kernel.\<close>

lemma fd_delete_effect:
  assumes spec: "epoll_spec sys interest" and inv: "poll_inv interest p" and fd: "FD2OFS fd < length (fd_evts p)"
  shows "poll_inv interest (fd_delete sys fd p) \<and>
         evt (fd_evts (fd_delete sys fd p)) fd' = (if fd' = fd then 0 else evt (fd_evts p) fd') \<and>
         interest (kern (fd_delete sys fd p)) = (interest (kern p))(fd := None)"
proof -
  have k: "interest (close_fd sys fd k) = (interest k)(fd := None)" for k
    using spec unfolding epoll_spec_def by blast
  let ?es = "(fd_evts p)[FD2OFS fd := (fd_evts p ! FD2OFS fd) AND NOT (FD2MSK fd)]"
  note c = evt_clear [OF fd]
  have r: "fd_evts (fd_delete sys fd p) = ?es" "interest (kern (fd_delete sys fd p)) = (interest (kern p))(fd := None)"
    by (simp_all add: fd_delete_def fd_clo_def Let_def k split: option.splits)
  have "poll_inv interest (fd_delete sys fd p)" (is "poll_inv _ ?p")
  proof (cases "chg_ptr p fd")
    case None
    then have ch: "chg_list ?p = chg_list p" "chg_ptr ?p = chg_ptr p"
      by (simp_all add: fd_delete_def fd_clo_def Let_def)
    show ?thesis
    proof (rule poll_invI)
      fix fd' assume "FD2OFS fd' < length (fd_evts ?p)" "chg_ptr ?p fd' = None"
      then show "interest (kern ?p) fd' = kview (evt (fd_evts ?p) fd')"
        using poll_invD(1) [OF inv, of fd'] by (simp add: r ch c kview_def)
    next
      fix i assume "i < length (chg_list ?p)"
      then show "entry_ok interest ?p i (chg_list ?p ! i)"
        using poll_invD(2) [OF inv, of i] None by (auto simp: r ch entry_ok_def kview_def)
    qed (use poll_invD(3,4) [OF inv] in \<open>auto simp: ch\<close>)
  next
    case (Some j)
    have ch: "chg_list ?p = (chg_list p)[j := (0, snd (chg_list p ! j))]" "chg_ptr ?p = (chg_ptr p)(fd := None)"
      using Some by (simp_all add: fd_delete_def fd_clo_def Let_def)
    have j: "j < length (chg_list p)" "snd (chg_list p ! j) = fd" using Some poll_invD(3,4) [OF inv] by blast+
    show ?thesis
    proof (rule poll_invI)
      fix fd' assume "FD2OFS fd' < length (fd_evts ?p)" "chg_ptr ?p fd' = None"
      then show "interest (kern ?p) fd' = kview (evt (fd_evts ?p) fd')"
        using poll_invD(1) [OF inv, of fd'] by (auto simp: r ch c kview_def split: if_splits)
    next
      fix i assume "i < length (chg_list ?p)"
      then show "entry_ok interest ?p i (chg_list ?p ! i)"
        using poll_invD(2) [OF inv, of i] Some j fd
        by (cases "i = j") (auto simp: r ch entry_ok_def kview_def)
    next
      fix fd' i assume "chg_ptr ?p fd' = Some i"
      then show "i < length (chg_list ?p) \<and> snd (chg_list ?p ! i) = fd'"
        using poll_invD(3,4) [OF inv, of fd' i] j by (cases "i = j") (auto simp: ch split: if_splits)
    qed
  qed
  then show ?thesis using r c by simp
qed

text \<open>One \<open>epoll_ctl\<close> call brings the kernel's view of a descriptor to the mask wanted, also when an earlier
  entry of the same descriptor already did.\<close>

lemma flush_one_effect:
  assumes spec: "epoll_spec sys interest"
    and old: "interest (kern p) (snd c) \<in> {kview (fst c), kview (evt (fd_evts p) (snd c))}"
  shows "interest (kern (flush_one sys c p)) = (interest (kern p))(snd c := kview (evt (fd_evts p) (snd c))) \<and>
         fd_evts (flush_one sys c p) = fd_evts p \<and> chg_list (flush_one sys c p) = chg_list p \<and>
         chg_ptr (flush_one sys c p) = (chg_ptr p)(snd c := None)"
proof -
  have ctl: "interest (epoll_ctl sys op fd ev k) =
        (case op of
           EPOLL_CTL_ADD \<Rightarrow> if interest k fd = None then (interest k)(fd \<mapsto> ev) else interest k
         | EPOLL_CTL_MOD \<Rightarrow> if interest k fd = None then interest k else (interest k)(fd \<mapsto> ev)
         | EPOLL_CTL_DEL \<Rightarrow> (interest k)(fd := None))" for op fd ev k
    using spec unfolding epoll_spec_def by blast
  show ?thesis
    using old by (auto simp: flush_one_def Let_def ctl kview_def fun_upd_idem_iff split: if_splits)
qed

lemma flush_fold:
  assumes spec: "epoll_spec sys interest"
  shows "(\<And>c. c \<in> set cs \<Longrightarrow> interest (kern p) (snd c) \<in> {kview (fst c), kview (evt (fd_evts p) (snd c))}) \<Longrightarrow>
         interest (kern (fold (flush_one sys) cs p)) =
           (\<lambda>fd. if fd \<in> snd ` set cs then kview (evt (fd_evts p) fd) else interest (kern p) fd) \<and>
         fd_evts (fold (flush_one sys) cs p) = fd_evts p \<and>
         chg_ptr (fold (flush_one sys) cs p) = (\<lambda>fd. if fd \<in> snd ` set cs then None else chg_ptr p fd)"
proof (induction cs arbitrary: p)
  case (Cons c cs)
  let ?p = "flush_one sys c p"
  note e = flush_one_effect [OF spec Cons.prems [of c], simplified]
  have "interest (kern ?p) (snd d) \<in> {kview (fst d), kview (evt (fd_evts ?p) (snd d))}" if "d \<in> set cs" for d
    using Cons.prems [of d] that e by auto
  from Cons.IH [OF this] show ?case using e by (auto simp: fun_eq_iff)
qed (auto simp: fun_eq_iff)

lemma flush_effect:
  assumes spec: "epoll_spec sys interest" and inv: "poll_inv interest p"
  defines "p' \<equiv> fd_flush_changes sys p"
  shows "poll_inv interest p' \<and> chg_list p' = [] \<and> fd_evts p' = fd_evts p \<and>
         (\<forall>fd. FD2OFS fd < length (fd_evts p) \<longrightarrow> interest (kern p') fd = kview (evt (fd_evts p) fd))"
proof -
  have ent: "interest (kern p) (snd c) \<in> {kview (fst c), kview (evt (fd_evts p) (snd c))}"
    if "c \<in> set (chg_list p)" for c
    using that poll_invD(2) [OF inv] by (auto simp: in_set_conv_nth entry_ok_def)
  note f = flush_fold [OF spec ent]
  have listed: "fd \<in> snd ` set (chg_list p)" if "chg_ptr p fd = Some i" for fd i
    using that poll_invD(3,4) [OF inv] by (metis image_eqI nth_mem)
  have clear: "chg_ptr p' fd = None" for fd
  proof (cases "chg_ptr p fd")
    case (Some i)
    then show ?thesis using f listed [OF Some] by (simp add: p'_def fd_flush_changes_def)
  qed (use f in \<open>simp add: p'_def fd_flush_changes_def\<close>)
  have k: "interest (kern p') fd = kview (evt (fd_evts p) fd)" if "FD2OFS fd < length (fd_evts p)" for fd
  proof (cases "fd \<in> snd ` set (chg_list p)")
    case False
    then have "chg_ptr p fd = None" using listed by (cases "chg_ptr p fd") auto
    then show ?thesis using f False poll_invD(1) [OF inv that] by (simp add: p'_def fd_flush_changes_def)
  qed (use f in \<open>simp add: p'_def fd_flush_changes_def\<close>)
  have es: "fd_evts p' = fd_evts p" "chg_list p' = []" using f by (simp_all add: p'_def fd_flush_changes_def)
  have "poll_inv interest p'" by (rule poll_invI) (use k clear es in auto)
  then show ?thesis using k es by blast
qed

section \<open>Properties\<close>


text \<open>C11: after \<open>fd_flush_changes\<close> no change is pending and the kernel's interest list is exactly what
  \<open>fd_evts\<close> says: every descriptor with a mask is registered for those events and no other is registered.\<close>

theorem poll_flush_sync:
  assumes "epoll_spec sys interest" and "poll_inv interest p"
  shows "poll_inv interest (fd_flush_changes sys p) \<and> chg_list (fd_flush_changes sys p) = [] \<and>
         (FD2OFS fd < length (fd_evts p) \<longrightarrow>
            interest (kern (fd_flush_changes sys p)) fd =
              (if evt (fd_evts p) fd = 0 then None else Some (dmsk2event (evt (fd_evts p) fd))))"
  using flush_effect [OF assms] by (simp add: kview_def)

text \<open>A kernel for the examples: the interest list itself.\<close>

definition map_sys :: "(nat \<Rightarrow> u32 option) sys" where
  "map_sys =
     \<lparr>epoll_ctl = (\<lambda>op fd ev k.
        (case op of
           EPOLL_CTL_ADD \<Rightarrow> if k fd = None then k(fd \<mapsto> ev) else k
         | EPOLL_CTL_MOD \<Rightarrow> if k fd = None then k else k(fd \<mapsto> ev)
         | EPOLL_CTL_DEL \<Rightarrow> k(fd := None))),
      close_fd = (\<lambda>fd k. k(fd := None)),
      epoll_wait = (\<lambda>t k. (0, []))\<rparr>"

definition clock0 :: clock where
  "clock0 = \<lparr>curr_sec_ms = 0, ms_left_scaled = 0, now_ms = 0, samp_time = 0, idle_time = 0, idle_pct = 0,
     now = tv_zero, date = tv_zero, before_poll = tv_zero, after_poll = tv_zero\<rparr>"

definition poller0 :: "nat \<Rightarrow> (nat \<Rightarrow> u32 option) poller" where
  "poller0 maxconn =
     poll_init maxconn (\<lambda>_. None)
       (fd_init maxconn
          \<lparr>fd_evts = [], chg_list = [], chg_ptr = (\<lambda>_. None), fd_state = (\<lambda>_. 0), maxfd = 0,
           clk = clock0, kern = (\<lambda>_. None)\<rparr>)"

lemma map_sys_spec: "epoll_spec map_sys (\<lambda>k. k)"
  by (auto simp: epoll_spec_def map_sys_def split: epoll_op.splits)

lemma poller0_inv: "poll_inv (\<lambda>k. k) (poller0 n)"
proof (rule poll_invI)
  fix fd assume "FD2OFS fd < length (fd_evts (poller0 n))"
  then have "evt (fd_evts (poller0 n)) fd = 0" by (simp add: evt_def poller0_def poll_init_def)
  then show "kern (poller0 n) fd = kview (evt (fd_evts (poller0 n)) fd)"
    by (simp add: kview_def) (simp add: poller0_def poll_init_def)
qed (simp_all add: poller0_def poll_init_def)


theorem poll_flush_sync_witness:
  "kern (fd_flush_changes map_sys (snd (fd_set 17 1 (poller0 64)))) 17 = Some EPOLLOUT"
proof -
  have r: "FD2OFS 17 < length (fd_evts (poller0 64))" by code_simp
  have "poll_inv (\<lambda>k. k) (snd (fd_set 17 1 (poller0 64)))" using fd_set_effect [OF poller0_inv r, of 1] by simp
  from poll_flush_sync [OF map_sys_spec this, of 17]
  have "FD2OFS 17 < length (fd_evts (snd (fd_set 17 1 (poller0 64)))) \<longrightarrow>
      kern (fd_flush_changes map_sys (snd (fd_set 17 1 (poller0 64)))) 17 =
        (if evt (fd_evts (snd (fd_set 17 1 (poller0 64)))) 17 = 0 then None
         else Some (dmsk2event (evt (fd_evts (snd (fd_set 17 1 (poller0 64)))) 17)))" by simp
  moreover have "FD2OFS 17 < length (fd_evts (snd (fd_set 17 1 (poller0 64))))"
    "evt (fd_evts (snd (fd_set 17 1 (poller0 64)))) 17 = 2" "dmsk2event 2 = EPOLLOUT" by code_simp+
  ultimately show ?thesis by simp
qed

text \<open>The table of two-bit masks allocated by \<open>poll_init\<close> has a word for every descriptor below
  \<open>maxconn\<close>, and no descriptor is set in it.\<close>

theorem poll_init_capacity:
  assumes "fd < maxconn"
  shows "FD2OFS fd < length (fd_evts (poll_init maxconn k p)) \<and> 4 * (FD2OFS fd + 1) \<le> fd_set_bytes maxconn \<and>
         \<not> fd_is_set fd DIR_RD (poll_init maxconn k p) \<and> \<not> fd_is_set fd DIR_WR (poll_init maxconn k p)"
proof -
  have "16 * q \<le> fd \<Longrightarrow> 4 * (q + 1) * 16 \<le> 4 * (maxconn + 15)" for q using assms by simp
  then have "4 * (fd div 16 + 1) * 16 \<le> 4 * (maxconn + 15)" using div_times_less_eq_dividend by simp
  then have "4 * (fd div 16 + 1) \<le> 4 * (maxconn + 15) div 16" by (simp only: less_eq_div_iff_mult_less_eq)
  then show ?thesis
    by (auto simp: poll_init_def fd_is_set_def FD2OFS_div fd_set_bytes_def)
qed

theorem poll_init_capacity_witness: "\<forall>(k :: 'a) p. FD2OFS 19999 < length (fd_evts (poll_init 20000 k p))"
proof (intro allI)
  fix k :: 'a and p :: "'a poller"
  show "FD2OFS 19999 < length (fd_evts (poll_init 20000 k p))"
    using poll_init_capacity [of 19999 20000 k p] by simp
qed

text \<open>\<open>chg_list\<close> has room for \<open>maxconn\<close> entries, but the entry of a closed descriptor stays in use
  until the next flush: accepting and closing the same descriptor \<open>n\<close> times between two polls takes
  \<open>n\<close> entries, whatever \<open>maxconn\<close> is.\<close>

theorem chg_list_overflow:
  assumes "epoll_spec sys interest" and "poll_inv interest p" and "FD2OFS fd < length (fd_evts p)"
    and "chg_ptr p fd = None" and "evt (fd_evts p) fd = 0"
  shows "length (chg_list (((\<lambda>q. fd_delete sys fd (snd (fd_set fd DIR_RD q))) ^^ n) p)) = length (chg_list p) + n"
proof -
  let ?step = "\<lambda>q. fd_delete sys fd (snd (fd_set fd DIR_RD q))"
  have one: "poll_inv interest (?step q) \<and> length (fd_evts (?step q)) = length (fd_evts p) \<and>
      chg_ptr (?step q) fd = None \<and> evt (fd_evts (?step q)) fd = 0 \<and>
      length (chg_list (?step q)) = Suc (length (chg_list q))"
    if q: "poll_inv interest q" "length (fd_evts q) = length (fd_evts p)" "chg_ptr q fd = None" "evt (fd_evts q) fd = 0" for q
  proof -
    have fd: "FD2OFS fd < length (fd_evts q)" using assms(3) q(2) by simp
    have s: "poll_inv interest (snd (fd_set fd DIR_RD q))" "length (fd_evts (snd (fd_set fd DIR_RD q))) = length (fd_evts q)"
      using fd_set_effect [OF q(1) fd, of DIR_RD] by (simp_all add: DIR_RD_def)
    have d: "poll_inv interest (?step q)" "evt (fd_evts (?step q)) fd = 0"
      using fd_delete_effect [OF assms(1) s(1)] s(2) fd by simp_all
    have "length (fd_evts (?step q)) = length (fd_evts p)" "chg_ptr (?step q) fd = None"
      "length (chg_list (?step q)) = Suc (length (chg_list q))"
      using q(2-4) by (simp_all add: fd_delete_def fd_clo_def fd_set_def alloc_chg_list_def Let_def split: option.splits)
    with d show ?thesis by blast
  qed
  have "poll_inv interest ((?step ^^ n) p) \<and> length (fd_evts ((?step ^^ n) p)) = length (fd_evts p) \<and>
      chg_ptr ((?step ^^ n) p) fd = None \<and> evt (fd_evts ((?step ^^ n) p)) fd = 0 \<and>
      length (chg_list ((?step ^^ n) p)) = length (chg_list p) + n"
  proof (induction n)
    case 0
    then show ?case using assms by simp
  next
    case (Suc n)
    then show ?case using one [of "(?step ^^ n) p"] by simp
  qed
  then show ?thesis by blast
qed

theorem chg_list_overflow_witness:
  "length (chg_list (((\<lambda>q. fd_delete map_sys 3 (snd (fd_set 3 DIR_RD q))) ^^ 65) (poller0 64))) = 65"
proof -
  have "FD2OFS 3 < length (fd_evts (poller0 64))" "chg_ptr (poller0 64) 3 = None"
    "evt (fd_evts (poller0 64)) 3 = 0" "chg_list (poller0 64) = []"
    by (code_simp, simp add: poller0_def poll_init_def, code_simp, simp add: poller0_def poll_init_def)
  then show ?thesis using chg_list_overflow [OF map_sys_spec poller0_inv, of 3 64 65] by simp
qed

text \<open>\<open>maxfd\<close> stays one above the highest descriptor in use: if all descriptors from \<open>maxfd\<close> on are
  closed they still are after a deletion, which leaves \<open>maxfd\<close> at zero or just above an open one.\<close>

theorem fd_delete_maxfd:
  assumes "\<And>i. maxfd p \<le> i \<Longrightarrow> fd_state p i = FD_STCLOSE"
  shows "fd_state (fd_delete sys fd p) fd = FD_STCLOSE \<and>
         (maxfd (fd_delete sys fd p) \<le> i \<longrightarrow> fd_state (fd_delete sys fd p) i = FD_STCLOSE) \<and>
         (maxfd (fd_delete sys fd p) = 0 \<or>
          fd_state (fd_delete sys fd p) (maxfd (fd_delete sys fd p) - 1) \<noteq> FD_STCLOSE)"
proof -
  have low: "(lower_maxfd st n = 0 \<or> st (lower_maxfd st n - 1) \<noteq> FD_STCLOSE) \<and>
      (\<forall>i. lower_maxfd st n \<le> i \<and> i < n \<longrightarrow> st i = FD_STCLOSE)" for st n
    by (induction n) (auto simp: less_Suc_eq)
  have r: "fd_state (fd_delete sys fd p) = (fd_state p)(fd := FD_STCLOSE)"
      "maxfd (fd_delete sys fd p) = lower_maxfd ((fd_state p)(fd := FD_STCLOSE)) (maxfd p)"
    by (simp_all add: fd_delete_def fd_clo_def Let_def split: option.splits)
  show ?thesis
    unfolding r using low [of "(fd_state p)(fd := FD_STCLOSE)" "maxfd p"] assms [of i]
    by (cases "i < maxfd p") auto
qed

theorem fd_delete_maxfd_witness:
  "maxfd (fd_delete map_sys 5 (fd_insert 5 (poller0 64))) = 0"
proof -
  let ?p = "fd_insert 5 (poller0 64)"
  have "fd_state ?p i = FD_STCLOSE" for i
    by (simp add: fd_insert_def poller0_def poll_init_def fd_init_def FD_STCLOSE_def)
  moreover have "fd_state (fd_delete map_sys 5 ?p) i = FD_STCLOSE" for i
    by (simp add: fd_delete_def fd_clo_def Let_def calculation split: option.splits)
  ultimately show ?thesis using fd_delete_maxfd [of ?p map_sys 5 0] by simp
qed

text \<open>The time-out given to \<open>epoll_wait\<close> is between 1 and 100 ms for a non-negative argument; the
  argument is the date of the next timer, an \<open>int\<close> that is negative in the upper half of the
  clock, and such a value is passed on: the wait then has no limit.\<close>

theorem wait_time_bounds:
  "(0 \<le> exp \<longrightarrow> 0 < wait_time exp \<and> wait_time exp \<le> 100) \<and> (exp < 0 \<longrightarrow> wait_time exp = exp)"
  by (simp add: wait_time_def MAX_POLL_DELAY_MS_def)

theorem wait_time_bounds_witness:
  "0 < wait_time 0 \<and> wait_time 0 \<le> 100 \<and> wait_time (sint (0x80000001 :: u32)) < 0"
proof -
  have neg: "sint (0x80000001 :: u32) < 0" by code_simp
  show ?thesis using wait_time_bounds [of 0] wait_time_bounds [of "sint (0x80000001 :: u32)"] neg by simp
qed

text \<open>A callback that returns \<open>ZB_CLOSE\<close> has its descriptor closed, but one that returns \<open>ZB_FAIL\<close> does not:
  the value is not \<open>ZB_CLOSE\<close> and has the two bits that enable both directions.\<close>

theorem recheck_fail_keeps_open:
  assumes "poll_inv interest p" and "FD2OFS fd < length (fd_evts p)"
  shows "evt (fd_evts (recheck_state sys cb fd ZB_FAIL p)) fd = 3 \<and>
         fd_state (recheck_state sys cb fd ZB_FAIL p) = fd_state p \<and>
         recheck_state sys cb fd ZB_CLOSE p = snd (cb DIR_CLO fd (fd_delete sys fd p))"
proof -
  let ?a = "snd (fd_clr fd DIR_RD p)"
  let ?b = "snd (fd_clr fd DIR_WR ?a)"
  let ?c = "snd (fd_set fd DIR_RD ?b)"
  have d: "DIR_RD < 2" "DIR_WR < 2" by (simp_all add: DIR_RD_def DIR_WR_def)
  note a = fd_clr_effect [OF assms d(1), of fd]
  note b = fd_clr_effect [of interest ?a fd, OF _ _ d(2), of fd]
  note c = fd_set_effect [of interest ?b fd, OF _ _ d(1), of fd]
  note e = fd_set_effect [of interest ?c fd, OF _ _ d(2), of fd]
  have "recheck_state sys cb fd ZB_FAIL p = snd (fd_set fd DIR_WR ?c)"
    by (simp add: recheck_state_def ZB_FAIL_def ZB_CLOSE_def ZB_CLOSE_RD_def ZB_CLOSE_WR_def ZB_SET_RD_def ZB_SET_WR_def)
  moreover have "evt (fd_evts (snd (fd_set fd DIR_WR ?c))) fd = 3"
  proof -
    have "evt (fd_evts (snd (fd_set fd DIR_WR ?c))) fd =
        (((evt (fd_evts p) fd AND NOT 1) AND NOT 2) OR 1) OR 2"
      using a b c e assms(2) by (simp add: DIR2MSK_def DIR_RD_def DIR_WR_def)
    moreover have "(w AND NOT 1) AND NOT 2 = w AND NOT (3 :: u32)" for w
      by (simp add: and.assoc)
    moreover have "evt (fd_evts p) fd AND NOT 3 = 0" by (simp add: evt_def and.assoc)
    ultimately show ?thesis by simp
  qed
  moreover have "fd_state (snd (fd_set fd DIR_WR ?c)) = fd_state p"
    by (simp add: fd_set_def fd_clr_def Let_def)
  ultimately show ?thesis
    by (simp add: recheck_state_def ZB_CLOSE_def ZB_CLOSE_RD_def ZB_CLOSE_WR_def ZB_SET_RD_def ZB_SET_WR_def)
qed

theorem recheck_fail_keeps_open_witness:
  "evt (fd_evts (recheck_state map_sys (\<lambda>d fd q. (ZB_NOP, q)) 3 ZB_FAIL (poller0 64))) 3 = 3"
proof -
  have "FD2OFS 3 < length (fd_evts (poller0 64))" by code_simp
  then show ?thesis using recheck_fail_keeps_open [OF poller0_inv] by blast
qed

end
