(* ===== verification/Util.thy ===== *)
theory Util
  imports Prelude
begin

text \<open>
  Hashes, checksums and string helpers: \<open>src/src/util.c\<close> (\<open>jenkins_hash\<close>, \<open>crc32\<close>), \<open>src/src/util.h\<close>
  (\<open>tcp_checksum\<close>) and \<open>src/src/common/strutil.h\<close> (\<open>ishex\<close>, \<open>uri_decode\<close>). Byte strings are lists of
  8-bit words; where the code reads past the end of its argument, the argument is the memory from its
  address on. Shown: the table-driven CRC is the bit-serial one and can be computed piecewise, the
  checksum is the ones' complement sum when the length is odd or a multiple of eight, decoding
  inverts percent-encoding.
\<close>

section \<open>Hashes\<close>

definition jenkins_step :: "u8 \<Rightarrow> u32 \<Rightarrow> u32" where
  "jenkins_step k h =
     (let h1 = h + ucast k; h2 = h1 + push_bit 10 h1 in h2 XOR drop_bit 6 h2)"

definition jenkins_hash :: "u8 list \<Rightarrow> u32" where
  "jenkins_hash key =
     (let h = fold jenkins_step key 0;
          h1 = h + push_bit 3 h;
          h2 = h1 XOR drop_bit 11 h1
      in h2 + push_bit 15 h2)"

section \<open>CRC\<close>

definition crc_shift :: "u32 \<Rightarrow> u32" where
  "crc_shift rem = (if rem AND 1 \<noteq> 0 then drop_bit 1 rem XOR 0xedb88320 else drop_bit 1 rem)"

definition crc_table :: "u32 list" where
  "crc_table = map (\<lambda>i. (crc_shift ^^ 8) (of_nat i)) [0..<256]"

definition crc_octet :: "u8 \<Rightarrow> u32 \<Rightarrow> u32" where
  "crc_octet octet crc = drop_bit 8 crc XOR crc_table ! unat ((crc AND 0xff) XOR ucast octet)"

definition crc32 :: "u32 \<Rightarrow> u8 list \<Rightarrow> u32" where
  "crc32 crc buf = NOT (fold crc_octet buf (NOT crc))"

section \<open>TCP checksum\<close>

text \<open>An addition with end-around carry, \<open>sum += s; if (sum < s) sum++\<close>.\<close>

definition eac_add :: "'a::len word \<Rightarrow> 'a word \<Rightarrow> 'a word" where
  "eac_add acc s = (let acc1 = acc + s in if acc1 < s then acc1 + 1 else acc1)"

text \<open>The little-endian integer of \<open>n\<close> bytes at an address.\<close>

fun load :: "(nat \<Rightarrow> u8) \<Rightarrow> nat \<Rightarrow> nat \<Rightarrow> nat" where
  "load mem a 0 = 0"
| "load mem a (Suc n) = unat (mem a) + 256 * load mem (Suc a) n"

fun sum8 :: "(nat \<Rightarrow> u8) \<Rightarrow> nat \<Rightarrow> nat \<Rightarrow> u64 \<Rightarrow> u64" where
  "sum8 mem a n acc =
     (if n \<ge> 8 then sum8 mem (a + 8) (n - 8) (eac_add acc (of_nat (load mem a 8))) else acc)"

declare sum8.simps [simp del]

definition tcp_checksum :: "(nat \<Rightarrow> u8) \<Rightarrow> nat \<Rightarrow> u16" where
  "tcp_checksum mem size0 =
     (let sum0 = sum8 mem 0 size0 0;
          a0 = 8 * (size0 div 8); n = size0 mod 8;
          (sum1, a1) = (if bit n 2 then (eac_add sum0 (of_nat (load mem a0 4)), a0 + 4) else (sum0, a0));
          (sum2, a2) = (if bit n 1 then (eac_add sum1 (of_nat (load mem a1 2)), a1 + 2) else (sum1, a1));
          sum3 = (if n \<noteq> 0 then eac_add sum2 (of_nat (load mem a2 1)) else sum2);
          t1 = eac_add (ucast sum3) (ucast (drop_bit 32 sum3)) :: u32;
          t3 = eac_add (ucast t1) (ucast (drop_bit 16 t1)) :: u16
      in NOT t3)"

section \<open>Strings\<close>

definition ishex :: "u8 \<Rightarrow> bool" where
  "ishex x \<longleftrightarrow> (x \<ge> 0x30 \<and> x \<le> 0x39) \<or> (x \<ge> 0x61 \<and> x \<le> 0x66) \<or> (x \<ge> 0x41 \<and> x \<le> 0x46)"

text \<open>The value of a hexadecimal digit, as \<open>sscanf("%2x")\<close> reads it.\<close>

definition hexval :: "u8 \<Rightarrow> u8" where
  "hexval x = (if x \<le> 0x39 then x - 0x30 else if x \<le> 0x46 then x - 0x37 else x - 0x57)"

text \<open>\<open>uri_decode\<close> on the bytes up to and with the final NUL; \<open>None\<close> is -1, otherwise the bytes written.\<close>

fun uri_decode_at :: "u8 list \<Rightarrow> u8 list option" where
  "uri_decode_at [] = Some []"
| "uri_decode_at (c # s) =
     (if c = 0x2b then map_option ((#) 0x20) (uri_decode_at s)
      else if c = 0x25 then
        (case s of
           x # y # s' \<Rightarrow>
             if \<not> ishex x \<or> \<not> ishex y then None
             else map_option ((#) (hexval x * 16 + hexval y)) (uri_decode_at s')
         | _ \<Rightarrow> None)
      else map_option ((#) c) (uri_decode_at s))"

definition uri_decode :: "u8 list \<Rightarrow> u8 list option" where
  "uri_decode s = uri_decode_at (s @ [0])"

section \<open>The CRC is linear\<close>

lemma bit_crc_shift:
  "bit (crc_shift w) n \<longleftrightarrow> (bit w (Suc n) \<noteq> (bit w 0 \<and> bit (0xedb88320 :: u32) n))"
proof -
  have "w AND 1 \<noteq> 0 \<longleftrightarrow> bit w 0" by (simp add: and_one_eq mod2_eq_if bit_0 odd_iff_mod_2_eq_one)
  then show ?thesis by (auto simp: crc_shift_def bit_xor_iff bit_drop_bit_eq)
qed

lemma crc_shift_xor: "crc_shift (a XOR b) = crc_shift a XOR crc_shift b"
  by (rule bit_eqI) (auto simp: bit_crc_shift bit_xor_iff)

lemma crc_shift_pow_xor: "(crc_shift ^^ n) (a XOR b) = (crc_shift ^^ n) a XOR (crc_shift ^^ n) b"
  by (induction n) (simp_all add: crc_shift_xor)

lemma crc_shift_low_zero: "\<not> bit w 0 \<Longrightarrow> crc_shift w = drop_bit 1 w"
  by (rule bit_eqI) (simp add: bit_crc_shift bit_drop_bit_eq)

lemma crc_shift_pow_low_zero:
  "(\<And>i. i < n \<Longrightarrow> \<not> bit w i) \<Longrightarrow> (crc_shift ^^ n) w = drop_bit n w"
proof (induction n)
  case (Suc n)
  have "(crc_shift ^^ Suc n) w = crc_shift (drop_bit n w)" using Suc by simp
  also have "\<dots> = drop_bit 1 (drop_bit n w)"
    using Suc.prems [of n] by (intro crc_shift_low_zero) (simp add: bit_drop_bit_eq)
  finally show ?case by simp
qed simp

lemma bit_and_ff: "bit (w AND 0xff :: u32) n \<longleftrightarrow> n < 8 \<and> bit w n"
proof -
  have "w AND 0xff = take_bit 8 w" by (simp add: take_bit_eq_mask mask_eq_exp_minus_1)
  then show ?thesis by (simp add: bit_take_bit_iff)
qed

lemma table_index:
  assumes "i = (crc AND 0xff) XOR ucast (octet :: u8)"
  shows "unat (i :: u32) < 256"
proof -
  have "bit i n \<Longrightarrow> n < 8" for n
    using assms bit_imp_le_length [of octet n] by (auto simp: bit_xor_iff bit_and_ff bit_ucast_iff)
  then have "take_bit 8 i = i" by (intro bit_eqI) (auto simp: bit_take_bit_iff)
  then have "unat (take_bit 8 i) = unat i" by simp
  then show ?thesis using take_bit_nat_less_exp [of 8 "unat i"] by (simp add: unsigned_take_bit_eq)
qed

lemma crc_octet_serial: "crc_octet octet crc = (crc_shift ^^ 8) (crc XOR ucast octet)"
proof -
  define i where "i = (crc AND 0xff) XOR ucast octet"
  have lt: "unat i < 256" using i_def by (rule table_index)
  then have tab: "crc_table ! unat i = (crc_shift ^^ 8) i" by (simp add: crc_table_def)
  define hi where "hi = push_bit 8 (drop_bit 8 crc)"
  have bit_hi: "bit hi n \<longleftrightarrow> 8 \<le> n \<and> bit crc n" for n
    by (auto simp: hi_def bit_push_bit_iff bit_drop_bit_eq dest: bit_imp_le_length)
  have split: "crc XOR ucast octet = hi XOR i"
    by (rule bit_eqI) (auto simp: i_def bit_xor_iff bit_and_ff bit_hi)
  have "(crc_shift ^^ 8) hi = drop_bit 8 hi" by (rule crc_shift_pow_low_zero) (simp add: bit_hi)
  also have "\<dots> = drop_bit 8 crc" by (rule bit_eqI) (simp add: bit_drop_bit_eq bit_hi)
  finally show ?thesis
    unfolding crc_octet_def i_def [symmetric] tab split crc_shift_pow_xor by simp
qed

section \<open>Ones' complement sums\<close>

text \<open>The specification: the sum of the 16-bit little-endian words of a block, an odd last byte padded
  with zero, modulo \<open>2 ^ 16 - 1\<close>.\<close>

fun words16 :: "(nat \<Rightarrow> u8) \<Rightarrow> nat \<Rightarrow> nat \<Rightarrow> nat" where
  "words16 mem a 0 = 0"
| "words16 mem a (Suc 0) = unat (mem a)"
| "words16 mem a (Suc (Suc n)) = unat (mem a) + 256 * unat (mem (Suc a)) + words16 mem (Suc (Suc a)) n"

lemma load_split: "load mem a (m + n) = load mem a m + 256 ^ m * load mem (a + m) n"
  by (induction m arbitrary: a) (simp_all add: algebra_simps)

lemma load_words16: "load mem a n mod 65535 = words16 mem a n mod 65535"
proof (induction mem a n rule: words16.induct)
  case (3 mem a n)
  have "load mem a (Suc (Suc n)) = unat (mem a) + 256 * unat (mem (Suc a)) + 65536 * load mem (Suc (Suc a)) n"
    by (simp add: algebra_simps)
  also have "\<dots> mod 65535 = (unat (mem a) + 256 * unat (mem (Suc a)) + load mem (Suc (Suc a)) n) mod 65535"
  proof -
    have "65536 * x = x + 65535 * x" for x :: nat by simp
    then show ?thesis by (metis add.assoc mod_mult_self2)
  qed
  also have "\<dots> = (unat (mem a) + 256 * unat (mem (Suc a)) + words16 mem (Suc (Suc a)) n) mod 65535"
    using 3 by (metis mod_add_right_eq)
  finally show ?case by simp
qed simp_all

lemma load_bound: "load mem a n < 256 ^ n"
proof (induction n arbitrary: a)
  case (Suc n)
  have "unat (mem a) < 256" using unsigned_less [of "mem a"] by simp
  then show ?case using Suc [of "Suc a"] by simp
qed simp

lemma eac_add_mod:
  assumes "d dvd 2 ^ LENGTH('a::len) - 1"
  shows "unat (eac_add x (y :: 'a word)) mod d = (unat x + unat y) mod d"
proof (cases "unat x + unat y < 2 ^ LENGTH('a)")
  case True
  then have "unat (x + y) = unat x + unat y" by (simp add: unat_add_lem)
  moreover from this have "\<not> x + y < y" by (simp add: word_less_nat_alt)
  ultimately show ?thesis by (simp add: eac_add_def Let_def)
next
  case False
  have xl: "unat x < 2 ^ LENGTH('a)" "unat y < 2 ^ LENGTH('a)" by (rule unsigned_less)+
  then have "unat x + unat y - 2 ^ LENGTH('a) < 2 ^ LENGTH('a)" using False by linarith
  then have s: "unat (x + y) = unat x + unat y - 2 ^ LENGTH('a)"
    using False by (simp add: unat_word_ariths le_mod_geq)
  have lt: "x + y < y" unfolding word_less_nat_alt s using xl(1) False by linarith
  have "unat (x + y) + 1 < 2 ^ LENGTH('a)" using lt xl(2) unfolding word_less_nat_alt by linarith
  then have "unat (x + y + 1) = unat (x + y) + 1" using unat_add_lem [of "x + y" 1] by simp
  then have "unat (eac_add x y) = unat (x + y) + 1" using lt by (simp add: eac_add_def Let_def)
  then have "unat (eac_add x y) + (2 ^ LENGTH('a) - 1) = unat x + unat y"
    using s False zero_less_power [of "2 :: nat" "LENGTH('a)"] by linarith
  then show ?thesis using assms by (metis dvd_imp_mod_0 mod_add_right_eq add.right_neutral)
qed

lemma eac_add_65535:
  "unat (eac_add x (y :: u64)) mod 65535 = (unat x + unat y) mod 65535"
  "unat (eac_add x' (y' :: u32)) mod 65535 = (unat x' + unat y') mod 65535"
  "unat (eac_add x'' (y'' :: u16)) mod 65535 = (unat x'' + unat y'') mod 65535"
  by (rule eac_add_mod; simp)+

lemma pow256_mod:
  assumes "even m"
  shows "(x + 256 ^ m * y) mod 65535 = (x + y) mod (65535 :: nat)"
proof -
  obtain k where "m = 2 * k" using assms by (elim evenE)
  then have "256 ^ m = (65536 :: nat) ^ k" by (simp add: power_mult)
  then have c: "256 ^ m mod 65535 = (1 :: nat)" using power_mod [of "65536 :: nat" 65535 k] by simp
  have "256 ^ m * y mod 65535 = (256 ^ m mod 65535) * y mod 65535" by (rule mod_mult_left_eq [symmetric])
  then have "256 ^ m * y mod 65535 = y mod 65535" unfolding c by simp
  then show ?thesis by (rule mod_add_cong [OF refl])
qed

lemma unat_load:
  "unat (of_nat (load mem a 8) :: u64) = load mem a 8" "unat (of_nat (load mem a 4) :: u64) = load mem a 4"
  "unat (of_nat (load mem a 2) :: u64) = load mem a 2" "unat (of_nat (load mem a 1) :: u64) = load mem a 1"
  using load_bound [of mem a 8] load_bound [of mem a 4] load_bound [of mem a 2] load_bound [of mem a 1]
  by (intro unat_of_nat_small; simp)+

lemma sum8_mod:
  "unat (sum8 mem a n acc) mod 65535 = (unat acc + load mem a (8 * (n div 8))) mod 65535"
proof (induction mem a n acc rule: sum8.induct)
  case (1 mem a n acc)
  show ?case
  proof (cases "n \<ge> 8")
    case True
    let ?q = "8 * ((n - 8) div 8)"
    have q: "8 * (n div 8) = 8 + ?q" using True by (simp add: le_div_geq)
    have "unat (sum8 mem a n acc) mod 65535 =
        (unat (eac_add acc (of_nat (load mem a 8))) + load mem (a + 8) ?q) mod 65535"
      using 1 True by (subst sum8.simps) simp
    also have "\<dots> = (unat acc + load mem a 8 + load mem (a + 8) ?q) mod 65535"
      by (rule mod_add_cong [OF _ refl]) (simp only: eac_add_65535(1) unat_load(1))
    also have "\<dots> = (unat acc + load mem a (8 + ?q)) mod 65535"
      unfolding load_split [of mem a 8 ?q] using pow256_mod [of 8 "unat acc + load mem a 8"] by (simp add: add.assoc)
    finally show ?thesis by (simp only: q)
  next
    case False
    then show ?thesis by (subst sum8.simps) simp
  qed
qed

lemma fold_mod:
  fixes w :: u64
  defines "t1 \<equiv> eac_add (ucast w) (ucast (drop_bit 32 w)) :: u32"
  defines "t3 \<equiv> eac_add (ucast t1) (ucast (drop_bit 16 t1)) :: u16"
  shows "unat t3 mod 65535 = unat w mod 65535"
proof -
  have lo: "unat (ucast w :: u32) = unat w mod 2 ^ 32" "unat (ucast t1 :: u16) = unat t1 mod 2 ^ 16"
    by (simp_all add: unsigned_ucast_eq take_bit_eq_mod)
  have "unat w < 2 ^ 32 * 2 ^ 32" "unat t1 < 2 ^ 16 * 2 ^ 16"
    using unsigned_less [of w, where 'a = nat] unsigned_less [of t1, where 'a = nat] by simp_all
  then have "unat w div 2 ^ 32 < 2 ^ 32" "unat t1 div 2 ^ 16 < 2 ^ 16" by (simp_all only: less_mult_imp_div_less)
  then have hi: "unat (ucast (drop_bit 32 w) :: u32) = unat w div 2 ^ 32"
    "unat (ucast (drop_bit 16 t1) :: u16) = unat t1 div 2 ^ 16"
    by (simp_all add: unsigned_ucast_eq drop_bit_eq_div take_bit_eq_mod unat_div)
  have "unat t1 mod 65535 = (unat w mod 2 ^ 32 + unat w div 2 ^ 32) mod 65535"
    unfolding t1_def eac_add_65535 using lo(1) hi(1) by simp
  also have "\<dots> = (unat w mod 2 ^ 32 + 256 ^ 4 * (unat w div 2 ^ 32)) mod 65535" by (rule pow256_mod [symmetric]) simp
  finally have 1: "unat t1 mod 65535 = unat w mod 65535" by simp
  have "unat t3 mod 65535 = (unat t1 mod 2 ^ 16 + unat t1 div 2 ^ 16) mod 65535"
    unfolding t3_def eac_add_65535 using lo(2) hi(2) by simp
  also have "\<dots> = (unat t1 mod 2 ^ 16 + 256 ^ 2 * (unat t1 div 2 ^ 16)) mod 65535" by (rule pow256_mod [symmetric]) simp
  finally show ?thesis using 1 by simp
qed

section \<open>Properties\<close>

text \<open>The reference: one bit at a time, without a table.\<close>

definition crc32_serial :: "u32 \<Rightarrow> u8 list \<Rightarrow> u32" where
  "crc32_serial crc buf = NOT (fold (\<lambda>octet c. (crc_shift ^^ 8) (c XOR ucast octet)) buf (NOT crc))"


text \<open>C21: for an odd length or a multiple of eight, \<open>tcp_checksum\<close> is the complement of the ones'
  complement sum of the block's 16-bit words: complemented back, it equals their sum modulo
  \<open>2 ^ 16 - 1\<close>.\<close>

theorem tcp_checksum_ones_sum:
  assumes "odd n \<or> n mod 8 = 0"
  shows "unat (NOT (tcp_checksum mem n)) mod 65535 = words16 mem 0 n mod 65535"
proof -
  define a where "a = 8 * (n div 8)"
  define r where "r = n mod 8"
  have n: "n = a + r" by (simp add: a_def r_def)
  define m1 where "m1 = (if bit r 2 then 4 else 0 :: nat)"
  define m2 where "m2 = (if bit r 1 then 2 else 0 :: nat)"
  define m3 where "m3 = (if r \<noteq> 0 then 1 else 0 :: nat)"
  have "even (n mod 8) \<longleftrightarrow> even n" by presburger
  then have "r < 8" "odd r \<or> r = 0" using assms by (auto simp: r_def)
  then have "r = 0 \<or> r = 1 \<or> r = 3 \<or> r = 5 \<or> r = 7" by presburger
  then have r: "r = m1 + (m2 + m3)" by (auto simp: m1_def m2_def m3_def bit_iff_odd)
  define s0 where "s0 = sum8 mem 0 n 0"
  define s1 where "s1 = (if bit r 2 then eac_add s0 (of_nat (load mem a 4)) else s0)"
  define s2 where "s2 = (if bit r 1 then eac_add s1 (of_nat (load mem (a + m1) 2)) else s1)"
  define s3 where "s3 = (if r \<noteq> 0 then eac_add s2 (of_nat (load mem (a + m1 + m2) 1)) else s2)"
  have e0: "unat s0 mod 65535 = load mem 0 a mod 65535" using sum8_mod [of mem 0 n 0] by (simp add: s0_def a_def)
  have e1: "unat s1 mod 65535 = (unat s0 + load mem a m1) mod 65535"
    using eac_add_65535(1) unat_load(2) by (simp add: s1_def m1_def)
  have e2: "unat s2 mod 65535 = (unat s1 + load mem (a + m1) m2) mod 65535"
    using eac_add_65535(1) unat_load(3) by (simp add: s2_def m2_def)
  have e3: "unat s3 mod 65535 = (unat s2 + load mem (a + m1 + m2) m3) mod 65535"
    using eac_add_65535(1) unat_load(4) by (simp add: s3_def m3_def)
  have ev: "even a" "even m1" "even m2" by (simp_all add: a_def m1_def m2_def)
  have "load mem 0 n mod 65535 =
      (load mem 0 a + (load mem a m1 + (load mem (a + m1) m2 + load mem (a + m1 + m2) m3))) mod 65535"
  proof -
    have "load mem (a + m1) (m2 + m3) mod 65535 = (load mem (a + m1) m2 + load mem (a + m1 + m2) m3) mod 65535"
      unfolding load_split by (rule pow256_mod [OF ev(3)])
    then have "load mem a (m1 + (m2 + m3)) mod 65535 =
        (load mem a m1 + (load mem (a + m1) m2 + load mem (a + m1 + m2) m3)) mod 65535"
      unfolding load_split [of mem a m1] pow256_mod [OF ev(2)] by (rule mod_add_cong [OF refl])
    then show ?thesis
      unfolding n r load_split [of mem 0 a] pow256_mod [OF ev(1)] add_0 by (rule mod_add_cong [OF refl])
  qed
  also have "\<dots> = unat s3 mod 65535"
    using e0 e1 e2 e3 by (simp only: add.assoc [symmetric]) (metis (no_types) mod_add_left_eq)
  also have "\<dots> = unat (NOT (tcp_checksum mem n)) mod 65535"
  proof -
    have "NOT (tcp_checksum mem n) =
        (let t1 = eac_add (ucast s3) (ucast (drop_bit 32 s3)) :: u32 in eac_add (ucast t1) (ucast (drop_bit 16 t1)))"
      unfolding tcp_checksum_def s3_def s2_def s1_def s0_def m1_def m2_def a_def r_def by (simp add: Let_def)
    then show ?thesis using fold_mod [of s3] by (simp add: Let_def)
  qed
  finally show ?thesis using load_words16 [of mem 0 n] by simp
qed

theorem tcp_checksum_ones_sum_witness:
  "unat (NOT (tcp_checksum (\<lambda>i. of_nat (i + 200)) 11)) mod 65535 = words16 (\<lambda>i. of_nat (i + 200)) 0 11 mod 65535"
  using tcp_checksum_ones_sum [of 11 "\<lambda>i. of_nat (i + 200)"] by simp

text \<open>With a tail of two, four or six bytes the test \<open>if (size)\<close> stands for \<open>if (size & 1)\<close>: one byte past the block
  is added, and two blocks that are equal have different checksums.\<close>

lemma tcp_checksum_reads_past_end:
  "tcp_checksum (\<lambda>i. 0) 2 \<noteq> tcp_checksum (\<lambda>i. if i < 2 then 0 else 1) 2"
proof -
  have l: "load mem a 2 = unat (mem a) + 256 * unat (mem (Suc a))" "load mem a 1 = unat (mem a)" for mem a
    by (simp_all add: numeral_2_eq_2)
  have b: "\<not> bit (2 :: nat) 2" "bit (2 :: nat) (Suc 0)" by (simp_all add: bit_numeral_rec bit_Suc bit_0)
  show ?thesis by (simp add: tcp_checksum_def sum8.simps l b eac_add_def Let_def bit_0)
qed

definition hexdigit :: "u8 \<Rightarrow> u8" where
  "hexdigit d = (if d < 10 then d + 0x30 else d + 0x37)"

definition percent :: "u8 \<Rightarrow> u8 list" where
  "percent b = [0x25, hexdigit (b div 16), hexdigit (b mod 16)]"

text \<open>\<open>uri_decode\<close> inverts percent-encoding: a string in which every byte is written as a percent
  sign and two hexadecimal digits decodes to these bytes and the final NUL; bytes that are neither a percent
  sign nor a plus are kept.\<close>

theorem uri_decode_percent:
  assumes "\<forall>c \<in> set plain. c \<noteq> 0x25 \<and> c \<noteq> 0x2b"
  shows "uri_decode (concat (map percent bs) @ plain) = Some (bs @ plain @ [0])"
proof -
  have hex: "ishex (hexdigit d) \<and> hexval (hexdigit d) = d" if "d < 16" for d :: u8
  proof -
    have "\<forall>n \<in> {0..<16 :: nat}. ishex (hexdigit (of_nat n)) \<and> hexval (hexdigit (of_nat n)) = of_nat n"
      by code_simp
    moreover have "unat d \<in> {0..<16}" "of_nat (unat d) = d" using that by (simp_all add: word_less_nat_alt)
    ultimately show ?thesis by metis
  qed
  have one: "uri_decode_at (percent b @ s) = map_option ((#) b) (uri_decode_at s)" for b s
  proof -
    have "b div 16 < 16" using unsigned_less [of b, where 'a = nat]
      by (simp add: word_less_nat_alt unat_div less_mult_imp_div_less)
    moreover have "b mod 16 < 16" by (simp add: word_less_nat_alt unat_mod)
    moreover have "b div 16 * 16 + b mod 16 = b" by (rule div_mult_mod_eq)
    ultimately show ?thesis using hex by (simp add: percent_def)
  qed
  have "uri_decode_at (plain @ [0]) = Some (plain @ [0])" using assms by (induction plain) auto
  then show ?thesis unfolding uri_decode_def by (induction bs) (simp_all add: one)
qed

theorem uri_decode_percent_witness:
  "uri_decode [0x25, 0x34, 0x31, 0x7a] = Some [0x41, 0x7a, 0]"
  using uri_decode_percent [of "[0x7a]" "[0x41]"] by (simp add: percent_def hexdigit_def)

end
