(* ===== verification/Buffers.thy ===== *)
theory Buffers
  imports Prelude
begin

text \<open>
  Byte buffers of a connection, \<open>src/src/buffer.h\<close> and \<open>src/src/type/buffer.h\<close>: the pointers \<open>r\<close> (end of the
  data) and \<open>curr\<close> (next byte to process) as offsets into the block of \<open>total\<close> bytes. A store outside
  the block is \<open>None\<close>. Shown: writing appends and never leaves the block, while \<open>buffer_sprintf\<close> may move
  \<open>r\<close> past the end, after which the next write does leave it.
\<close>

record buffer =
  buff :: "u8 list"
  r_ofs :: nat
  curr_ofs :: nat
  total :: nat

section \<open>Operations\<close>

definition buffer_empty :: "buffer \<Rightarrow> bool" where
  "buffer_empty b \<longleftrightarrow> r_ofs b = curr_ofs b"

definition buffer_init :: "u8 list \<Rightarrow> nat \<Rightarrow> buffer" where
  "buffer_init block n = \<lparr>buff = block, r_ofs = 0, curr_ofs = 0, total = n\<rparr>"

definition buffer_reset :: "buffer \<Rightarrow> buffer" where
  "buffer_reset b = b\<lparr>r_ofs := 0, curr_ofs := 0\<rparr>"

definition buffer_remain_read :: "buffer \<Rightarrow> int" where
  "buffer_remain_read b = int (r_ofs b) - int (curr_ofs b)"

definition buffer_remain_write :: "buffer \<Rightarrow> int" where
  "buffer_remain_write b = int (total b) - int (r_ofs b)"

definition buffer_write_bytes :: "buffer \<Rightarrow> int" where
  "buffer_write_bytes b = int (r_ofs b)"

definition buffer_read_bytes :: "buffer \<Rightarrow> int" where
  "buffer_read_bytes b = int (curr_ofs b)"

text \<open>Storing a byte string at an offset.\<close>

definition store :: "nat \<Rightarrow> u8 list \<Rightarrow> u8 list \<Rightarrow> u8 list option" where
  "store ofs xs block =
     (if ofs + length xs \<le> length block
      then Some (take ofs block @ xs @ drop (ofs + length xs) block) else None)"

text \<open>\<open>vsnprintf\<close> of the formatted text stores at most \<open>remain - 1\<close> bytes of it and a NUL (nothing when
  \<open>remain\<close> is 0; a negative \<open>remain\<close> becomes a huge size), and returns the length of the whole text.\<close>

definition buffer_sprintf :: "buffer \<Rightarrow> u8 list \<Rightarrow> (int \<times> buffer) option" where
  "buffer_sprintf b text0 =
     (let remain = buffer_remain_write b;
          out = (if remain = 0 then []
                 else if remain > 0 then take (nat remain - 1) text0 @ [0]
                 else text0 @ [0]);
          ret = int (length text0)
      in case store (r_ofs b) out (buff b) of
           None \<Rightarrow> None
         | Some block \<Rightarrow>
             Some (ret, b\<lparr>buff := block, r_ofs := (if ret > 0 then r_ofs b + nat ret else r_ofs b)\<rparr>))"

definition buffer_write :: "buffer \<Rightarrow> u8 list \<Rightarrow> (int \<times> buffer) option" where
  "buffer_write b content =
     (let len = int (length content);
          remain = buffer_remain_write b
      in if remain \<le> len then Some (remain - len, b)
         else case store (r_ofs b) content (buff b) of
                None \<Rightarrow> None
              | Some block \<Rightarrow> Some (len, b\<lparr>buff := block, r_ofs := r_ofs b + length content\<rparr>))"

section \<open>Well-formed buffers\<close>

definition buffer_ok :: "buffer \<Rightarrow> bool" where
  "buffer_ok b \<longleftrightarrow> curr_ofs b \<le> r_ofs b \<and> r_ofs b \<le> total b \<and> length (buff b) = total b"

definition pending :: "buffer \<Rightarrow> u8 list" where
  "pending b = drop (curr_ofs b) (take (r_ofs b) (buff b))"

lemma store_some:
  "ofs + length xs \<le> length block \<Longrightarrow> store ofs xs block = Some (take ofs block @ xs @ drop (ofs + length xs) block)"
  by (simp add: store_def)

lemma store_take:
  "ofs + length xs \<le> length block \<Longrightarrow>
   take (ofs + length xs) (take ofs block @ xs @ drop (ofs + length xs) block) = take ofs block @ xs"
  by simp

section \<open>Properties\<close>

text \<open>\<open>buffer_write\<close> on a well-formed buffer never stores outside it and keeps it well formed: when the
  content is shorter than the room left it is appended to the pending data and its length returned,
  otherwise nothing changes and the (non-positive) difference is returned. One byte is always left free.\<close>

theorem buffer_write_spec:
  assumes "buffer_ok b"
  shows "\<exists>ret b'. buffer_write b content = Some (ret, b') \<and> buffer_ok b' \<and>
           (if int (length content) < buffer_remain_write b
            then ret = int (length content) \<and> pending b' = pending b @ content \<and>
              buffer_remain_write b' = buffer_remain_write b - int (length content)
            else ret \<le> 0 \<and> b' = b)"
proof (cases "int (length content) < buffer_remain_write b")
  case True
  then have fit: "r_ofs b + length content < length (buff b)"
    using assms by (simp add: buffer_ok_def buffer_remain_write_def)
  let ?bl = "take (r_ofs b) (buff b) @ content @ drop (r_ofs b + length content) (buff b)"
  have w: "buffer_write b content =
      Some (int (length content), b\<lparr>buff := ?bl, r_ofs := r_ofs b + length content\<rparr>)"
    using True fit by (simp add: buffer_write_def Let_def store_some)
  have "take (r_ofs b + length content) ?bl = take (r_ofs b) (buff b) @ content"
    using fit by (intro store_take) simp
  then have "pending (b\<lparr>buff := ?bl, r_ofs := r_ofs b + length content\<rparr>) = pending b @ content"
    using assms fit by (simp add: pending_def buffer_ok_def)
  then show ?thesis using w True fit assms by (auto simp: buffer_ok_def buffer_remain_write_def)
next
  case False
  then show ?thesis using assms by (auto simp: buffer_write_def Let_def)
qed

theorem buffer_write_spec_witness:
  "\<exists>ret b'. buffer_write (buffer_init (replicate 4 0) 4) [7, 8] = Some (ret, b') \<and> ret = 2 \<and> pending b' = [7, 8]"
proof -
  have "buffer_ok (buffer_init (replicate 4 0) 4)" by (simp add: buffer_ok_def buffer_init_def)
  from buffer_write_spec [OF this, of "[7, 8]"] show ?thesis
    by (auto simp: buffer_remain_write_def buffer_init_def pending_def)
qed

text \<open>\<open>buffer_sprintf\<close> of a text that fits appends it; of a text longer than the room left it stores a
  truncated text but moves \<open>r\<close> by the whole length, so that the buffer claims more data than its
  block holds and the next formatted text is stored outside the block.\<close>

theorem buffer_sprintf_spec:
  assumes "buffer_ok b" and "text0 \<noteq> []" and "0 < buffer_remain_write b"
  shows "\<exists>b'. buffer_sprintf b text0 = Some (int (length text0), b') \<and>
           (if int (length text0) < buffer_remain_write b
            then buffer_ok b' \<and> pending b' = pending b @ text0
            else r_ofs b' = r_ofs b + length text0 \<and> total b' = total b \<and> length (buff b') = total b \<and>
                 (int (length text0) > buffer_remain_write b \<longrightarrow> \<not> buffer_ok b' \<and> buffer_sprintf b' [t] = None))"
proof -
  define n where "n = total b - r_ofs b"
  have n: "buffer_remain_write b = int n" "0 < n" "r_ofs b + n = length (buff b)" "total b = r_ofs b + n"
    "curr_ofs b \<le> r_ofs b"
    using assms by (auto simp: n_def buffer_remain_write_def buffer_ok_def)
  let ?out = "take (n - 1) text0 @ [0]"
  let ?bl = "take (r_ofs b) (buff b) @ ?out @ drop (r_ofs b + length ?out) (buff b)"
  let ?b = "b\<lparr>buff := ?bl, r_ofs := r_ofs b + length text0\<rparr>"
  have fit: "r_ofs b + length ?out \<le> length (buff b)" using n by simp
  have w: "buffer_sprintf b text0 = Some (int (length text0), ?b)"
    using n assms(2) fit by (simp add: buffer_sprintf_def Let_def store_some)
  have len: "length ?bl = total b" using n fit by simp
  show ?thesis
  proof (cases "length text0 < n")
    case True
    then have "take (r_ofs b + length text0) ?bl = take (r_ofs b) (buff b) @ text0" using n by simp
    then have "pending ?b = pending b @ text0" using n True by (simp add: pending_def)
    then show ?thesis using w True n len by (simp add: buffer_ok_def)
  next
    case False
    have "\<not> buffer_ok ?b \<and> buffer_sprintf ?b [t] = None" if "n < length text0"
    proof -
      have "buffer_remain_write ?b < 0" using that n by (simp add: buffer_remain_write_def)
      moreover have "store (r_ofs ?b) ([t] @ [0]) (buff ?b) = None" using that n len by (simp add: store_def)
      ultimately show ?thesis using that n by (simp add: buffer_sprintf_def Let_def buffer_ok_def)
    qed
    then show ?thesis using w False n len by simp
  qed
qed

theorem buffer_sprintf_spec_witness:
  "\<exists>b'. buffer_sprintf (buffer_init (replicate 4 0) 4) [65, 66, 67, 68, 69] = Some (5, b') \<and>
        \<not> buffer_ok b' \<and> buffer_sprintf b' [70] = None"
proof -
  have "buffer_ok (buffer_init (replicate 4 0) 4)" "0 < buffer_remain_write (buffer_init (replicate 4 0) 4)"
    by (simp_all add: buffer_ok_def buffer_init_def buffer_remain_write_def)
  from buffer_sprintf_spec [OF this(1) _ this(2), of "[65, 66, 67, 68, 69]" 70] show ?thesis
    by (auto simp: buffer_remain_write_def buffer_init_def)
qed

end
