(* ===== verification/Vectors.thy ===== *)
theory Vectors
  imports Prelude
begin

text \<open>
  Growing arrays of pointers, \<open>src/src/common/vector.h\<close>. A pointer is a number, NULL is 0; \<open>data\<close> has
  \<open>capacity\<close> slots, of which the first \<open>size\<close> are in use. The growth factor is a \<open>float\<close> of which the
  services use the value 2 (only HTTP responses, whose vector never grows, use another); it is a natural number here. A failed \<open>assert\<close> and an access
  outside the block are \<open>None\<close>.
\<close>

record vector =
  data :: "nat list"
  growth_factor :: nat
  vsize :: nat
  capacity :: nat

section \<open>Operations\<close>

definition vector_create :: "nat list \<Rightarrow> nat \<Rightarrow> nat \<Rightarrow> vector option" where
  "vector_create block initial_capacity growth =
     (if \<not> growth > 1 then None
      else Some \<lparr>data = block, growth_factor = growth, vsize = 0, capacity = initial_capacity\<rparr>)"

definition vector_access :: "vector \<Rightarrow> nat \<Rightarrow> nat option" where
  "vector_access v i = (if i < capacity v \<and> i < length (data v) then Some (data v ! i) else None)"

definition vector_size :: "vector \<Rightarrow> nat" where
  "vector_size v = vsize v"

definition vector_is_empty :: "vector \<Rightarrow> bool" where
  "vector_is_empty v \<longleftrightarrow> vsize v = 0"

text \<open>\<open>realloc\<close> keeps the old slots; \<open>fresh\<close> is what the new ones hold.\<close>

definition vector_insert :: "nat list \<Rightarrow> vector \<Rightarrow> nat \<Rightarrow> vector option" where
  "vector_insert fresh v object =
     (if \<not> (capacity v > 0 \<and> vsize v \<le> capacity v) then None
      else let v1 = (if vsize v = capacity v
                     then let new_capacity = capacity v * growth_factor v + 1
                          in v\<lparr>data := data v @ take (new_capacity - capacity v) fresh, capacity := new_capacity\<rparr>
                     else v)
           in if \<not> vsize v1 + 1 \<le> capacity v1 then None
              else if \<not> vsize v1 < length (data v1) then None
              else let v2 = (if object \<noteq> 0 then v1\<lparr>data := (data v1)[vsize v1 := object]\<rparr> else v1)
                   in Some (v2\<lparr>vsize := vsize v2 + 1\<rparr>))"

text \<open>The search loop of \<open>vector_remove\<close> and \<open>vector_is_exist\<close>.\<close>

fun find_idx :: "nat list \<Rightarrow> nat \<Rightarrow> nat \<Rightarrow> nat \<Rightarrow> nat option" where
  "find_idx d object idx 0 = None"
| "find_idx d object idx (Suc n) =
     (if d ! idx = object then Some idx else find_idx d object (idx + 1) n)"

text \<open>The \<open>memmove\<close> copies \<open>size - idx\<close> slots from the one after \<open>idx\<close>, the last of them after the slots in use.\<close>

definition vector_remove :: "vector \<Rightarrow> nat \<Rightarrow> (nat \<times> vector) option" where
  "vector_remove v object =
     (if \<not> capacity v > 0 then None
      else case find_idx (data v) object 0 (vsize v) of
             None \<Rightarrow> Some (1, v)
           | Some idx \<Rightarrow>
               let n = vsize v - idx
               in if idx + 1 + n \<le> length (data v)
                  then Some (0, v\<lparr>data := take idx (data v) @ take n (drop (idx + 1) (data v)) @ drop (idx + n) (data v),
                                  vsize := vsize v - 1\<rparr>)
                  else None)"

definition vector_is_exist :: "vector \<Rightarrow> nat \<Rightarrow> bool option" where
  "vector_is_exist v object =
     (if \<not> capacity v > 0 then None else Some (find_idx (data v) object 0 (vsize v) \<noteq> None))"

section \<open>Contents\<close>

definition contents :: "vector \<Rightarrow> nat list" where
  "contents v = take (vsize v) (data v)"

definition vector_ok :: "vector \<Rightarrow> bool" where
  "vector_ok v \<longleftrightarrow> 0 < capacity v \<and> vsize v \<le> capacity v \<and> length (data v) = capacity v \<and> 1 < growth_factor v"

lemma find_idx_spec:
  "idx + n \<le> length d \<Longrightarrow>
   (case find_idx d x idx n of
      None \<Rightarrow> x \<notin> set (take n (drop idx d))
    | Some i \<Rightarrow> idx \<le> i \<and> i < idx + n \<and> d ! i = x \<and> x \<notin> set (take (i - idx) (drop idx d)))"
proof (induction n arbitrary: idx)
  case (Suc n)
  have hd: "drop idx d = d ! idx # drop (Suc idx) d" using Suc.prems by (simp add: Cons_nth_drop_Suc)
  show ?case
  proof (cases "d ! idx = x")
    case False
    then show ?thesis
      using Suc.IH [of "Suc idx"] Suc.prems
      by (auto simp: hd Suc_diff_le take_Cons' split: option.splits)
  qed simp
qed simp

lemma vector_insert_ok:
  assumes "vector_ok v" and "x \<noteq> 0" and "length fresh \<ge> capacity v * growth_factor v + 1"
  shows "\<exists>v'. vector_insert fresh v x = Some v' \<and> vector_ok v' \<and> contents v' = contents v @ [x]"
proof (cases "vsize v = capacity v")
  case True
  then have "capacity v < capacity v * growth_factor v + 1"
    using assms(1) by (cases "growth_factor v") (auto simp: vector_ok_def)
  then show ?thesis
    using True assms by (auto simp: vector_ok_def vector_insert_def Let_def contents_def list_update_append
        upd_conv_take_nth_drop)
next
  case False
  then show ?thesis
    using assms by (auto simp: vector_ok_def vector_insert_def Let_def contents_def upd_conv_take_nth_drop)
qed

lemma remove1_first:
  assumes "i < length xs" "xs ! i = x" "x \<notin> set (take i xs)"
  shows "remove1 x xs = take i xs @ drop (Suc i) xs"
proof -
  have "remove1 x (take i xs @ x # drop (Suc i) xs) = take i xs @ drop (Suc i) xs"
    using assms(3) by (simp add: remove1_append)
  moreover have "xs = take i xs @ x # drop (Suc i) xs" using assms(1,2) by (auto intro: id_take_nth_drop)
  ultimately show ?thesis by metis
qed

lemma vector_remove_at:
  assumes "i < vsize v" "data v ! i = x" "x \<notin> set (take i (data v))"
    and "find_idx (data v) x 0 (vsize v) = Some i"
    and "0 < capacity v" "vsize v \<le> capacity v" "length (data v) = capacity v" "1 < growth_factor v"
    and "vsize v < capacity v"
  shows "\<exists>v'. vector_remove v x = Some (0, v') \<and> vector_ok v' \<and> contents v' = remove1 x (contents v)"
proof -
  have "remove1 x (contents v) = take i (contents v) @ drop (Suc i) (contents v)"
    using assms by (intro remove1_first) (auto simp: contents_def min_def)
  also have "\<dots> = take (vsize v - 1) (take i (data v) @ take (vsize v - i) (drop (i + 1) (data v)) @ drop (vsize v) (data v))"
  proof (cases "vsize v - 1 = i")
    case True
    then show ?thesis using assms(1,6,7) by (simp add: contents_def min_def drop_take)
  next
    case False
    then show ?thesis using assms(1,6,7) by (auto simp: contents_def min_def drop_take)
  qed
  finally show ?thesis
    using assms by (auto simp: vector_remove_def Let_def vector_ok_def contents_def)
qed

lemma vector_okD:
  assumes "vector_ok v"
  shows "0 < capacity v" "vsize v \<le> capacity v" "length (data v) = capacity v" "1 < growth_factor v"
  using assms by (auto simp: vector_ok_def)

lemma vector_exist_ok:
  assumes "vector_ok v"
  shows "vector_is_exist v x = Some (x \<in> set (contents v))"
  using find_idx_spec [of 0 "vsize v" "data v" x] vector_okD [OF assms]
  by (auto simp: vector_is_exist_def contents_def in_set_conv_nth split: option.splits)

lemma vector_remove_missing:
  assumes "vector_ok v" and "x \<notin> set (contents v)"
  shows "vector_remove v x = Some (1, v)"
  using vector_exist_ok [OF assms(1), of x] assms(2) vector_okD [OF assms(1)]
  by (auto simp: vector_is_exist_def vector_remove_def)

lemma vector_remove_ok:
  assumes "vector_ok v" and mem: "x \<in> set (contents v)" and room: "vsize v < capacity v"
  shows "\<exists>v'. vector_remove v x = Some (0, v') \<and> vector_ok v' \<and> contents v' = remove1 x (contents v)"
proof -
  note ok = vector_okD [OF assms(1)] and f = find_idx_spec [of 0 "vsize v" "data v" x]
  obtain i where i: "find_idx (data v) x 0 (vsize v) = Some i"
    using f ok mem by (auto simp: contents_def split: option.splits)
  then have "i < vsize v" "data v ! i = x" "x \<notin> set (take i (data v))" using f ok by auto
  then show ?thesis using i ok room by (rule vector_remove_at)
qed

lemma vector_remove_capacity: "vector_remove v x = Some (r, v') \<Longrightarrow> capacity v' = capacity v"
  by (auto simp: vector_remove_def Let_def split: if_splits option.splits)

lemma vector_access_ok: "vector_ok v \<Longrightarrow> i < vsize v \<Longrightarrow> vector_access v i = Some (contents v ! i)"
  by (auto simp: vector_ok_def vector_access_def contents_def)

lemma length_contents: "vector_ok v \<Longrightarrow> length (contents v) = vsize v"
  by (auto simp: vector_ok_def contents_def)

lemma vector_create_ok:
  assumes "length block = n" and "0 < n" and "1 < g"
  shows "\<exists>v. vector_create block n g = Some v \<and> vector_ok v \<and> contents v = []"
  using assms by (simp add: vector_create_def vector_ok_def contents_def)

section \<open>Properties\<close>

text \<open>On a well-formed vector an insertion of a pointer other than NULL succeeds, whatever the size,
  appends it and keeps the vector well formed; a removal takes out the first occurrence and keeps the
  order of the rest as long as one slot is free, and reports a missing pointer; \<open>vector_is_exist\<close> is membership.\<close>

theorem vector_list_spec:
  assumes "vector_ok v" and "x \<noteq> 0" and "length fresh \<ge> capacity v * growth_factor v + 1"
  shows "(\<exists>v'. vector_insert fresh v x = Some v' \<and> vector_ok v' \<and> contents v' = contents v @ [x]) \<and>
         vector_is_exist v x = Some (x \<in> set (contents v)) \<and>
         (x \<notin> set (contents v) \<longrightarrow> vector_remove v x = Some (1, v)) \<and>
         (x \<in> set (contents v) \<and> vsize v < capacity v \<longrightarrow>
            (\<exists>v'. vector_remove v x = Some (0, v') \<and> vector_ok v' \<and> contents v' = remove1 x (contents v)))"
  using vector_insert_ok [OF assms] vector_exist_ok [OF assms(1)] vector_remove_missing [OF assms(1)] vector_remove_ok [OF assms(1)]
  by blast

theorem vector_list_spec_witness:
  "\<exists>v'. vector_remove \<lparr>data = [5, 6, 5, 0], growth_factor = 2, vsize = 3, capacity = 4\<rparr> 5 = Some (0, v') \<and>
        contents v' = [6, 5]"
proof -
  let ?v = "\<lparr>data = [5, 6, 5, 0], growth_factor = 2, vsize = 3, capacity = 4\<rparr>"
  have "vector_ok ?v" by (simp add: vector_ok_def)
  from vector_list_spec [OF this, of 5 "replicate 9 0"] show ?thesis
    by (auto simp: contents_def)
qed

end
