(* ===== verification/Assoc_Hash.thy ===== *)
theory Assoc_Hash
  imports Util
begin

text \<open>
  The hash function of the item table, the little-endian \<open>hash\<close> of \<open>src/src/handler/mc/assoc.c\<close> (the
  big-endian variant is not compiled). The key is a memory \<open>mem\<close> read from the key's first byte on, so that
  reads after the key's end have a value; \<open>ptr\<close> is the key's address, of which only the alignment matters.
  The function reads words, half words or bytes depending on the alignment; the theorem on it shows
  that the three ways agree and that the bytes after the key have no influence. \<open>mix\<close> is shown reversible.
\<close>

section \<open>Mixing\<close>

type_synonym abc = "u32 \<times> u32 \<times> u32"

definition rot :: "u32 \<Rightarrow> nat \<Rightarrow> u32" where
  "rot x k = push_bit k x XOR drop_bit (32 - k) x"

text \<open>
  A line of \<open>mix\<close> is \<open>x -= z; x ^= rot(z, k); z += y\<close>; the variables change their roles from one
  line to the next, \<open>(a, b, c)\<close>, \<open>(b, c, a)\<close>, \<open>(c, a, b)\<close>, and are back in place after six lines.
\<close>

definition mix_line :: "nat \<Rightarrow> abc \<Rightarrow> abc" where
  "mix_line k = (\<lambda>(x, y, z). (y, z + y, (x - z) XOR rot z k))"

definition mix :: "abc \<Rightarrow> abc" where
  "mix abc = mix_line 4 (mix_line 19 (mix_line 16 (mix_line 8 (mix_line 6 (mix_line 4 abc)))))"

definition final_mix :: "abc \<Rightarrow> abc" where
  "final_mix = (\<lambda>(a, b, c).
     let c = c XOR b; c = c - rot b 14;
         a = a XOR c; a = a - rot c 11;
         b = b XOR a; b = b - rot a 25;
         c = c XOR b; c = c - rot b 16;
         a = a XOR c; a = a - rot c 4;
         b = b XOR a; b = b - rot a 14;
         c = c XOR b; c = c - rot b 24
     in (a, b, c))"

section \<open>Reading the key\<close>

definition k32 :: "(nat \<Rightarrow> u8) \<Rightarrow> nat \<Rightarrow> nat \<Rightarrow> u32" where
  "k32 mem p i = of_nat (load mem (p + 4 * i) 4)"

definition k16 :: "(nat \<Rightarrow> u8) \<Rightarrow> nat \<Rightarrow> nat \<Rightarrow> u32" where
  "k16 mem p i = of_nat (load mem (p + 2 * i) 2)"

definition k8 :: "(nat \<Rightarrow> u8) \<Rightarrow> nat \<Rightarrow> nat \<Rightarrow> u32" where
  "k8 mem p i = ucast (mem (p + i))"

text \<open>The twelve bytes of a full block, added to the state in the three ways of the code.\<close>

definition block32 :: "(nat \<Rightarrow> u8) \<Rightarrow> nat \<Rightarrow> abc \<Rightarrow> abc" where
  "block32 mem p = (\<lambda>(a, b, c). (a + k32 mem p 0, b + k32 mem p 1, c + k32 mem p 2))"

definition block16 :: "(nat \<Rightarrow> u8) \<Rightarrow> nat \<Rightarrow> abc \<Rightarrow> abc" where
  "block16 mem p = (\<lambda>(a, b, c).
     (a + (k16 mem p 0 + push_bit 16 (k16 mem p 1)),
      b + (k16 mem p 2 + push_bit 16 (k16 mem p 3)),
      c + (k16 mem p 4 + push_bit 16 (k16 mem p 5))))"

definition block8 :: "(nat \<Rightarrow> u8) \<Rightarrow> nat \<Rightarrow> abc \<Rightarrow> abc" where
  "block8 mem p = (\<lambda>(a, b, c).
     (a + k8 mem p 0 + push_bit 8 (k8 mem p 1) + push_bit 16 (k8 mem p 2) + push_bit 24 (k8 mem p 3),
      b + k8 mem p 4 + push_bit 8 (k8 mem p 5) + push_bit 16 (k8 mem p 6) + push_bit 24 (k8 mem p 7),
      c + k8 mem p 8 + push_bit 8 (k8 mem p 9) + push_bit 16 (k8 mem p 10) + push_bit 24 (k8 mem p 11)))"

text \<open>The loop over all but the last block; it returns the position and the length that are left.\<close>

function hash_loop ::
  "((nat \<Rightarrow> u8) \<Rightarrow> nat \<Rightarrow> abc \<Rightarrow> abc) \<Rightarrow> (nat \<Rightarrow> u8) \<Rightarrow> nat \<Rightarrow> nat \<Rightarrow> abc \<Rightarrow> nat \<times> nat \<times> abc" where
  "hash_loop block mem p len abc =
     (if len > 12 then hash_loop block mem (p + 12) (len - 12) (mix (block mem p abc)) else (p, len, abc))"
  by pat_completeness auto
termination by (relation "measure (\<lambda>(_, _, _, len, _). len)") auto

declare hash_loop.simps [simp del]

text \<open>The last block: the \<open>switch\<close> statements, with their fall-throughs.\<close>

definition tail32 :: "(nat \<Rightarrow> u8) \<Rightarrow> nat \<Rightarrow> nat \<Rightarrow> abc \<Rightarrow> abc" where
  "tail32 mem p len = (\<lambda>(a, b, c). let k = k32 mem p in
     if len = 12 then (a + k 0, b + k 1, c + k 2)
     else if len = 11 then (a + k 0, b + k 1, c + (k 2 AND 0xffffff))
     else if len = 10 then (a + k 0, b + k 1, c + (k 2 AND 0xffff))
     else if len = 9 then (a + k 0, b + k 1, c + (k 2 AND 0xff))
     else if len = 8 then (a + k 0, b + k 1, c)
     else if len = 7 then (a + k 0, b + (k 1 AND 0xffffff), c)
     else if len = 6 then (a + k 0, b + (k 1 AND 0xffff), c)
     else if len = 5 then (a + k 0, b + (k 1 AND 0xff), c)
     else if len = 4 then (a + k 0, b, c)
     else if len = 3 then (a + (k 0 AND 0xffffff), b, c)
     else if len = 2 then (a + (k 0 AND 0xffff), b, c)
     else if len = 1 then (a + (k 0 AND 0xff), b, c)
     else (a, b, c))"

definition tail16 :: "(nat \<Rightarrow> u8) \<Rightarrow> nat \<Rightarrow> nat \<Rightarrow> abc \<Rightarrow> abc" where
  "tail16 mem p len = (\<lambda>(a, b, c).
     let k = k16 mem p; k8 = k8 mem p;
         w0 = k 0 + push_bit 16 (k 1); w1 = k 2 + push_bit 16 (k 3)
     in
     if len = 12 then (a + w0, b + w1, c + (k 4 + push_bit 16 (k 5)))
     else if len = 11 then (a + w0, b + w1, c + push_bit 16 (k8 10) + k 4)
     else if len = 10 then (a + w0, b + w1, c + k 4)
     else if len = 9 then (a + w0, b + w1, c + k8 8)
     else if len = 8 then (a + w0, b + w1, c)
     else if len = 7 then (a + w0, b + push_bit 16 (k8 6) + k 2, c)
     else if len = 6 then (a + w0, b + k 2, c)
     else if len = 5 then (a + w0, b + k8 4, c)
     else if len = 4 then (a + w0, b, c)
     else if len = 3 then (a + push_bit 16 (k8 2) + k 0, b, c)
     else if len = 2 then (a + k 0, b, c)
     else if len = 1 then (a + k8 0, b, c)
     else (a, b, c))"

definition tail8 :: "(nat \<Rightarrow> u8) \<Rightarrow> nat \<Rightarrow> nat \<Rightarrow> abc \<Rightarrow> abc" where
  "tail8 mem p len = (\<lambda>(a, b, c). let k = k8 mem p;
     c = (if len \<ge> 12 then c + push_bit 24 (k 11) else c);
     c = (if len \<ge> 11 then c + push_bit 16 (k 10) else c);
     c = (if len \<ge> 10 then c + push_bit 8 (k 9) else c);
     c = (if len \<ge> 9 then c + k 8 else c);
     b = (if len \<ge> 8 then b + push_bit 24 (k 7) else b);
     b = (if len \<ge> 7 then b + push_bit 16 (k 6) else b);
     b = (if len \<ge> 6 then b + push_bit 8 (k 5) else b);
     b = (if len \<ge> 5 then b + k 4 else b);
     a = (if len \<ge> 4 then a + push_bit 24 (k 3) else a);
     a = (if len \<ge> 3 then a + push_bit 16 (k 2) else a);
     a = (if len \<ge> 2 then a + push_bit 8 (k 1) else a);
     a = (if len \<ge> 1 then a + k 0 else a)
     in (a, b, c))"

definition hash_with ::
  "((nat \<Rightarrow> u8) \<Rightarrow> nat \<Rightarrow> abc \<Rightarrow> abc) \<Rightarrow> ((nat \<Rightarrow> u8) \<Rightarrow> nat \<Rightarrow> nat \<Rightarrow> abc \<Rightarrow> abc) \<Rightarrow>
   (nat \<Rightarrow> u8) \<Rightarrow> nat \<Rightarrow> u32 \<Rightarrow> u32" where
  "hash_with block tail mem len i =
     (let (p, n, abc) = hash_loop block mem 0 len (i, i, i)
      in if n = 0 then snd (snd abc) else snd (snd (final_mix (tail mem p n abc))))"

definition hash :: "nat \<Rightarrow> (nat \<Rightarrow> u8) \<Rightarrow> nat \<Rightarrow> u32 \<Rightarrow> u32" where
  "hash ptr mem len initval =
     (let i = 0xdeadbeef + of_nat len + initval
      in if ptr mod 4 = 0 then hash_with block32 tail32 mem len i
         else if ptr mod 2 = 0 then hash_with block16 tail16 mem len i
         else hash_with block8 tail8 mem len i)"

section \<open>Reversibility of \<open>mix\<close>\<close>

text \<open>The lines of \<open>mix\<close> undone from the last to the first.\<close>

definition unmix_line :: "nat \<Rightarrow> abc \<Rightarrow> abc" where
  "unmix_line k = (\<lambda>(y, z', x'). let z = z' - y in ((x' XOR rot z k) + z, y, z))"

definition unmix :: "abc \<Rightarrow> abc" where
  "unmix abc = unmix_line 4 (unmix_line 6 (unmix_line 8 (unmix_line 16 (unmix_line 19 (unmix_line 4 abc)))))"

lemma xor_cancel [simp]: "(x XOR y) XOR y = (x :: 'a::len word)"
  by (simp add: xor.assoc)

lemma mix_line_inverse [simp]: "unmix_line k (mix_line k abc) = abc" "mix_line k (unmix_line k abc) = abc"
  by (cases abc; simp add: mix_line_def unmix_line_def Let_def)+

text \<open>\<open>mix\<close> is reversible, as its comment says: it has an inverse on both sides, so two states that
  differ before it differ after it.\<close>

theorem mix_reversible: "unmix (mix abc) = abc \<and> mix (unmix abc) = abc"
  by (simp add: mix_def unmix_def)

section \<open>Alignment\<close>

lemma load_small:
  "load mem p 4 = unat (mem p) + 256 * unat (mem (p + 1)) + 65536 * unat (mem (p + 2)) + 16777216 * unat (mem (p + 3))"
  "load mem p 2 = unat (mem p) + 256 * unat (mem (p + 1))"
proof -
  have s: "p + 1 = Suc p" "p + 2 = Suc (Suc p)" "p + 3 = Suc (Suc (Suc p))" by simp_all
  have n: "4 = Suc (Suc (Suc (Suc 0)))" "2 = Suc (Suc 0)" by simp_all
  show "load mem p 4 = unat (mem p) + 256 * unat (mem (p + 1)) + 65536 * unat (mem (p + 2)) + 16777216 * unat (mem (p + 3))"
    unfolding s n(1) by simp
  show "load mem p 2 = unat (mem p) + 256 * unat (mem (p + 1))"
    unfolding s n(2) by simp
qed

text \<open>Words of the key as sums of its bytes.\<close>

lemma k_bytes:
  "k32 mem p i = k8 mem p (4 * i) + 0x100 * k8 mem p (4 * i + 1) + 0x10000 * k8 mem p (4 * i + 2) + 0x1000000 * k8 mem p (4 * i + 3)"
  "k16 mem p i = k8 mem p (2 * i) + 0x100 * k8 mem p (2 * i + 1)"
  by (simp_all add: k32_def k16_def k8_def load_small add.assoc)

text \<open>The masked words of the last block are the bytes that belong to the key.\<close>

lemma and_of_nat_mask:
  "(of_nat n :: u32) AND 0xffffff = of_nat (n mod 16777216)"
  "(of_nat n :: u32) AND 0xffff = of_nat (n mod 65536)"
  "(of_nat n :: u32) AND 0xff = of_nat (n mod 256)"
proof -
  have "(of_nat n :: u32) AND mask k = of_nat (n mod 2 ^ k)" if "k \<le> 32" for k
    using that by (simp add: take_bit_eq_mask [symmetric] take_bit_of_nat flip: take_bit_eq_mod)
  from this [of 24] this [of 16] this [of 8] show
    "(of_nat n :: u32) AND 0xffffff = of_nat (n mod 16777216)"
    "(of_nat n :: u32) AND 0xffff = of_nat (n mod 65536)"
    "(of_nat n :: u32) AND 0xff = of_nat (n mod 256)"
    by (simp_all add: mask_eq_exp_minus_1)
qed

lemma unat_byte [simp]: "unat (x :: u8) < 256"
  using unsigned_less [of x, where 'a = nat] by simp

lemma k32_masked:
  "k32 mem p i AND 0xffffff = k8 mem p (4 * i) + 0x100 * k8 mem p (4 * i + 1) + 0x10000 * k8 mem p (4 * i + 2)"
  "k32 mem p i AND 0xffff = k8 mem p (4 * i) + 0x100 * k8 mem p (4 * i + 1)"
  "k32 mem p i AND 0xff = k8 mem p (4 * i)"
proof -
  let ?b = "\<lambda>j. unat (mem (p + (4 * i + j)))"
  define n where "n = load mem (p + 4 * i) 4"
  have n: "n = ?b 0 + 256 * ?b 1 + 65536 * ?b 2 + 16777216 * ?b 3" by (simp add: n_def load_small add.assoc)
  have b: "?b j < 256" for j by simp
  have m: "n mod 16777216 = ?b 0 + 256 * ?b 1 + 65536 * ?b 2" "n mod 65536 = ?b 0 + 256 * ?b 1" "n mod 256 = ?b 0"
  proof -
    have eq: "(x + m * y) mod m = x" if "x < m" for x y m :: nat using that by simp
    have "n = (?b 0 + 256 * ?b 1 + 65536 * ?b 2) + 16777216 * ?b 3"
      and "n = (?b 0 + 256 * ?b 1) + 65536 * (?b 2 + 256 * ?b 3)"
      and "n = ?b 0 + 256 * (?b 1 + 256 * ?b 2 + 65536 * ?b 3)" using n by simp_all
    moreover have "?b 0 + 256 * ?b 1 + 65536 * ?b 2 < 16777216" "?b 0 + 256 * ?b 1 < 65536" "?b 0 < 256"
      using b [of 0] b [of 1] b [of 2] by linarith+
    ultimately show "n mod 16777216 = ?b 0 + 256 * ?b 1 + 65536 * ?b 2" "n mod 65536 = ?b 0 + 256 * ?b 1"
      "n mod 256 = ?b 0"
      using eq by metis+
  qed
  have k: "k8 mem p (4 * i + j) = of_nat (?b j)" for j by (simp add: k8_def)
  show "k32 mem p i AND 0xffffff = k8 mem p (4 * i) + 0x100 * k8 mem p (4 * i + 1) + 0x10000 * k8 mem p (4 * i + 2)"
    "k32 mem p i AND 0xffff = k8 mem p (4 * i) + 0x100 * k8 mem p (4 * i + 1)"
    "k32 mem p i AND 0xff = k8 mem p (4 * i)"
    using k [of 0] k [of 1] k [of 2]
    by (simp_all add: k32_def and_of_nat_mask m flip: n_def)
qed

lemma block_agree: "block32 mem p = block8 mem p" "block16 mem p = block8 mem p"
  by (auto simp: block32_def block16_def block8_def k_bytes push_bit_eq_mult algebra_simps
      simp flip: numeral_2_eq_2 numeral_3_eq_3)

lemma tail_agree:
  assumes "n \<le> 12"
  shows "tail32 mem p n = tail8 mem p n" "tail16 mem p n = tail8 mem p n"
proof -
  have "n \<in> set [0..<13]" using assms by simp
  then show "tail32 mem p n = tail8 mem p n" "tail16 mem p n = tail8 mem p n"
    unfolding tail32_def tail16_def tail8_def Let_def k32_masked
    by (auto simp: upt_rec k_bytes push_bit_eq_mult algebra_simps
        simp flip: numeral_2_eq_2 numeral_3_eq_3)
qed

lemma hash_loop_block: "(\<And>mem p. f mem p = g mem p) \<Longrightarrow> hash_loop f mem p n abc = hash_loop g mem p n abc"
  by (induction f mem p n abc rule: hash_loop.induct) (simp add: hash_loop.simps)

lemma hash_loop_rest: "hash_loop f mem p n abc = (q, m, abc') \<Longrightarrow> m \<le> 12 \<and> q + m = p + n"
  by (induction f mem p n abc rule: hash_loop.induct) (fastforce simp: hash_loop.simps split: if_splits)

lemma hash_with_agree:
  "hash_with block32 tail32 mem n i = hash_with block8 tail8 mem n i"
  "hash_with block16 tail16 mem n i = hash_with block8 tail8 mem n i"
proof -
  obtain q m abc where l: "hash_loop block8 mem 0 n (i, i, i) = (q, m, abc)" by (cases "hash_loop block8 mem 0 n (i, i, i)")
  have "hash_loop block32 mem 0 n (i, i, i) = (q, m, abc)" "hash_loop block16 mem 0 n (i, i, i) = (q, m, abc)"
    using l hash_loop_block [of block32 block8] hash_loop_block [of block16 block8] by (simp_all add: block_agree)
  then show "hash_with block32 tail32 mem n i = hash_with block8 tail8 mem n i"
    "hash_with block16 tail16 mem n i = hash_with block8 tail8 mem n i"
    using l hash_loop_rest [OF l] by (simp_all add: hash_with_def tail_agree)
qed

text \<open>The bytewise variant reads the key's bytes only.\<close>

lemma hash_loop_bytes:
  assumes "\<And>j. j < p + n \<Longrightarrow> mem j = mem' j"
  shows "hash_loop block8 mem p n abc = hash_loop block8 mem' p n abc"
  using assms
proof (induction "block8" mem p n abc rule: hash_loop.induct)
  case (1 mem p n abc)
  show ?case
  proof (cases "n > 12")
    case True
    then have "block8 mem p = block8 mem' p" using 1(2) by (auto simp: block8_def k8_def)
    then show ?thesis using True 1 by (simp add: hash_loop.simps [of _ _ p n])
  qed (simp add: hash_loop.simps)
qed

lemma tail8_bytes: "(\<And>j. j < p + n \<Longrightarrow> mem j = mem' j) \<Longrightarrow> tail8 mem p n = tail8 mem' p n"
  by (auto simp: tail8_def k8_def Let_def)

lemma hash_with_bytes:
  assumes "\<And>j. j < n \<Longrightarrow> mem j = mem' j"
  shows "hash_with block8 tail8 mem n i = hash_with block8 tail8 mem' n i"
proof -
  obtain q m abc where l: "hash_loop block8 mem 0 n (i, i, i) = (q, m, abc)" by (cases "hash_loop block8 mem 0 n (i, i, i)")
  moreover have "tail8 mem q m = tail8 mem' q m" using hash_loop_rest [OF l] assms by (intro tail8_bytes) auto
  moreover have "hash_loop block8 mem' 0 n (i, i, i) = (q, m, abc)"
    using l hash_loop_bytes [of 0 n mem mem'] assms by simp
  ultimately show ?thesis by (simp add: hash_with_def)
qed

text \<open>The hash of a key is the same at every address, whichever of the three reading loops its alignment
  selects, and it depends on the \<open>len\<close> bytes of the key only, although the word-aligned loop reads beyond
  the key's end: two memories that agree on the key give the same hash at any two addresses.\<close>

theorem hash_alignment:
  assumes "\<forall>j < len. mem j = mem' j"
  shows "hash ptr mem len initval = hash ptr' mem' len initval"
  using assms hash_with_bytes [of len mem mem'] by (simp add: hash_def Let_def hash_with_agree)

theorem hash_alignment_witness:
  "hash 4 (\<lambda>j. [1, 2, 3, 4, 5, 6, 7, 8, 9, 10, 11, 12, 13, 99, 98, 97] ! j) 13 0 =
   hash 7 (\<lambda>j. if j < 13 then of_nat (j + 1) else 0) 13 0"
proof -
  have "\<forall>j < 13. [1, 2, 3, 4, 5, 6, 7, 8, 9, 10, 11, 12, 13, 99, 98, 97] ! j = (if j < 13 then of_nat (j + 1) else 0 :: u8)"
    by code_simp
  then show ?thesis by (rule hash_alignment)
qed

text \<open>The hash the table uses, of a key given as its bytes.\<close>

definition key_hash :: "u8 list \<Rightarrow> u32" where
  "key_hash key = hash 1 (\<lambda>j. if j < length key then key ! j else 0) (length key) 0"

end
