(* ===== verification/Assoc.thy ===== *)
theory Assoc
  imports Assoc_Hash
begin

text \<open>
  The item table, \<open>src/src/handler/mc/assoc.c\<close>, and the item, \<open>src/src/handler/mc/type/item.h\<close> with the
  macros of \<open>items.h\<close>. Items live in a store from addresses to records and are chained through \<open>h_next\<close>;
  address 0 is NULL. A table is the list of its bucket heads. While the table expands there are two
  tables, and a key is looked for in the old one if its bucket was not moved yet. \<open>None\<close> is an access
  through a bad pointer, an index outside a table, a failed assertion or a loop that does not end.

  The theorems show that the operations implement a finite map from keys to items, in every stage of an
  expansion, and that they never reach \<open>None\<close>.
\<close>

section \<open>Items\<close>

record item =
  it_next :: nat
  it_prev :: nat
  h_next :: nat
  it_time :: u32
  exptime :: u32
  nbytes :: int
  refcount :: u16
  nsuffix :: u8
  it_flags :: u8
  slabs_clsid :: u8
  nkey :: u8
  cas_id :: u64
  end_bytes :: "u8 list"     \<comment> \<open>\<open>end[]\<close>: the key and its NUL, the suffix, the data\<close>

type_synonym store = "nat \<rightharpoonup> item"
type_synonym key = "u8 list"

definition ITEM_key :: "item \<Rightarrow> key" where
  "ITEM_key it = take (unat (nkey it)) (end_bytes it)"

definition ITEM_suffix :: "item \<Rightarrow> u8 list" where
  "ITEM_suffix it = take (unat (nsuffix it)) (drop (unat (nkey it) + 1) (end_bytes it))"

definition ITEM_data :: "item \<Rightarrow> u8 list" where
  "ITEM_data it = take (nat (nbytes it)) (drop (unat (nkey it) + 1 + unat (nsuffix it)) (end_bytes it))"

text \<open>\<open>sizeof (struct _stritem)\<close> with pointers of eight bytes.\<close>

definition sizeof_item :: nat where
  "sizeof_item = 56"

definition ITEM_ntotal :: "item \<Rightarrow> nat" where
  "ITEM_ntotal it = sizeof_item + unat (nkey it) + 1 + unat (nsuffix it) + nat (nbytes it)"

section \<open>The table\<close>

record assoc =
  hashpower :: nat
  primary_hashtable :: "nat list"
  old_hashtable :: "nat list"
  hash_items :: u32
  expanding :: bool
  expand_bucket :: u32

definition hashsize :: "nat \<Rightarrow> u64" where
  "hashsize n = push_bit n 1"

definition hashmask :: "nat \<Rightarrow> u64" where
  "hashmask n = hashsize n - 1"

definition assoc_init :: assoc where
  "assoc_init = \<lparr>hashpower = 16, primary_hashtable = replicate (unat (hashsize 16)) 0, old_hashtable = [],
                 hash_items = 0, expanding = False, expand_bucket = 0\<rparr>"

text \<open>A place that holds a pointer to an item: a bucket or the \<open>h_next\<close> of an item.\<close>

datatype slot = Old nat | Primary nat | Hnext nat

definition read_slot :: "store \<Rightarrow> assoc \<Rightarrow> slot \<Rightarrow> nat option" where
  "read_slot h st s = (case s of
     Old i \<Rightarrow> if i < length (old_hashtable st) then Some (old_hashtable st ! i) else None
   | Primary i \<Rightarrow> if i < length (primary_hashtable st) then Some (primary_hashtable st ! i) else None
   | Hnext a \<Rightarrow> map_option h_next (h a))"

definition write_slot :: "slot \<Rightarrow> nat \<Rightarrow> store \<Rightarrow> assoc \<Rightarrow> (store \<times> assoc) option" where
  "write_slot s p h st = (case s of
     Old i \<Rightarrow> if i < length (old_hashtable st)
              then Some (h, st\<lparr>old_hashtable := (old_hashtable st)[i := p]\<rparr>) else None
   | Primary i \<Rightarrow> if i < length (primary_hashtable st)
                  then Some (h, st\<lparr>primary_hashtable := (primary_hashtable st)[i := p]\<rparr>) else None
   | Hnext a \<Rightarrow> map_option (\<lambda>it. (h(a \<mapsto> it\<lparr>h_next := p\<rparr>), st)) (h a))"

definition bucket :: "u32 \<Rightarrow> nat \<Rightarrow> nat" where
  "bucket hv n = unat (ucast hv AND hashmask n)"

text \<open>The bucket in which a hash value is looked for and put.\<close>

definition home :: "assoc \<Rightarrow> u32 \<Rightarrow> slot" where
  "home st hv =
     (let oldbucket = bucket hv (hashpower st - 1)
      in if expanding st \<and> oldbucket \<ge> unat (expand_bucket st) then Old oldbucket
         else Primary (bucket hv (hashpower st)))"

partial_function (option) chain_find :: "store \<Rightarrow> key \<Rightarrow> nat \<Rightarrow> nat option" where
  "chain_find h key p =
     (if p = 0 then Some 0
      else do {
        it \<leftarrow> h p;
        if length key = unat (nkey it) \<and> key = ITEM_key it then Some p
        else chain_find h key (h_next it)
      })"

definition assoc_find :: "store \<Rightarrow> assoc \<Rightarrow> key \<Rightarrow> nat option" where
  "assoc_find h st key = do {
     p \<leftarrow> read_slot h st (home st (key_hash key));
     chain_find h key p
   }"

partial_function (option) before_loop :: "store \<Rightarrow> assoc \<Rightarrow> key \<Rightarrow> slot \<Rightarrow> slot option" where
  "before_loop h st key pos = do {
     p \<leftarrow> read_slot h st pos;
     if p = 0 then Some pos
     else do {
       it \<leftarrow> h p;
       if length key \<noteq> unat (nkey it) \<or> key \<noteq> ITEM_key it then before_loop h st key (Hnext p)
       else Some pos
     }
   }"

definition hashitem_before :: "store \<Rightarrow> assoc \<Rightarrow> key \<Rightarrow> slot option" where
  "hashitem_before h st key = before_loop h st key (home st (key_hash key))"

text \<open>The bucket number of the move loop is an \<open>int\<close>, negative for 32-bit hash values from \<open>2 ^ 31\<close> on.\<close>

definition move_bucket :: "assoc \<Rightarrow> item \<Rightarrow> int" where
  "move_bucket st it = sint (of_nat (bucket (key_hash (ITEM_key it)) (hashpower st)) :: u32)"

partial_function (option) move_chain :: "store \<Rightarrow> assoc \<Rightarrow> nat \<Rightarrow> (store \<times> assoc) option" where
  "move_chain h st p =
     (if p = 0 then Some (h, st)
      else do {
        it \<leftarrow> h p;
        let b = move_bucket st it;
        if b < 0 \<or> nat b \<ge> length (primary_hashtable st) then None
        else move_chain (h(p \<mapsto> it\<lparr>h_next := primary_hashtable st ! nat b\<rparr>))
               (st\<lparr>primary_hashtable := (primary_hashtable st)[nat b := p]\<rparr>) (h_next it)
      })"

definition do_assoc_move_next_bucket :: "store \<Rightarrow> assoc \<Rightarrow> (store \<times> assoc) option" where
  "do_assoc_move_next_bucket h st =
     (if expanding st then do {
        p \<leftarrow> read_slot h st (Old (unat (expand_bucket st)));
        (h1, st1) \<leftarrow> move_chain h st p;
        let st2 = st1\<lparr>old_hashtable := (old_hashtable st1)[unat (expand_bucket st1) := 0],
                      expand_bucket := expand_bucket st1 + 1\<rparr>;
        if ucast (expand_bucket st2) = hashsize (hashpower st2 - 1)
        then Some (h1, st2\<lparr>expanding := False, old_hashtable := []\<rparr>)
        else Some (h1, st2)
      }
      else Some (h, st))"

text \<open>\<open>calloc_ok\<close> tells whether the allocation of the new table succeeds.\<close>

definition assoc_expand :: "bool \<Rightarrow> store \<Rightarrow> assoc \<Rightarrow> (store \<times> assoc) option" where
  "assoc_expand calloc_ok h st =
     (let st1 = st\<lparr>old_hashtable := primary_hashtable st\<rparr>
      in if calloc_ok
         then do_assoc_move_next_bucket h
                (st1\<lparr>primary_hashtable := replicate (unat (hashsize (hashpower st + 1))) 0,
                     hashpower := hashpower st + 1, expanding := True, expand_bucket := 0\<rparr>)
         else Some (h, st1))"

definition assoc_insert :: "bool \<Rightarrow> store \<Rightarrow> assoc \<Rightarrow> nat \<Rightarrow> (store \<times> assoc) option" where
  "assoc_insert calloc_ok h st a = do {
     it \<leftarrow> h a;
     let s = home st (key_hash (ITEM_key it));
     p \<leftarrow> read_slot h st s;
     (h1, st1) \<leftarrow> write_slot s a (h(a \<mapsto> it\<lparr>h_next := p\<rparr>)) st;
     let st2 = st1\<lparr>hash_items := hash_items st1 + 1\<rparr>;
     if \<not> expanding st2 \<and> ucast (hash_items st2) > (hashsize (hashpower st2) * 3) div 2
     then assoc_expand calloc_ok h1 st2
     else Some (h1, st2)
   }"

definition assoc_delete :: "store \<Rightarrow> assoc \<Rightarrow> key \<Rightarrow> (store \<times> assoc) option" where
  "assoc_delete h st key = do {
     before \<leftarrow> hashitem_before h st key;
     p \<leftarrow> read_slot h st before;
     if p = 0 then None
     else do {
       it \<leftarrow> h p;
       write_slot before (h_next it) (h(p \<mapsto> it\<lparr>h_next := 0\<rparr>)) (st\<lparr>hash_items := hash_items st - 1\<rparr>)
     }
   }"

declare chain_find.simps [code] before_loop.simps [code] move_chain.simps [code]

section \<open>Chains\<close>

primrec hchain :: "store \<Rightarrow> nat \<Rightarrow> nat list \<Rightarrow> bool" where
  "hchain h p [] \<longleftrightarrow> p = 0"
| "hchain h p (a # as) \<longleftrightarrow> p = a \<and> a \<noteq> 0 \<and> (\<exists>it. h a = Some it \<and> hchain h (h_next it) as)"

definition key_at :: "store \<Rightarrow> nat \<Rightarrow> key" where
  "key_at h a = (case h a of None \<Rightarrow> [] | Some it \<Rightarrow> ITEM_key it)"

text \<open>A key is shorter than its \<open>nkey\<close> only in a broken item.\<close>

definition key_ok :: "item \<Rightarrow> bool" where
  "key_ok it \<longleftrightarrow> length (ITEM_key it) = unat (nkey it)"

text \<open>The store with the hash chains forgotten: what the table's operations leave unchanged.\<close>

definition unchained :: "store \<Rightarrow> store" where
  "unchained h = (\<lambda>a. map_option (\<lambda>it. it\<lparr>h_next := 0\<rparr>) (h a))"

lemma hchain_0 [simp]: "hchain h 0 xs \<longleftrightarrow> xs = []"
  by (cases xs) auto

lemma hchain_upd [simp]: "a \<notin> set xs \<Longrightarrow> hchain (h(a := v)) p xs = hchain h p xs"
  by (induction xs arbitrary: p) auto

lemma hchain_cong: "(\<And>a. a \<in> set xs \<Longrightarrow> h' a = h a) \<Longrightarrow> hchain h' p xs = hchain h p xs"
  by (induction xs arbitrary: p) auto

lemma hchain_unique: "hchain h p xs \<Longrightarrow> hchain h p ys \<Longrightarrow> xs = ys"
proof (induction xs arbitrary: p ys)
  case (Cons x xs)
  then show ?case by (cases ys) auto
qed auto

lemma hchain_suffix: "hchain h p (xs @ a # ys) \<Longrightarrow> hchain h a (a # ys)"
  by (induction xs arbitrary: p) auto

lemma hchain_distinct: "hchain h p xs \<Longrightarrow> distinct xs"
proof (induction xs arbitrary: p)
  case (Cons x xs)
  have "x \<notin> set xs"
  proof
    assume "x \<in> set xs"
    then obtain us vs where "xs = us @ x # vs" by (auto dest: split_list)
    then have "hchain h x (x # us @ x # vs)" "hchain h x (x # vs)"
      using Cons.prems hchain_suffix [of h p "x # us" x vs] by auto
    then show False using hchain_unique [of h x] by fastforce
  qed
  then show ?case using Cons by auto
qed auto

lemma hchain_in_store: "hchain h p xs \<Longrightarrow> a \<in> set xs \<Longrightarrow> a \<noteq> 0 \<and> a \<in> dom h"
  by (induction xs arbitrary: p) auto

lemma unchained_upd [simp]: "h a = Some it \<Longrightarrow> unchained (h(a \<mapsto> it\<lparr>h_next := p\<rparr>)) = unchained h"
  by (auto simp: unchained_def)

lemma unchained_item:
  assumes "unchained h' = unchained h" and "h a = Some it"
  obtains p where "h' a = Some (it\<lparr>h_next := p\<rparr>)"
proof -
  have "map_option (\<lambda>it. it\<lparr>h_next := 0\<rparr>) (h' a) = Some (it\<lparr>h_next := 0\<rparr>)"
    using fun_cong [OF assms(1), of a] assms(2) by (simp add: unchained_def)
  then obtain it' where "h' a = Some it'" "it'\<lparr>h_next := 0\<rparr> = it\<lparr>h_next := 0\<rparr>" by auto
  moreover from this(2) have "it' = it\<lparr>h_next := h_next it'\<rparr>" by (cases it; cases it') simp
  ultimately show thesis using that by (metis (full_types))
qed

lemma ITEM_upd [simp]:
  "ITEM_key (it\<lparr>h_next := p\<rparr>) = ITEM_key it" "ITEM_suffix (it\<lparr>h_next := p\<rparr>) = ITEM_suffix it"
  "ITEM_data (it\<lparr>h_next := p\<rparr>) = ITEM_data it" "ITEM_ntotal (it\<lparr>h_next := p\<rparr>) = ITEM_ntotal it"
  "key_ok (it\<lparr>h_next := p\<rparr>) = key_ok it"
  by (simp_all add: ITEM_key_def ITEM_suffix_def ITEM_data_def ITEM_ntotal_def key_ok_def)

lemma unchained_dom: "unchained h' = unchained h \<Longrightarrow> h' a = None \<longleftrightarrow> h a = None"
  by (metis option.map_disc_iff unchained_def)

lemma key_at_unchained:
  assumes "unchained h' = unchained h"
  shows "key_at h' a = key_at h a"
proof (cases "h a")
  case None
  then show ?thesis using unchained_dom [OF assms, of a] by (simp add: key_at_def)
next
  case (Some it)
  from unchained_item [OF assms Some] obtain p where "h' a = Some (it\<lparr>h_next := p\<rparr>)" .
  then show ?thesis using Some by (simp add: key_at_def)
qed

section \<open>The relation to a map\<close>

definition slots :: "assoc \<Rightarrow> slot set" where
  "slots st = Primary ` {..<2 ^ hashpower st} \<union> (if expanding st then Old ` {..<2 ^ (hashpower st - 1)} else {})"

definition table_ok :: "assoc \<Rightarrow> bool" where
  "table_ok st \<longleftrightarrow> 1 \<le> hashpower st \<and> hashpower st \<le> 31 \<and> length (primary_hashtable st) = 2 ^ hashpower st \<and>
     (expanding st \<longrightarrow> length (old_hashtable st) = 2 ^ (hashpower st - 1) \<and>
                      unat (expand_bucket st) < 2 ^ (hashpower st - 1))"

text \<open>\<open>cs\<close> gives the chain of every bucket; a key's item, if it has one, is in the chain of its home.\<close>

definition chains_ok :: "store \<Rightarrow> assoc \<Rightarrow> (slot \<Rightarrow> nat list) \<Rightarrow> bool" where
  "chains_ok h st cs \<longleftrightarrow>
     (\<forall>s \<in> slots st. (\<exists>p. read_slot h st s = Some p \<and> hchain h p (cs s)) \<and>
        (\<forall>a \<in> set (cs s). key_ok (the (h a)) \<and> home st (key_hash (key_at h a)) = s))"

definition holds :: "store \<Rightarrow> assoc \<Rightarrow> (slot \<Rightarrow> nat list) \<Rightarrow> (key \<rightharpoonup> nat) \<Rightarrow> bool" where
  "holds h st cs M \<longleftrightarrow> (\<forall>k a. M k = Some a \<longleftrightarrow> a \<in> set (cs (home st (key_hash k))) \<and> key_at h a = k)"

definition assoc_rel :: "store \<Rightarrow> assoc \<Rightarrow> (key \<rightharpoonup> nat) \<Rightarrow> bool" where
  "assoc_rel h st M \<longleftrightarrow> table_ok st \<and> finite (dom M) \<and> unat (hash_items st) = card (dom M) \<and>
     (\<exists>cs. chains_ok h st cs \<and> holds h st cs M)"

lemma unat_hashsize: "n < 64 \<Longrightarrow> unat (hashsize n) = 2 ^ n"
  using unat_of_nat_small [of "2 ^ n", where 'a = 64] power_strict_increasing [of n 64 "2 :: nat"]
  by (simp add: hashsize_def push_bit_eq_mult)

lemma bucket_mod: "n \<le> 32 \<Longrightarrow> bucket hv n = unat hv mod 2 ^ n"
proof -
  assume "n \<le> 32"
  have "hashmask n = mask n" by (simp add: hashmask_def hashsize_def mask_eq_exp_minus_1 push_bit_eq_mult)
  then have "bucket hv n = unat (take_bit n (of_nat (unat hv) :: u64))"
    by (simp add: bucket_def take_bit_eq_mask)
  also have "\<dots> = unat (of_nat (take_bit n (unat hv)) :: u64)" by (simp only: take_bit_of_nat)
  also have "\<dots> = unat hv mod 2 ^ n"
  proof -
    have "take_bit n (unat hv) < 2 ^ 64"
      using unsigned_less [of hv, where 'a = nat] take_bit_nat_less_eq_self [of n "unat hv"] by (simp del: take_bit_nat_less_eq_self)
    then show ?thesis by (simp add: unat_of_nat_small take_bit_eq_mod)
  qed
  finally show ?thesis .
qed

lemma bucket_less: "n \<le> 32 \<Longrightarrow> bucket hv n < 2 ^ n"
  by (simp add: bucket_mod)

lemma home_in_slots: "table_ok st \<Longrightarrow> home st hv \<in> slots st"
  by (auto simp: table_ok_def home_def slots_def Let_def bucket_less)

text \<open>The home of a hash value depends on the stage of the expansion only.\<close>

definition stage :: "assoc \<Rightarrow> nat \<times> bool \<times> u32" where
  "stage st = (hashpower st, expanding st, expand_bucket st)"

lemma stage_eq:
  assumes "stage st' = stage st"
  shows "home st' = home st" and "slots st' = slots st"
  using assms by (auto simp: stage_def home_def slots_def Let_def fun_eq_iff)

lemma stage_upd [simp]: "stage (st\<lparr>hash_items := n\<rparr>) = stage st"
  by (simp add: stage_def)

lemma table_ok_items [simp]: "table_ok (st\<lparr>hash_items := n\<rparr>) = table_ok st"
  by (simp add: table_ok_def)

lemma read_slot_items [simp]: "read_slot h (st\<lparr>hash_items := n\<rparr>) s = read_slot h st s"
  by (simp add: read_slot_def split: slot.split)

lemma read_bucket: "s \<in> slots st \<Longrightarrow> read_slot h' st s = read_slot h st s"
  by (auto simp: slots_def read_slot_def split: slot.split if_splits)

lemma write_bucket:
  assumes "table_ok st" and "s \<in> slots st"
  obtains st' where "write_slot s v h st = Some (h, st')" and "table_ok st'" and "stage st' = stage st"
    and "hash_items st' = hash_items st"
    and "\<And>h' s'. s' \<in> slots st \<Longrightarrow> read_slot h' st' s' = (if s' = s then Some v else read_slot h st s')"
proof (cases s)
  case (Old i)
  show ?thesis
    by (rule that [of "st\<lparr>old_hashtable := (old_hashtable st)[i := v]\<rparr>"])
       (use assms Old in \<open>auto simp: write_slot_def table_ok_def slots_def stage_def read_slot_def nth_list_update
           split: if_splits\<close>)
next
  case (Primary i)
  show ?thesis
    by (rule that [of "st\<lparr>primary_hashtable := (primary_hashtable st)[i := v]\<rparr>"])
       (use assms Primary in \<open>auto simp: write_slot_def table_ok_def slots_def stage_def read_slot_def nth_list_update
           split: if_splits\<close>)
qed (use assms in \<open>auto simp: slots_def split: if_splits\<close>)

lemma chains_member:
  assumes "chains_ok h st cs" and "holds h st cs M" and "s \<in> slots st" and "a \<in> set (cs s)"
  shows "M (key_at h a) = Some a"
  using assms by (auto simp: chains_ok_def holds_def)

section \<open>Look-up\<close>

lemma chain_find_spec:
  "hchain h p xs \<Longrightarrow> \<forall>a \<in> set xs. key_ok (the (h a)) \<Longrightarrow>
   chain_find h k p = Some (case List.find (\<lambda>a. key_at h a = k) xs of None \<Rightarrow> 0 | Some a \<Rightarrow> a)"
proof (induction xs arbitrary: p)
  case (Cons x xs)
  then obtain it where it: "h x = Some it" "hchain h (h_next it) xs" "p = x" "x \<noteq> 0" by auto
  then have "length k = unat (nkey it) \<and> k = ITEM_key it \<longleftrightarrow> key_at h x = k"
    using Cons.prems by (auto simp: key_at_def key_ok_def)
  then show ?case
    using it Cons.IH [OF it(2)] Cons.prems by (auto simp: chain_find.simps [of h k x])
qed (simp add: chain_find.simps)

lemma find_unique:
  assumes "\<And>a. a \<in> set xs \<and> P a \<longleftrightarrow> m = Some a"
  shows "List.find P xs = m"
proof (cases m)
  case None
  then show ?thesis using assms by (auto simp: find_None_iff)
next
  case (Some a)
  then have "a \<in> set xs" "P a" using assms by auto
  then obtain b where "List.find P xs = Some b" by (metis find_None_iff not_None_eq)
  then show ?thesis using assms Some by (auto simp: find_Some_iff dest: nth_mem)
qed

lemma assoc_find_rel:
  assumes "assoc_rel h st M"
  shows "assoc_find h st k = Some (case M k of None \<Rightarrow> 0 | Some a \<Rightarrow> a)"
proof -
  from assms obtain cs where cs: "table_ok st" "chains_ok h st cs" "holds h st cs M"
    by (auto simp: assoc_rel_def)
  let ?s = "home st (key_hash k)"
  obtain p where p: "read_slot h st ?s = Some p" "hchain h p (cs ?s)" "\<forall>a \<in> set (cs ?s). key_ok (the (h a))"
    using home_in_slots [OF cs(1)] cs(2) by (fastforce simp: chains_ok_def)
  have "List.find (\<lambda>a. key_at h a = k) (cs ?s) = M k"
    using cs(3) by (intro find_unique) (auto simp: holds_def)
  then show ?thesis using p chain_find_spec [OF p(2,3)] by (simp add: assoc_find_def)
qed

section \<open>Insertion and expansion\<close>

lemma link_chain:
  assumes "table_ok st" and "chains_ok h st cs" and "holds h st cs M"
    and "h a = Some it" and "key_ok it" and "a \<noteq> 0" and "M (ITEM_key it) = None" and "a \<notin> ran M"
    and "read_slot h st (home st (key_hash (ITEM_key it))) = Some p"
  obtains st' where "write_slot (home st (key_hash (ITEM_key it))) a (h(a \<mapsto> it\<lparr>h_next := p\<rparr>)) st =
      Some (h(a \<mapsto> it\<lparr>h_next := p\<rparr>), st')"
    and "table_ok st'" and "stage st' = stage st" and "hash_items st' = hash_items st"
    and "\<exists>cs'. chains_ok (h(a \<mapsto> it\<lparr>h_next := p\<rparr>)) st' cs' \<and>
               holds (h(a \<mapsto> it\<lparr>h_next := p\<rparr>)) st' cs' (M(ITEM_key it \<mapsto> a))"
proof -
  let ?s = "home st (key_hash (ITEM_key it))" and ?h = "h(a \<mapsto> it\<lparr>h_next := p\<rparr>)"
  have s: "?s \<in> slots st" using assms(1) by (rule home_in_slots)
  from write_bucket [OF assms(1) s, of a ?h] obtain st' where
    w: "write_slot ?s a ?h st = Some (?h, st')" "table_ok st'" "stage st' = stage st" "hash_items st' = hash_items st"
    and r: "\<And>h' s'. s' \<in> slots st \<Longrightarrow> read_slot h' st' s' = (if s' = ?s then Some a else read_slot ?h st s')" by metis
  have fresh: "a \<notin> set (cs s')" if "s' \<in> slots st" for s'
    using chains_member [OF assms(2,3) that] assms(8) by (auto intro: ranI)
  have key: "key_at ?h b = key_at h b" for b using assms(4) by (intro key_at_unchained unchained_upd)
  have ka: "key_at h a = ITEM_key it" using assms(4) by (simp add: key_at_def)
  let ?cs = "cs(?s := a # cs ?s)"
  have "chains_ok ?h st' ?cs"
    unfolding chains_ok_def stage_eq [OF w(3)]
  proof (intro ballI conjI)
    fix s' assume s': "s' \<in> slots st"
    then have old: "\<exists>q. read_slot h st s' = Some q \<and> hchain h q (cs s')" using assms(2) by (auto simp: chains_ok_def)
    show "\<exists>q. read_slot ?h st' s' = Some q \<and> hchain ?h q (?cs s')"
      using old r [OF s'] read_bucket [OF s', of ?h h] fresh [OF s'] assms(6,9) by auto
    show "\<And>b. b \<in> set (?cs s') \<Longrightarrow> key_ok (the (?h b))"
      using assms(2,5) s' by (auto simp: chains_ok_def split: if_splits)
    show "\<And>b. b \<in> set (?cs s') \<Longrightarrow> home st (key_hash (key_at ?h b)) = s'"
      using assms(2) s' ka by (auto simp: chains_ok_def key split: if_splits)
  qed
  moreover have "holds ?h st' ?cs (M(ITEM_key it \<mapsto> a))"
    unfolding holds_def stage_eq [OF w(3)] key
  proof (intro allI)
    fix k b
    have "M k = Some b \<longleftrightarrow> b \<in> set (cs (home st (key_hash k))) \<and> key_at h b = k" using assms(3) by (auto simp: holds_def)
    moreover have "a \<notin> set (cs (home st (key_hash k)))" using fresh home_in_slots [OF assms(1)] by blast
    ultimately show "(M(ITEM_key it \<mapsto> a)) k = Some b \<longleftrightarrow> b \<in> set (?cs (home st (key_hash k))) \<and> key_at h b = k"
      using ka assms(7) by (cases "k = ITEM_key it") auto
  qed
  ultimately show ?thesis using that [OF w(1,2,3,4)] by blast
qed

text \<open>Moving a chain into the primary table.\<close>

definition primary_chains :: "store \<Rightarrow> assoc \<Rightarrow> (nat \<Rightarrow> nat list) \<Rightarrow> bool" where
  "primary_chains h st pc \<longleftrightarrow>
     (\<forall>b < 2 ^ hashpower st. hchain h (primary_hashtable st ! b) (pc b))"

lemma move_bucket_eq:
  "hashpower st \<le> 31 \<Longrightarrow> move_bucket st it = int (bucket (key_hash (ITEM_key it)) (hashpower st))"
proof -
  assume hp: "hashpower st \<le> 31"
  have "bucket (key_hash (ITEM_key it)) (hashpower st) < 2 ^ hashpower st" using hp by (intro bucket_less) simp
  also have "\<dots> \<le> 2 ^ 31" using hp by (intro power_increasing) auto
  finally show ?thesis unfolding move_bucket_def by (intro sint_of_nat_small) simp
qed

lemma move_chain_spec:
  assumes "hchain h p xs" and "primary_chains h st pc" and "table_ok st"
    and "\<forall>b < 2 ^ hashpower st. set xs \<inter> set (pc b) = {}"
  shows "\<exists>h' tb pc'. move_chain h st p = Some (h', st\<lparr>primary_hashtable := tb\<rparr>) \<and>
           length tb = 2 ^ hashpower st \<and> unchained h' = unchained h \<and> (\<forall>a. a \<notin> set xs \<longrightarrow> h' a = h a) \<and>
           primary_chains h' (st\<lparr>primary_hashtable := tb\<rparr>) pc' \<and>
           (\<forall>b < 2 ^ hashpower st. set (pc' b) =
              set (pc b) \<union> {a \<in> set xs. bucket (key_hash (key_at h a)) (hashpower st) = b})"
  using assms
proof (induction xs arbitrary: h p st pc)
  case Nil
  then show ?case
    by (intro exI [of _ h] exI [of _ "primary_hashtable st"] exI [of _ pc])
       (auto simp: move_chain.simps table_ok_def)
next
  case (Cons x xs)
  then obtain it where it: "h x = Some it" "hchain h (h_next it) xs" "p = x" "x \<noteq> 0" by auto
  let ?b = "bucket (key_hash (ITEM_key it)) (hashpower st)"
  let ?h = "h(x \<mapsto> it\<lparr>h_next := primary_hashtable st ! ?b\<rparr>)"
  let ?st = "st\<lparr>primary_hashtable := (primary_hashtable st)[?b := x]\<rparr>"
  let ?pc = "pc(?b := x # pc ?b)"
  have b: "?b < 2 ^ hashpower st" "move_bucket st it = int ?b" "length (primary_hashtable st) = 2 ^ hashpower st"
    using Cons.prems(3) by (auto simp: table_ok_def bucket_less move_bucket_eq)
  have x: "x \<notin> set xs" using hchain_distinct [OF Cons.prems(1)] by simp
  have step: "move_chain h st p = move_chain ?h ?st (h_next it)"
    using it b by (simp add: move_chain.simps [of h st x] Let_def)
  have pre: "hchain ?h (h_next it) xs" "primary_chains ?h ?st ?pc" "table_ok ?st"
    "\<forall>b < 2 ^ hashpower ?st. set xs \<inter> set (?pc b) = {}"
    using Cons.prems b it x by (auto simp: primary_chains_def nth_list_update table_ok_def)
  have st: "hashpower ?st = hashpower st" "\<And>tb. ?st\<lparr>primary_hashtable := tb\<rparr> = st\<lparr>primary_hashtable := tb\<rparr>" by simp_all
  obtain h' tb pc' where m: "move_chain ?h ?st (h_next it) = Some (h', st\<lparr>primary_hashtable := tb\<rparr>)"
    "length tb = 2 ^ hashpower st" "unchained h' = unchained ?h" "\<forall>a. a \<notin> set xs \<longrightarrow> h' a = ?h a"
    "primary_chains h' (st\<lparr>primary_hashtable := tb\<rparr>) pc'"
    "\<forall>b < 2 ^ hashpower st. set (pc' b) =
       set (?pc b) \<union> {a \<in> set xs. bucket (key_hash (key_at ?h a)) (hashpower st) = b}"
    using Cons.IH [OF pre] unfolding st by blast
  have k: "key_at ?h a = key_at h a" for a using it(1) by (intro key_at_unchained unchained_upd)
  have "set (pc' b) = set (pc b) \<union> {a \<in> set (x # xs). bucket (key_hash (key_at h a)) (hashpower st) = b}"
    if "b < 2 ^ hashpower st" for b
    using m(6) that it(1) unfolding k by (auto simp: key_at_def)
  then show ?case
    using m step it(1) by (intro exI [of _ h'] exI [of _ tb] exI [of _ pc']) auto
qed

lemma key_ok_unchained: "unchained h' = unchained h \<Longrightarrow> a \<in> dom h \<Longrightarrow> key_ok (the (h' a)) = key_ok (the (h a))"
  by (auto elim: unchained_item)

text \<open>The state after the move of bucket \<open>eb\<close>: its keys are now at home in the primary table.\<close>

definition moved :: "assoc \<Rightarrow> nat list \<Rightarrow> assoc" where
  "moved st tb =
     (let st2 = st\<lparr>primary_hashtable := tb, old_hashtable := (old_hashtable st)[unat (expand_bucket st) := 0],
                   expand_bucket := expand_bucket st + 1\<rparr>
      in if ucast (expand_bucket st2) = hashsize (hashpower st2 - 1)
         then st2\<lparr>expanding := False, old_hashtable := []\<rparr> else st2)"

lemma moved_simps [simp]:
  "hashpower (moved st tb) = hashpower st" "hash_items (moved st tb) = hash_items st"
  "primary_hashtable (moved st tb) = tb" "expand_bucket (moved st tb) = expand_bucket st + 1"
  by (simp_all add: moved_def Let_def)

lemma moved_stage:
  assumes "table_ok st" and "expanding st"
  shows "unat (expand_bucket st + 1) = unat (expand_bucket st) + 1"
    and "expanding (moved st tb) \<longleftrightarrow> unat (expand_bucket st) + 1 < 2 ^ (hashpower st - 1)"
    and "expanding (moved st tb) \<Longrightarrow> old_hashtable (moved st tb) = (old_hashtable st)[unat (expand_bucket st) := 0]"
proof -
  have eb: "unat (expand_bucket st) < 2 ^ (hashpower st - 1)" and hp: "hashpower st \<le> 31"
    using assms by (auto simp: table_ok_def)
  have "(2 :: nat) ^ (hashpower st - 1) \<le> 2 ^ 30" using hp by (intro power_increasing) auto
  then have "unat (expand_bucket st) + 1 < 2 ^ 32" using eb by simp
  then show 1: "unat (expand_bucket st + 1) = unat (expand_bucket st) + 1" by (simp add: unat_word_ariths)
  have "ucast (expand_bucket st + 1) = hashsize (hashpower st - 1) \<longleftrightarrow>
        unat (ucast (expand_bucket st + 1) :: u64) = unat (hashsize (hashpower st - 1))" by (simp add: word_unat_eq_iff)
  also have "unat (ucast (expand_bucket st + 1) :: u64) = unat (expand_bucket st + 1)"
    by (simp add: unat_ucast_up)
  finally show "expanding (moved st tb) \<longleftrightarrow> unat (expand_bucket st) + 1 < 2 ^ (hashpower st - 1)"
    using 1 eb hp assms(2) by (auto simp: moved_def Let_def unat_hashsize)
  show "expanding (moved st tb) \<Longrightarrow> old_hashtable (moved st tb) = (old_hashtable st)[unat (expand_bucket st) := 0]"
    by (auto simp: moved_def Let_def split: if_splits)
qed

lemma moved_home:
  assumes "table_ok st" and "expanding st"
  shows "home (moved st tb) hv =
    (if home st hv = Old (unat (expand_bucket st)) then Primary (bucket hv (hashpower st)) else home st hv)"
proof -
  have "bucket hv (hashpower st - 1) < 2 ^ (hashpower st - 1)"
    using assms by (intro bucket_less) (auto simp: table_ok_def)
  then show ?thesis using assms(2) moved_stage [OF assms] by (auto simp: home_def Let_def)
qed

lemma moved_ok: "table_ok st \<Longrightarrow> expanding st \<Longrightarrow> length tb = 2 ^ hashpower st \<Longrightarrow> table_ok (moved st tb)"
  using moved_stage [of st] by (auto simp: table_ok_def)

lemma home_bucket:
  "home st hv = Old i \<Longrightarrow> i = bucket hv (hashpower st - 1)"
  "home st hv = Primary i \<Longrightarrow> i = bucket hv (hashpower st)"
  by (auto simp: home_def Let_def split: if_splits)

lemma Old_slot: "table_ok st \<Longrightarrow> expanding st \<Longrightarrow> i < 2 ^ (hashpower st - 1) \<Longrightarrow> Old i \<in> slots st"
  by (simp add: slots_def)

lemma Primary_slot: "i < 2 ^ hashpower st \<Longrightarrow> Primary i \<in> slots st"
  by (simp add: slots_def)

lemma move_next_rel:
  assumes t: "table_ok st" and c: "chains_ok h st cs" and M: "holds h st cs M"
  shows "\<exists>h' st' cs'. do_assoc_move_next_bucket h st = Some (h', st') \<and> table_ok st' \<and>
           hash_items st' = hash_items st \<and> unchained h' = unchained h \<and> chains_ok h' st' cs' \<and> holds h' st' cs' M \<and>
           (expanding st \<longrightarrow> (\<exists>tb. st' = moved st tb))"
proof (cases "expanding st")
  case ex: True
  define eb where "eb = unat (expand_bucket st)"
  let ?n = "hashpower st"
  have eb: "eb < 2 ^ (?n - 1)" "Old eb \<in> slots st" using t ex by (auto simp: table_ok_def eb_def slots_def)
  have mem: "home st (key_hash (key_at h a)) = s \<and> key_ok (the (h a)) \<and> a \<in> dom h" if "s \<in> slots st" "a \<in> set (cs s)" for s a
    using c that hchain_in_store by (fastforce simp: chains_ok_def)
  obtain p where p: "read_slot h st (Old eb) = Some p" "hchain h p (cs (Old eb))" using c eb by (auto simp: chains_ok_def)
  have pc: "primary_chains h st (\<lambda>b. cs (Primary b))"
    using c t by (force simp: primary_chains_def chains_ok_def slots_def read_slot_def table_ok_def)
  have "\<forall>b < 2 ^ ?n. set (cs (Old eb)) \<inter> set (cs (Primary b)) = {}"
    using mem eb(2) Primary_slot by (metis disjoint_iff slot.distinct(1))
  from move_chain_spec [OF p(2) pc t this] obtain h' tb pc' where
    m: "move_chain h st p = Some (h', st\<lparr>primary_hashtable := tb\<rparr>)" "length tb = 2 ^ ?n" "unchained h' = unchained h"
      "\<And>a. a \<notin> set (cs (Old eb)) \<Longrightarrow> h' a = h a" "primary_chains h' (st\<lparr>primary_hashtable := tb\<rparr>) pc'"
      "\<And>b. b < 2 ^ ?n \<Longrightarrow> set (pc' b) =
         set (cs (Primary b)) \<union> {a \<in> set (cs (Old eb)). bucket (key_hash (key_at h a)) ?n = b}" by blast
  let ?st = "moved st tb"
  define cs' where "cs' s = (case s of Primary b \<Rightarrow> pc' b | Old i \<Rightarrow> if i = eb then [] else cs (Old i) | Hnext _ \<Rightarrow> [])" for s
  have run: "do_assoc_move_next_bucket h st = Some (h', ?st)"
    using ex p(1) m(1) by (simp add: do_assoc_move_next_bucket_def moved_def Let_def eb_def)
  note hm = moved_home [OF t ex, of tb, folded eb_def]
  have "chains_ok h' ?st cs'"
    unfolding chains_ok_def
  proof (intro ballI)
    fix s assume "s \<in> slots ?st"
    then consider (P) b where "s = Primary b" "b < 2 ^ ?n"
      | (O) i where "s = Old i" "i < 2 ^ (?n - 1)" "expanding ?st" by (auto simp: slots_def split: if_splits)
    then show "(\<exists>p. read_slot h' ?st s = Some p \<and> hchain h' p (cs' s)) \<and>
        (\<forall>a \<in> set (cs' s). key_ok (the (h' a)) \<and> home ?st (key_hash (key_at h' a)) = s)"
    proof cases
      case P
      have "key_ok (the (h' a)) \<and> home ?st (key_hash (key_at h a)) = s" if "a \<in> set (pc' b)" for a
        using that m(6) [OF P(2)] mem [OF eb(2), of a] mem [OF Primary_slot [OF P(2)], of a] P
        by (auto simp: hm key_ok_unchained [OF m(3)])
      then show ?thesis
        using P m(2,5) by (auto simp: read_slot_def cs'_def primary_chains_def key_at_unchained [OF m(3)])
    next
      case O
      show ?thesis
      proof (cases "i = eb")
        case True
        then show ?thesis
          using O moved_stage(3) [OF t ex O(3)] eb t ex by (simp add: read_slot_def cs'_def table_ok_def flip: eb_def)
      next
        case False
        have s: "Old i \<in> slots st" using O t ex by (intro Old_slot)
        have "hchain h' q (cs (Old i)) = hchain h q (cs (Old i))" for q
          using mem [OF s] mem [OF eb(2)] False by (intro hchain_cong m(4)) force
        moreover have "\<exists>q. read_slot h st (Old i) = Some q \<and> hchain h q (cs (Old i))" using c s by (auto simp: chains_ok_def)
        moreover have "read_slot h' ?st (Old i) = read_slot h st (Old i)"
          using False moved_stage(3) [OF t ex O(3)] by (simp add: read_slot_def flip: eb_def)
        moreover have "key_ok (the (h' a)) \<and> home ?st (key_hash (key_at h' a)) = Old i" if "a \<in> set (cs (Old i))" for a
          using mem [OF s that] False by (auto simp: hm key_ok_unchained [OF m(3)] key_at_unchained [OF m(3)])
        ultimately show ?thesis using O False by (simp add: cs'_def)
      qed
    qed
  qed
  moreover have "holds h' ?st cs' M"
    unfolding holds_def key_at_unchained [OF m(3)]
  proof (intro allI)
    fix k a
    let ?hv = "key_hash k"
    have b: "bucket ?hv ?n < 2 ^ ?n" using t by (intro bucket_less) (auto simp: table_ok_def)
    have old: "M k = Some a \<longleftrightarrow> a \<in> set (cs (home st ?hv)) \<and> key_at h a = k" using M by (auto simp: holds_def)
    show "M k = Some a \<longleftrightarrow> a \<in> set (cs' (home ?st ?hv)) \<and> key_at h a = k"
    proof (cases "home st ?hv")
      case (Old i)
      then show ?thesis
        using old m(6) [OF b] mem [OF Primary_slot [OF b], of a] by (auto simp: hm cs'_def)
    next
      case (Primary i)
      then have "i = bucket ?hv ?n" by (rule home_bucket)
      then show ?thesis
        using old m(6) [OF b] mem [OF eb(2), of a] Primary by (auto simp: hm cs'_def)
    next
      case (Hnext i)
      then show ?thesis using home_in_slots [OF t, of ?hv] by (auto simp: slots_def split: if_splits)
    qed
  qed
  ultimately show ?thesis using run moved_ok [OF t ex m(2)] m(3) by auto
next
  case False
  then show ?thesis using assms by (auto simp: do_assoc_move_next_bucket_def)
qed

lemma assoc_expand_rel:
  assumes t: "table_ok st" and c: "chains_ok h st cs" and M: "holds h st cs M"
    and ex: "\<not> expanding st" and hp: "hashpower st \<le> 30"
  shows "\<exists>h' st' cs'. assoc_expand calloc_ok h st = Some (h', st') \<and> table_ok st' \<and>
           hash_items st' = hash_items st \<and> unchained h' = unchained h \<and> chains_ok h' st' cs' \<and> holds h' st' cs' M"
proof (cases calloc_ok)
  case False
  let ?st = "st\<lparr>old_hashtable := primary_hashtable st\<rparr>"
  have st: "stage ?st = stage st" by (simp add: stage_def)
  have "read_slot h ?st s = read_slot h st s" if "s \<in> slots st" for s
    using that ex by (auto simp: slots_def read_slot_def)
  then have "chains_ok h ?st cs" "holds h ?st cs M"
    using c M unfolding chains_ok_def holds_def stage_eq [OF st] by auto
  moreover have "table_ok ?st" using t ex by (simp add: table_ok_def)
  ultimately show ?thesis using False by (auto simp: assoc_expand_def Let_def)
next
  case True
  let ?n = "hashpower st"
  let ?st = "st\<lparr>old_hashtable := primary_hashtable st, primary_hashtable := replicate (unat (hashsize (?n + 1))) 0,
                hashpower := ?n + 1, expanding := True, expand_bucket := 0\<rparr>"
  let ?cs = "\<lambda>s. case s of Old i \<Rightarrow> cs (Primary i) | _ \<Rightarrow> []"
  have sz: "unat (hashsize (?n + 1)) = 2 ^ (?n + 1)" using hp by (intro unat_hashsize) simp
  have t': "table_ok ?st" using t hp sz by (simp add: table_ok_def)
  have home: "home ?st hv = Old (bucket hv ?n)" "home st hv = Primary (bucket hv ?n)" for hv
    using ex by (simp_all add: home_def Let_def)
  have "chains_ok h ?st ?cs"
    unfolding chains_ok_def
  proof (intro ballI)
    fix s assume "s \<in> slots ?st"
    then consider i where "s = Old i" "i < 2 ^ ?n" | i where "s = Primary i" "i < 2 ^ (?n + 1)" by (auto simp: slots_def)
    then show "(\<exists>p. read_slot h ?st s = Some p \<and> hchain h p (?cs s)) \<and>
        (\<forall>a \<in> set (?cs s). key_ok (the (h a)) \<and> home ?st (key_hash (key_at h a)) = s)"
    proof cases
      case 1
      then have "Primary i \<in> slots st" by (intro Primary_slot)
      then have "(\<exists>p. read_slot h st (Primary i) = Some p \<and> hchain h p (cs (Primary i))) \<and>
        (\<forall>a \<in> set (cs (Primary i)). key_ok (the (h a)) \<and> home st (key_hash (key_at h a)) = Primary i)"
        using c unfolding chains_ok_def by blast
      then show ?thesis unfolding home 1(1) by (auto simp: read_slot_def split: if_splits)
    next
      case 2
      then show ?thesis using sz by (simp add: read_slot_def)
    qed
  qed
  moreover have "holds h ?st ?cs M" using M unfolding holds_def home by simp
  ultimately show ?thesis using move_next_rel [OF t'] True by (fastforce simp: assoc_expand_def Let_def)
qed

lemma unat_inc: "unat (x :: u32) + 1 < 2 ^ 32 \<Longrightarrow> unat (x + 1) = unat x + 1"
  by (simp add: unat_word_ariths)

text \<open>The expansion threshold, in numbers: with fewer than \<open>3 * 2 ^ 30\<close> items the table never has more than
  \<open>2 ^ 31\<close> buckets.\<close>

lemma expand_threshold:
  assumes "unat (n :: u32) \<le> 3 * 2 ^ 30" and "hp \<le> 31" and "ucast n > (hashsize hp * 3) div 2"
  shows "hp \<le> 30"
proof (rule ccontr)
  assume "\<not> hp \<le> 30"
  then have "hp = 31" using assms(2) by simp
  moreover have "unat ((hashsize 31 * 3) div 2) = 3 * 2 ^ 30" by (simp add: hashsize_def push_bit_eq_mult)
  ultimately have "3 * 2 ^ 30 < unat (ucast n :: u64)" using assms(3) by (simp add: word_less_nat_alt)
  then show False using assms(1) by (simp add: unat_ucast_up)
qed

lemma assoc_insert_rel:
  assumes rel: "assoc_rel h st M" and a: "h a = Some it" "key_ok it" "a \<noteq> 0" "M (ITEM_key it) = None" "a \<notin> ran M"
    and small: "card (dom M) < 3 * 2 ^ 30"
  shows "\<exists>h' st'. assoc_insert calloc_ok h st a = Some (h', st') \<and> unchained h' = unchained h \<and>
           assoc_rel h' st' (M(ITEM_key it \<mapsto> a))"
proof -
  from rel obtain cs where cs: "table_ok st" "chains_ok h st cs" "holds h st cs M"
    and n: "unat (hash_items st) = card (dom M)" "finite (dom M)" by (auto simp: assoc_rel_def)
  let ?s = "home st (key_hash (ITEM_key it))" and ?M = "M(ITEM_key it \<mapsto> a)"
  obtain p where p: "read_slot h st ?s = Some p" using cs home_in_slots by (fastforce simp: chains_ok_def)
  let ?h = "h(a \<mapsto> it\<lparr>h_next := p\<rparr>)"
  from link_chain [OF cs a p] obtain st1 cs1 where
    l: "write_slot ?s a ?h st = Some (?h, st1)" "table_ok st1" "stage st1 = stage st" "hash_items st1 = hash_items st"
       "chains_ok ?h st1 cs1" "holds ?h st1 cs1 ?M" by metis
  let ?st = "st1\<lparr>hash_items := hash_items st1 + 1\<rparr>"
  have c2: "chains_ok ?h ?st cs1" "holds ?h ?st cs1 ?M"
    using l(5,6) stage_eq [of ?st st1] by (simp_all add: chains_ok_def holds_def)
  have cnt: "unat (hash_items ?st) = card (dom ?M)" "unat (hash_items ?st) \<le> 3 * 2 ^ 30"
    using n small a(4) l(4) unat_inc [of "hash_items st"] by (auto simp: domIff)
  have run: "assoc_insert calloc_ok h st a =
      (if \<not> expanding ?st \<and> ucast (hash_items ?st) > (hashsize (hashpower ?st) * 3) div 2
       then assoc_expand calloc_ok ?h ?st else Some (?h, ?st))"
    using a(1) p l(1) by (simp add: assoc_insert_def Let_def)
  show ?thesis
  proof (cases "\<not> expanding ?st \<and> ucast (hash_items ?st) > (hashsize (hashpower ?st) * 3) div 2")
    case True
    then have "hashpower ?st \<le> 30" using expand_threshold [OF cnt(2), of "hashpower ?st"] l(2) by (auto simp: table_ok_def)
    then obtain h' st' cs' where "assoc_expand calloc_ok ?h ?st = Some (h', st')" "table_ok st'"
      "hash_items st' = hash_items ?st" "unchained h' = unchained ?h" "chains_ok h' st' cs'" "holds h' st' cs' ?M"
      using assoc_expand_rel [of ?st ?h cs1 ?M calloc_ok] c2 True l(2) by auto
    then show ?thesis using run True cnt n(2) a(1) unfolding assoc_rel_def by auto
  next
    case False
    then show ?thesis using run cnt n(2) a(1) l(2) c2 unfolding assoc_rel_def by auto
  qed
qed

section \<open>Deletion\<close>

lemma before_loop_spec:
  assumes "hchain h p (ys @ a # zs)" and "read_slot h st pos = Some p"
    and "\<forall>b \<in> set (ys @ [a]). key_ok (the (h b))" and "\<forall>y \<in> set ys. key_at h y \<noteq> k" and "key_at h a = k"
  shows "before_loop h st k pos = Some (if ys = [] then pos else Hnext (last ys))"
  using assms
proof (induction ys arbitrary: p pos)
  case Nil
  then obtain it where "h a = Some it" "p = a" "a \<noteq> 0" by auto
  then show ?case using Nil by (auto simp: before_loop.simps [of h st k pos] key_at_def key_ok_def)
next
  case (Cons y ys)
  then obtain it where y: "h y = Some it" "p = y" "y \<noteq> 0" "hchain h (h_next it) (ys @ a # zs)" by auto
  have "k \<noteq> ITEM_key it" using Cons.prems(4) y(1) by (auto simp: key_at_def)
  then have "before_loop h st k pos = before_loop h st k (Hnext y)"
    using y Cons.prems(2) by (simp add: before_loop.simps [of h st k pos])
  moreover have "read_slot h st (Hnext y) = Some (h_next it)" using y by (simp add: read_slot_def)
  ultimately show ?case using Cons.IH [OF y(4)] Cons.prems by simp
qed

lemma hchain_bypass:
  assumes "hchain h p (us @ y # a # zs)" and "h y = Some iy" and "h a = Some ia"
    and "h' = h(a \<mapsto> ia\<lparr>h_next := 0\<rparr>, y \<mapsto> iy\<lparr>h_next := h_next ia\<rparr>)"
  shows "hchain h' p (us @ y # zs)"
  using assms(1)
proof (induction us arbitrary: p)
  case Nil
  then have "y \<notin> set zs" "a \<notin> set zs" using hchain_distinct by fastforce+
  then have "hchain h' q zs = hchain h q zs" for q using assms(4) by (intro hchain_cong) auto
  moreover have "h' y = Some (iy\<lparr>h_next := h_next ia\<rparr>)" using assms(4) by simp
  ultimately show ?case using Nil assms(2,3) by auto
next
  case (Cons u us)
  then have "u \<noteq> y" "u \<noteq> a" using hchain_distinct by fastforce+
  then show ?case using Cons assms(4) by auto
qed

text \<open>Taking an item out of the chain it is in.\<close>

lemma unlink_chain:
  assumes t: "table_ok st" and c: "chains_ok h st cs" and s: "s \<in> slots st" and split: "cs s = ys @ a # zs" and it: "h a = Some it"
  obtains h' st' where
    "write_slot (if ys = [] then s else Hnext (last ys)) (h_next it) (h(a \<mapsto> it\<lparr>h_next := 0\<rparr>)) st = Some (h', st')"
    and "read_slot h st (if ys = [] then s else Hnext (last ys)) = Some a"
    and "table_ok st'" and "stage st' = stage st" and "hash_items st' = hash_items st" and "unchained h' = unchained h"
    and "chains_ok h' st' (cs(s := ys @ zs))"
proof -
  let ?h = "h(a \<mapsto> it\<lparr>h_next := 0\<rparr>)"
  obtain p where p: "read_slot h st s = Some p" "hchain h p (ys @ a # zs)" using c s split by (fastforce simp: chains_ok_def)
  have mem: "home st (key_hash (key_at h b)) = s' \<and> key_ok (the (h b)) \<and> b \<in> dom h" if "s' \<in> slots st" "b \<in> set (cs s')" for s' b
    using c that hchain_in_store by (fastforce simp: chains_ok_def)
  have ok: "chains_ok h' st' (cs(s := ys @ zs))"
    if st': "stage st' = stage st" and u: "unchained h' = unchained h"
      and same: "\<And>b. b \<notin> set (cs s) \<Longrightarrow> h' b = h b"
      and rd: "\<And>s'. s' \<in> slots st \<Longrightarrow> s' \<noteq> s \<Longrightarrow> read_slot h' st' s' = read_slot h st s'"
      and here: "\<exists>q. read_slot h' st' s = Some q \<and> hchain h' q (ys @ zs)" for h' st'
    unfolding chains_ok_def stage_eq [OF st']
  proof (intro ballI conjI)
    fix s' assume s': "s' \<in> slots st"
    show "\<exists>q. read_slot h' st' s' = Some q \<and> hchain h' q ((cs(s := ys @ zs)) s')"
    proof (cases "s' = s")
      case False
      then have "\<forall>b \<in> set (cs s'). b \<notin> set (cs s)" using mem s s' by blast
      then have "hchain h' q (cs s') = hchain h q (cs s')" for q by (intro hchain_cong same) auto
      then show ?thesis using c s' rd [OF s' False] False by (auto simp: chains_ok_def)
    qed (use here in simp)
    fix b assume b: "b \<in> set ((cs(s := ys @ zs)) s')"
    then have "b \<in> set (cs s')" using split by (auto split: if_splits)
    then show "key_ok (the (h' b))" "home st (key_hash (key_at h' b)) = s'"
      using mem [OF s'] by (auto simp: key_ok_unchained [OF u] key_at_unchained [OF u])
  qed
  show thesis
  proof (cases ys rule: rev_cases)
    case Nil
    from write_bucket [OF t s, of "h_next it" ?h] obtain st' where w: "write_slot s (h_next it) ?h st = Some (?h, st')"
      "table_ok st'" "stage st' = stage st" "hash_items st' = hash_items st"
      "\<And>h' s'. s' \<in> slots st \<Longrightarrow> read_slot h' st' s' = (if s' = s then Some (h_next it) else read_slot ?h st s')" by metis
    have "a \<notin> set zs" using hchain_distinct [OF p(2)] by simp
    then have "chains_ok ?h st' (cs(s := ys @ zs))"
      using w(3,5) p it split Nil s read_bucket [of _ st ?h h] by (intro ok) auto
    then show thesis using that [of ?h st'] w(1-4) p it Nil by simp
  next
    case (snoc us y)
    then obtain iy where iy: "h y = Some iy" "h_next iy = a" using p(2) hchain_in_store [OF p(2), of y] hchain_suffix [of h p us y] by fastforce
    have ya: "y \<noteq> a" using hchain_distinct [OF p(2)] snoc by auto
    let ?h2 = "?h(y \<mapsto> iy\<lparr>h_next := h_next it\<rparr>)"
    have u: "unchained ?h2 = unchained h" using iy it ya by simp
    have "hchain ?h2 p (ys @ zs)" using hchain_bypass [of h p us y a zs iy it ?h2] p(2) snoc iy it by simp
    then have "chains_ok ?h2 st (cs(s := ys @ zs))"
      using u p(1) split snoc read_bucket [of _ st ?h2 h] s by (intro ok) auto
    moreover have "write_slot (Hnext y) (h_next it) ?h st = Some (?h2, st)" using iy ya by (simp add: write_slot_def)
    moreover have "read_slot h st (Hnext y) = Some a" using iy by (simp add: read_slot_def)
    ultimately show thesis using that [of ?h2 st] t u snoc by simp
  qed
qed

lemma assoc_delete_rel:
  assumes rel: "assoc_rel h st M" and k: "M k = Some a"
  shows "\<exists>h' st'. assoc_delete h st k = Some (h', st') \<and> unchained h' = unchained h \<and> assoc_rel h' st' (M(k := None))"
proof -
  from rel obtain cs where t: "table_ok st" and c: "chains_ok h st cs" and M: "holds h st cs M"
    and n: "unat (hash_items st) = card (dom M)" "finite (dom M)" by (auto simp: assoc_rel_def)
  define s where "s = home st (key_hash k)"
  have s: "s \<in> slots st" unfolding s_def using t by (rule home_in_slots)
  have a: "a \<in> set (cs s)" "key_at h a = k" using M k by (auto simp: holds_def s_def)
  then obtain ys zs where split: "cs s = ys @ a # zs" by (meson split_list)
  obtain p where p: "read_slot h st s = Some p" "hchain h p (ys @ a # zs)" "\<forall>b \<in> set (ys @ a # zs). key_ok (the (h b))"
    using c s split by (fastforce simp: chains_ok_def)
  obtain it where it: "h a = Some it" using hchain_in_store [OF p(2), of a] by auto
  have only: "b = a" if "b \<in> set (cs s)" "key_at h b = k" for b
    using that M k unfolding holds_def s_def by (metis option.inject)
  have d: "distinct (cs s)" using hchain_distinct [OF p(2)] split by simp
  then have "\<forall>y \<in> set ys. y \<in> set (cs s) \<and> y \<noteq> a" using split by auto
  then have ys: "\<forall>y \<in> set ys. key_at h y \<noteq> k" using only by blast
  let ?st = "st\<lparr>hash_items := hash_items st - 1\<rparr>"
  have t': "table_ok ?st" "chains_ok h ?st cs" "s \<in> slots ?st"
    using t c s stage_eq [of ?st st] by (simp_all add: chains_ok_def)
  from unlink_chain [OF t' split it] obtain h' st' where w:
    "write_slot (if ys = [] then s else Hnext (last ys)) (h_next it) (h(a \<mapsto> it\<lparr>h_next := 0\<rparr>)) ?st = Some (h', st')"
    "read_slot h ?st (if ys = [] then s else Hnext (last ys)) = Some a"
    "table_ok st'" "stage st' = stage ?st" "hash_items st' = hash_items ?st" "unchained h' = unchained h"
    "chains_ok h' st' (cs(s := ys @ zs))" by metis
  have "hashitem_before h st k = Some (if ys = [] then s else Hnext (last ys))"
    unfolding hashitem_before_def s_def [symmetric] using p ys a(2) by (intro before_loop_spec) auto
  moreover have "a \<noteq> 0" using hchain_in_store [OF p(2), of a] by simp
  ultimately have "assoc_delete h st k = Some (h', st')"
    using w(1,2) it unfolding assoc_delete_def by simp
  moreover have "holds h' st' (cs(s := ys @ zs)) (M(k := None))"
    unfolding holds_def key_at_unchained [OF w(6)] stage_eq [OF w(4)] stage_eq [OF stage_upd]
  proof (intro allI)
    fix k' b
    have old: "M k' = Some b \<longleftrightarrow> b \<in> set (cs (home st (key_hash k'))) \<and> key_at h b = k'" using M by (simp add: holds_def)
    have rest: "b \<in> set (ys @ zs) \<longleftrightarrow> b \<in> set (cs s) \<and> b \<noteq> a" using d split by auto
    show "(M(k := None)) k' = Some b \<longleftrightarrow> b \<in> set ((cs(s := ys @ zs)) (home st (key_hash k'))) \<and> key_at h b = k'"
    proof (cases "k' = k")
      case True
      then have "\<not> (b \<in> set (ys @ zs) \<and> key_at h b = k')" using rest only by blast
      then show ?thesis using True by (simp add: s_def)
    next
      case False
      then have "b \<in> set ((cs(s := ys @ zs)) (home st (key_hash k'))) \<and> key_at h b = k' \<longleftrightarrow>
        b \<in> set (cs (home st (key_hash k'))) \<and> key_at h b = k'"
        using rest a(2) by (cases "home st (key_hash k') = s") auto
      then show ?thesis using False old by simp
    qed
  qed
  moreover have "unat (hash_items st') = card (dom (M(k := None)))"
  proof -
    have "card (dom M) \<noteq> 0" using k n(2) by auto
    then have "unat (hash_items st - 1) = card (dom M) - 1"
      using n(1) by (metis One_nat_def unat_minus_one unsigned_0)
    then show ?thesis using w(5) k n(2) by (simp add: card_Diff_singleton domI)
  qed
  ultimately show ?thesis using w(3,6,7) n(2) by (auto simp: assoc_rel_def)
qed

section \<open>Framing\<close>

text \<open>What the table reads of an item.\<close>

definition chain_view :: "item option \<Rightarrow> (nat \<times> u8 \<times> u8 list) option" where
  "chain_view = map_option (\<lambda>it. (h_next it, nkey it, end_bytes it))"

lemma chain_view_simps [simp]:
  "chain_view None = None" "chain_view (Some it) = Some (h_next it, nkey it, end_bytes it)"
  by (simp_all add: chain_view_def)

lemma chain_view_eq:
  assumes "chain_view (h' a) = chain_view (h a)"
  shows "key_at h' a = key_at h a" and "a \<in> dom h \<Longrightarrow> key_ok (the (h' a)) = key_ok (the (h a))"
    and "map_option h_next (h' a) = map_option h_next (h a)"
  using assms by (cases "h a"; cases "h' a"; simp add: key_at_def key_ok_def ITEM_key_def)+

lemma hchain_view:
  "(\<And>a. a \<in> set xs \<Longrightarrow> map_option h_next (h' a) = map_option h_next (h a)) \<Longrightarrow> hchain h' p xs = hchain h p xs"
proof (induction xs arbitrary: p)
  case (Cons a xs)
  then have "map_option h_next (h' a) = map_option h_next (h a)" by simp
  then show ?case using Cons by (cases "h a"; cases "h' a") auto
qed simp

text \<open>The relation only looks at the items of the map.\<close>

lemma assoc_rel_frame:
  assumes rel: "assoc_rel h st M" and v: "\<And>a. a \<in> ran M \<Longrightarrow> chain_view (h' a) = chain_view (h a)"
  shows "assoc_rel h' st M"
proof -
  from rel obtain cs where t: "table_ok st" and c: "chains_ok h st cs" and M: "holds h st cs M"
    and n: "unat (hash_items st) = card (dom M)" "finite (dom M)" by (auto simp: assoc_rel_def)
  have mem: "a \<in> ran M \<and> a \<in> dom h" if "s \<in> slots st" "a \<in> set (cs s)" for s a
    using chains_member [OF c M that] c that hchain_in_store by (fastforce simp: chains_ok_def intro: ranI)
  have "chains_ok h' st cs"
    unfolding chains_ok_def
  proof (intro ballI conjI)
    fix s assume s: "s \<in> slots st"
    then have "hchain h' p (cs s) = hchain h p (cs s)" for p
      using mem v by (intro hchain_view chain_view_eq(3)) blast
    then show "\<exists>p. read_slot h' st s = Some p \<and> hchain h' p (cs s)"
      using c s read_bucket [OF s, of h' h] by (auto simp: chains_ok_def)
    fix a assume a: "a \<in> set (cs s)"
    then have e: "chain_view (h' a) = chain_view (h a)" "a \<in> dom h" using mem [OF s a] v by blast+
    show "key_ok (the (h' a))" "home st (key_hash (key_at h' a)) = s"
      unfolding chain_view_eq(1) [of h' a h, OF e(1)] chain_view_eq(2) [of h' a h, OF e] using c s a by (simp_all add: chains_ok_def)
  qed
  moreover have "holds h' st cs M"
    unfolding holds_def
  proof (intro allI)
    fix k a
    have "key_at h' a = key_at h a" if "a \<in> set (cs (home st (key_hash k)))"
      using mem [OF home_in_slots [OF t] that] v by (intro chain_view_eq) blast
    then show "M k = Some a \<longleftrightarrow> a \<in> set (cs (home st (key_hash k))) \<and> key_at h' a = k"
      using M by (auto simp: holds_def)
  qed
  ultimately show ?thesis using t n by (auto simp: assoc_rel_def)
qed

lemma assoc_rel_item:
  assumes "assoc_rel h st M" and "M k = Some a"
  obtains it where "h a = Some it" and "ITEM_key it = k" and "key_ok it" and "a \<noteq> 0"
proof -
  from assms obtain cs where t: "table_ok st" and c: "chains_ok h st cs" and M: "holds h st cs M" by (auto simp: assoc_rel_def)
  let ?s = "home st (key_hash k)"
  have a: "a \<in> set (cs ?s)" "key_at h a = k" using M assms(2) by (auto simp: holds_def)
  then have "a \<noteq> 0 \<and> a \<in> dom h \<and> key_ok (the (h a))"
    using c home_in_slots [OF t] hchain_in_store by (fastforce simp: chains_ok_def)
  then show thesis using that a(2) by (auto simp: key_at_def)
qed

section \<open>The interface of the table\<close>

text \<open>
  What the item cache relies on: the operations act on an abstract map from keys to items, \<open>frame\<close> is the part of
  the store they leave alone, and \<open>ready\<close> says that an address holds an item with a complete key.
\<close>

locale keyed_table =
  fixes rel :: "'h \<Rightarrow> 's \<Rightarrow> ('k \<rightharpoonup> nat) \<Rightarrow> bool"
    and find :: "'h \<Rightarrow> 's \<Rightarrow> 'k \<Rightarrow> nat option"
    and ins :: "'h \<Rightarrow> 's \<Rightarrow> nat \<Rightarrow> ('h \<times> 's) option"
    and del :: "'h \<Rightarrow> 's \<Rightarrow> 'k \<Rightarrow> ('h \<times> 's) option"
    and key_of :: "'h \<Rightarrow> nat \<Rightarrow> 'k"
    and ready :: "'h \<Rightarrow> nat \<Rightarrow> bool"
    and frame :: "'h \<Rightarrow> 'f"
    and room :: nat
  assumes find_law: "rel h s M \<Longrightarrow> find h s k = Some (case M k of None \<Rightarrow> 0 | Some a \<Rightarrow> a)"
    and ins_law: "rel h s M \<Longrightarrow> ready h a \<Longrightarrow> M (key_of h a) = None \<Longrightarrow> a \<notin> ran M \<Longrightarrow> card (dom M) < room \<Longrightarrow>
      \<exists>h' s'. ins h s a = Some (h', s') \<and> frame h' = frame h \<and> rel h' s' (M(key_of h a \<mapsto> a))"
    and del_law: "rel h s M \<Longrightarrow> M k = Some a \<Longrightarrow>
      \<exists>h' s'. del h s k = Some (h', s') \<and> frame h' = frame h \<and> rel h' s' (M(k := None))"
begin

lemma find_after_ins:
  assumes "rel h s M" and "ready h a" and "M (key_of h a) = None" and "a \<notin> ran M" and "card (dom M) < room"
  obtains h' s' where "ins h s a = Some (h', s')" and "frame h' = frame h" and "rel h' s' (M(key_of h a \<mapsto> a))"
    and "find h' s' (key_of h a) = Some a" and "\<And>k. k \<noteq> key_of h a \<Longrightarrow> find h' s' k = find h s k"
proof -
  from ins_law [OF assms] obtain h' s' where i: "ins h s a = Some (h', s')" "frame h' = frame h"
    "rel h' s' (M(key_of h a \<mapsto> a))" by blast
  show thesis by (rule that [OF i]) (simp_all add: find_law [OF i(3)] find_law [OF assms(1)])
qed

lemma find_after_del:
  assumes "rel h s M" and "M k = Some a"
  obtains h' s' where "del h s k = Some (h', s')" and "frame h' = frame h" and "rel h' s' (M(k := None))"
    and "find h' s' k = Some 0" and "\<And>k'. k' \<noteq> k \<Longrightarrow> find h' s' k' = find h s k'"
proof -
  from del_law [OF assms] obtain h' s' where d: "del h s k = Some (h', s')" "frame h' = frame h"
    "rel h' s' (M(k := None))" by blast
  show thesis by (rule that [OF d]) (simp_all add: find_law [OF d(3)] find_law [OF assms(1)])
qed

end

definition item_ready :: "store \<Rightarrow> nat \<Rightarrow> bool" where
  "item_ready h a \<longleftrightarrow> a \<noteq> 0 \<and> (\<exists>it. h a = Some it \<and> key_ok it)"

text \<open>The table provides the interface, whether its growth allocations succeed or not.\<close>

interpretation tbl: keyed_table assoc_rel assoc_find "assoc_insert calloc_ok" assoc_delete key_at item_ready unchained "3 * 2 ^ 30"
  for calloc_ok
proof unfold_locales
  fix h st M a
  assume "assoc_rel h st M" "item_ready h a" "M (key_at h a) = None" "a \<notin> ran M" "card (dom M) < 3 * 2 ^ 30"
  moreover from this(2) obtain it where "h a = Some it" "key_ok it" "a \<noteq> 0" "key_at h a = ITEM_key it"
    by (auto simp: item_ready_def key_at_def)
  ultimately show "\<exists>h' s'. assoc_insert calloc_ok h st a = Some (h', s') \<and> unchained h' = unchained h \<and>
      assoc_rel h' s' (M(key_at h a \<mapsto> a))"
    using assoc_insert_rel [of h st M a it calloc_ok] by simp
qed (use assoc_find_rel assoc_delete_rel in auto)

section \<open>Properties\<close>

lemma assoc_rel_empty:
  assumes "table_ok st" and "set (primary_hashtable st) \<subseteq> {0}" and "\<not> expanding st" and "hash_items st = 0"
  shows "assoc_rel h st Map.empty"
proof -
  have "primary_hashtable st ! i = 0" if "i < 2 ^ hashpower st" for i
  proof -
    have "primary_hashtable st ! i \<in> set (primary_hashtable st)" using assms(1) that by (simp add: table_ok_def)
    then show ?thesis using assms(2) by blast
  qed
  then have "chains_ok h st (\<lambda>s. [])"
    using assms by (auto simp: chains_ok_def slots_def read_slot_def table_ok_def)
  then show ?thesis using assms by (auto simp: assoc_rel_def holds_def)
qed

text \<open>C9: the item table implements a map from keys to items, in every stage of its expansion: \<open>assoc_find\<close> returns
  the item of the key or NULL, \<open>assoc_insert\<close> of an item whose key has none yet adds it and \<open>assoc_delete\<close> removes the
  item of a key, neither changes what is found for any other key, and all of them return without an access through a bad
  pointer. Insertion may start an expansion, with or without memory for the new table. Only hash chains change in the
  store.\<close>

theorem assoc_refines_map:
  assumes "assoc_rel h st M"
  shows "assoc_find h st k = Some (case M k of None \<Rightarrow> 0 | Some a \<Rightarrow> a) \<and>
    (item_ready h a \<and> M (key_at h a) = None \<and> a \<notin> ran M \<and> card (dom M) < 3 * 2 ^ 30 \<longrightarrow>
      (\<exists>h' st'. assoc_insert calloc_ok h st a = Some (h', st') \<and> unchained h' = unchained h \<and>
        assoc_rel h' st' (M(key_at h a \<mapsto> a)) \<and> assoc_find h' st' (key_at h a) = Some a \<and>
        (\<forall>k'. k' \<noteq> key_at h a \<longrightarrow> assoc_find h' st' k' = assoc_find h st k'))) \<and>
    (M k = Some b \<longrightarrow>
      (\<exists>h' st'. assoc_delete h st k = Some (h', st') \<and> unchained h' = unchained h \<and>
        assoc_rel h' st' (M(k := None)) \<and> assoc_find h' st' k = Some 0 \<and>
        (\<forall>k'. k' \<noteq> k \<longrightarrow> assoc_find h' st' k' = assoc_find h st k')))"
  (is "?find \<and> ?ins \<and> ?del")
proof (intro conjI impI)
  show ?find using assms by (rule tbl.find_law)
next
  assume "item_ready h a \<and> M (key_at h a) = None \<and> a \<notin> ran M \<and> card (dom M) < 3 * 2 ^ 30"
  then have a: "item_ready h a" "M (key_at h a) = None" "a \<notin> ran M" "card (dom M) < 3 * 2 ^ 30" by simp_all
  show "\<exists>h' st'. assoc_insert calloc_ok h st a = Some (h', st') \<and> unchained h' = unchained h \<and>
        assoc_rel h' st' (M(key_at h a \<mapsto> a)) \<and> assoc_find h' st' (key_at h a) = Some a \<and>
        (\<forall>k'. k' \<noteq> key_at h a \<longrightarrow> assoc_find h' st' k' = assoc_find h st k')"
    by (rule tbl.find_after_ins [OF assms a, where calloc_ok = calloc_ok]) blast
next
  assume "M k = Some b"
  then show "\<exists>h' st'. assoc_delete h st k = Some (h', st') \<and> unchained h' = unchained h \<and>
        assoc_rel h' st' (M(k := None)) \<and> assoc_find h' st' k = Some 0 \<and>
        (\<forall>k'. k' \<noteq> k \<longrightarrow> assoc_find h' st' k' = assoc_find h st k')"
    by (elim tbl.find_after_del [OF assms]) (intro exI conjI allI impI, assumption+)
qed

text \<open>A table of two buckets and one item, used by the witnesses.\<close>

definition table2 :: assoc where
  "table2 = \<lparr>hashpower = 1, primary_hashtable = [0, 0], old_hashtable = [], hash_items = 0, expanding = False, expand_bucket = 0\<rparr>"

definition item_abc :: item where
  "item_abc = \<lparr>it_next = 0, it_prev = 0, h_next = 0, it_time = 0, exptime = 0, nbytes = 4, refcount = 1, nsuffix = 6,
     it_flags = 0, slabs_clsid = 0, nkey = 3, cas_id = 0,
     end_bytes = [97, 98, 99, 0, 32, 48, 32, 50, 13, 10, 120, 121, 13, 10]\<rparr>"

lemma table2_rel: "assoc_rel h table2 Map.empty"
  by (rule assoc_rel_empty) (simp_all add: table2_def table_ok_def)

lemma item_abc_ready: "item_ready [8 \<mapsto> item_abc] 8" "key_at [8 \<mapsto> item_abc] 8 = [97, 98, 99]"
  by (simp_all add: item_ready_def item_abc_def key_ok_def ITEM_key_def key_at_def)

theorem assoc_refines_map_witness:
  "\<exists>h st. assoc_insert True [8 \<mapsto> item_abc] table2 8 = Some (h, st) \<and> assoc_find h st [97, 98, 99] = Some 8 \<and>
          assoc_find h st [98] = Some 0"
proof -
  have "assoc_find [8 \<mapsto> item_abc] table2 [98] = Some 0"
    using assoc_refines_map [OF table2_rel, of "[8 \<mapsto> item_abc]" "[98]"] by simp
  then show ?thesis
    using assoc_refines_map [OF table2_rel, of "[8 \<mapsto> item_abc]" "[98]" 8 True 0] item_abc_ready
    by (auto simp: item_abc_ready(2))
qed

text \<open>A table of four buckets, in the last step of an expansion from two.\<close>

definition table4 :: assoc where
  "table4 = \<lparr>hashpower = 2, primary_hashtable = [0, 0, 0, 0], old_hashtable = [0, 0], hash_items = 0,
             expanding = True, expand_bucket = 1\<rparr>"

lemma table4_rel: "assoc_rel h table4 Map.empty"
proof -
  have "\<forall>i < 4. [0, 0, 0, 0 :: nat] ! i = 0" "\<forall>i < 2. [0, 0 :: nat] ! i = 0" by (simp_all add: less_Suc_eq numeral_eq_Suc)
  then have "chains_ok h table4 (\<lambda>s. [])" by (auto simp: chains_ok_def slots_def read_slot_def table4_def)
  then show ?thesis by (auto simp: assoc_rel_def holds_def table_ok_def table4_def)
qed

text \<open>Moving the next bucket returns, in every stage, and keeps the map, so that the expansion is invisible to
  look-ups; each call moves the boundary by one bucket and the last one ends the expansion.\<close>

theorem assoc_move_keeps_map:
  assumes "assoc_rel h st M"
  shows "\<exists>h' st'. do_assoc_move_next_bucket h st = Some (h', st') \<and> assoc_rel h' st' M \<and> unchained h' = unchained h \<and>
    (expanding st \<longrightarrow> hashpower st' = hashpower st \<and>
       unat (expand_bucket st') = unat (expand_bucket st) + 1 \<and>
       (expanding st' \<longleftrightarrow> unat (expand_bucket st') < 2 ^ (hashpower st - 1)))"
proof -
  from assms obtain cs where cs: "table_ok st" "chains_ok h st cs" "holds h st cs M"
    and n: "unat (hash_items st) = card (dom M)" "finite (dom M)" by (auto simp: assoc_rel_def)
  from move_next_rel [OF cs] obtain h' st' cs' where m: "do_assoc_move_next_bucket h st = Some (h', st')" "table_ok st'"
    "hash_items st' = hash_items st" "unchained h' = unchained h" "chains_ok h' st' cs'" "holds h' st' cs' M"
    "expanding st \<longrightarrow> (\<exists>tb. st' = moved st tb)" by blast
  have "hashpower st' = hashpower st \<and> unat (expand_bucket st') = unat (expand_bucket st) + 1 \<and>
       (expanding st' \<longleftrightarrow> unat (expand_bucket st') < 2 ^ (hashpower st - 1))" if ex: "expanding st"
  proof -
    from m(7) ex obtain tb where "st' = moved st tb" by blast
    then show ?thesis using moved_stage [OF cs(1) ex] by simp
  qed
  then show ?thesis using m n by (auto simp: assoc_rel_def)
qed

theorem assoc_move_keeps_map_witness:
  "\<exists>h st. do_assoc_move_next_bucket Map.empty table4 = Some (h, st) \<and> assoc_rel h st Map.empty \<and> \<not> expanding st"
  using assoc_move_keeps_map [OF table4_rel [of Map.empty]] by (auto simp: table4_def)

text \<open>Nothing but an expansion's own first step moves a bucket: while the table expands, insertions and deletions
  leave the stage of the expansion as it is. The program has no other call of \<open>do_assoc_move_next_bucket\<close>, so an
  expansion that has begun never ends and the table never grows again.\<close>

theorem assoc_expansion_stalls:
  assumes "expanding st"
  shows "(assoc_insert calloc_ok h st a = Some (h1, st1) \<longrightarrow> stage st1 = stage st) \<and>
         (assoc_delete h st k = Some (h2, st2) \<longrightarrow> stage st2 = stage st)"
proof -
  have w: "stage st' = stage st0" if "write_slot s p h0 st0 = Some (h', st')" for s p h0 st0 h' st'
    using that by (auto simp: write_slot_def stage_def split: slot.splits if_splits)
  have e: "expanding st' = expanding st0" if "stage st' = stage st0" for st' st0 using that by (simp add: stage_def)
  have "stage st1 = stage st" if "assoc_insert calloc_ok h st a = Some (h1, st1)"
  proof -
    from that obtain it p h' st' where w': "write_slot (home st (key_hash (ITEM_key it))) a (h(a \<mapsto> it\<lparr>h_next := p\<rparr>)) st = Some (h', st')"
      and r: "(if \<not> expanding st' \<and> ucast (hash_items st' + 1) > (hashsize (hashpower st') * 3) div 2
         then assoc_expand calloc_ok h' (st'\<lparr>hash_items := hash_items st' + 1\<rparr>)
         else Some (h', st'\<lparr>hash_items := hash_items st' + 1\<rparr>)) = Some (h1, st1)"
      by (auto simp: assoc_insert_def Let_def bind_eq_Some_conv)
    then show ?thesis using w [OF w'] e [OF w [OF w']] assms by auto
  qed
  moreover have "stage st2 = stage st" if "assoc_delete h st k = Some (h2, st2)"
    using that w by (fastforce simp: assoc_delete_def bind_eq_Some_conv split: if_splits)
  ultimately show ?thesis by blast
qed

theorem assoc_expansion_stalls_witness:
  "\<exists>h st. assoc_insert True [8 \<mapsto> item_abc] table4 8 = Some (h, st) \<and> stage st = (2, True, 1)"
proof -
  obtain h st where i: "assoc_insert True [8 \<mapsto> item_abc] table4 8 = Some (h, st)"
    using tbl.ins_law [OF table4_rel item_abc_ready(1), of True] by auto
  then have "stage st = stage table4"
    using assoc_expansion_stalls [of table4 True "[8 \<mapsto> item_abc]" 8 h st "[]" h st] by (simp add: table4_def)
  then show ?thesis using i by (simp add: stage_def table4_def)
qed

end
