(* ===== verification/Cache.thy ===== *)
theory Cache
  imports Items
begin

text \<open>
  The invariant of the item cache and its preservation by every operation of \<open>Items\<close>. \<open>cache_ok c M xs\<close>
  relates a state to the map \<open>M\<close> from keys to the linked items and to the list \<open>xs\<close> of the linked items from the most to
  the least recently used one.
\<close>

section \<open>The doubly linked queue\<close>

text \<open>
  \<open>dseg h pr p xs nx q\<close>: from \<open>p\<close>, whose predecessor is \<open>pr\<close>, the \<open>next\<close> pointers run through \<open>xs\<close> to \<open>nx\<close>, the
  \<open>prev\<close> pointers run back, and \<open>q\<close> is the last item.
\<close>

primrec dseg :: "store \<Rightarrow> nat \<Rightarrow> nat \<Rightarrow> nat list \<Rightarrow> nat \<Rightarrow> nat \<Rightarrow> bool" where
  "dseg h pr p [] nx q \<longleftrightarrow> p = nx \<and> q = pr"
| "dseg h pr p (a # as) nx q \<longleftrightarrow>
     p = a \<and> a \<noteq> 0 \<and> (\<exists>it. h a = Some it \<and> it_prev it = pr \<and> dseg h a (it_next it) as nx q)"

lemma dseg_append:
  "dseg h pr p (xs @ ys) nx q \<longleftrightarrow> (\<exists>m r. dseg h pr p xs m r \<and> dseg h r m ys nx q)"
  by (induction xs arbitrary: pr p) auto

text \<open>What the queue reads of the store.\<close>

definition links :: "item option \<Rightarrow> (nat \<times> nat) option" where
  "links = map_option (\<lambda>it. (it_next it, it_prev it))"

lemma links_simps [simp]: "links None = None" "links (Some it) = Some (it_next it, it_prev it)"
  by (simp_all add: links_def)

lemma dseg_cong:
  "(\<And>a. a \<in> set xs \<Longrightarrow> links (h' a) = links (h a)) \<Longrightarrow> dseg h' pr p xs nx q = dseg h pr p xs nx q"
proof (induction xs arbitrary: pr p)
  case (Cons a xs)
  have "links (h' a) = links (h a)" using Cons.prems by simp
  then have "(\<exists>it. h' a = Some it \<and> it_prev it = pr \<and> dseg h a (it_next it) xs nx q) \<longleftrightarrow>
             (\<exists>it. h a = Some it \<and> it_prev it = pr \<and> dseg h a (it_next it) xs nx q)"
    by (cases "h a"; cases "h' a") auto
  then show ?case using Cons by simp
qed simp

lemma dseg_last: "dseg h pr p xs nx q \<Longrightarrow> q = (if xs = [] then pr else last xs)"
  by (induction xs arbitrary: pr p) auto

lemma dseg_first: "dseg h pr p xs nx q \<Longrightarrow> p = (if xs = [] then nx else hd xs)"
  by (cases xs) auto

lemma dseg_dom: "dseg h pr p xs nx q \<Longrightarrow> a \<in> set xs \<Longrightarrow> a \<noteq> 0 \<and> a \<in> dom h"
  by (induction xs arbitrary: pr p) auto

lemma dseg_set_next:
  assumes "dseg h pr p (us @ [r]) nx q" and "r \<notin> set us" and "h r = Some ir"
  shows "dseg (h(r \<mapsto> ir\<lparr>it_next := m\<rparr>)) pr p (us @ [r]) m r"
  using assms(1,2)
proof (induction us arbitrary: pr p)
  case Nil
  then show ?case using assms(3) by auto
next
  case (Cons u us)
  then show ?case using assms(3) by auto
qed

lemma dseg_set_prev:
  assumes "dseg h pr p (m # vs) nx q" and "m \<notin> set vs" and "h m = Some im"
  shows "dseg (h(m \<mapsto> im\<lparr>it_prev := r\<rparr>)) r m (m # vs) nx q"
proof -
  have "dseg (h(m \<mapsto> im\<lparr>it_prev := r\<rparr>)) m (it_next im) vs nx q = dseg h m (it_next im) vs nx q"
    using assms(2) by (intro dseg_cong) auto
  then show ?thesis using assms by auto
qed

text \<open>The first node and the rest after the removal of an item.\<close>

lemma dseg_bypass:
  assumes seg: "dseg h 0 p (us @ a # vs) 0 q" and d: "distinct (us @ a # vs)" and a: "h a = Some it"
    and h1_def: "h1 = (if vs = [] then h else h(hd vs \<mapsto> (the (h (hd vs)))\<lparr>it_prev := it_prev it\<rparr>))"
  shows "it_prev it = (if us = [] then 0 else last us)" and "it_next it = (if vs = [] then 0 else hd vs)"
    and "dseg (if us = [] then h1 else h1(last us \<mapsto> (the (h1 (last us)))\<lparr>it_next := it_next it\<rparr>))
           0 (if us = [] then it_next it else p) (us @ vs) 0 (if vs = [] then it_prev it else q)"
proof -
  obtain r where u: "dseg h 0 p us a r" and v: "dseg h a (it_next it) vs 0 q" and pr: "it_prev it = r"
    using seg a by (auto simp: dseg_append)
  have r: "r = (if us = [] then 0 else last us)" using dseg_last [OF u] .
  have n: "it_next it = (if vs = [] then 0 else hd vs)" using dseg_first [OF v] .
  define h2 where "h2 = (if us = [] then h1 else h1(last us \<mapsto> (the (h1 (last us)))\<lparr>it_next := it_next it\<rparr>))"
  have v1: "dseg h1 r (it_next it) vs 0 (if vs = [] then r else q)"
  proof (cases vs)
    case (Cons m ws)
    then obtain im where "h m = Some im" using dseg_dom [OF v, of m] by auto
    then show ?thesis using dseg_set_prev [of h a "it_next it" m ws 0 q im r] v d Cons n pr by (simp add: h1_def)
  qed (use n in simp)
  have v2: "dseg h2 r (it_next it) vs 0 (if vs = [] then r else q)"
    unfolding h2_def using v1 d dseg_cong [of vs h2 h1] by (subst dseg_cong [of vs _ h1]) (auto simp: dest: last_in_set)
  have u1: "dseg h1 0 p us a r"
    unfolding h1_def using u d by (subst dseg_cong [of us _ h]) (auto dest: hd_in_set)
  have u2: "dseg h2 0 (if us = [] then it_next it else p) us (it_next it) r"
  proof (cases us rule: rev_cases)
    case (snoc ws y)
    then obtain iy where "h1 y = Some iy" using dseg_dom [OF u1, of y] by auto
    then show ?thesis using dseg_set_next [of h1 0 p ws y a r iy "it_next it"] u1 d snoc r by (simp add: h2_def)
  qed (use r in simp)
  have "dseg h2 0 (if us = [] then it_next it else p) (us @ vs) 0 (if vs = [] then it_prev it else q)"
    unfolding dseg_append pr using u2 v2 by blast
  then show "dseg (if us = [] then h1 else h1(last us \<mapsto> (the (h1 (last us)))\<lparr>it_next := it_next it\<rparr>))
           0 (if us = [] then it_next it else p) (us @ vs) 0 (if vs = [] then it_prev it else q)" unfolding h2_def .
  show "it_prev it = (if us = [] then 0 else last us)" "it_next it = (if vs = [] then 0 else hd vs)" using pr r n by simp_all
qed

section \<open>The invariant\<close>

text \<open>An item without its links: what the queue and the table leave unchanged.\<close>

definition core :: "item \<Rightarrow> item" where
  "core it = it\<lparr>it_next := 0, it_prev := 0, h_next := 0\<rparr>"

definition core_at :: "store \<Rightarrow> store" where
  "core_at h = (\<lambda>a. map_option core (h a))"

lemma core_fields [simp]:
  "it_time (core it) = it_time it" "exptime (core it) = exptime it" "nbytes (core it) = nbytes it"
  "refcount (core it) = refcount it" "nsuffix (core it) = nsuffix it" "it_flags (core it) = it_flags it"
  "nkey (core it) = nkey it" "cas_id (core it) = cas_id it" "end_bytes (core it) = end_bytes it"
  "ITEM_key (core it) = ITEM_key it" "ITEM_suffix (core it) = ITEM_suffix it" "ITEM_data (core it) = ITEM_data it"
  "ITEM_ntotal (core it) = ITEM_ntotal it" "core (core it) = core it"
  by (simp_all add: core_def ITEM_key_def ITEM_suffix_def ITEM_data_def ITEM_ntotal_def)

lemma core_links [simp]:
  "core (it\<lparr>it_next := p\<rparr>) = core it" "core (it\<lparr>it_prev := p\<rparr>) = core it" "core (it\<lparr>h_next := p\<rparr>) = core it"
  by (simp_all add: core_def)

lemma core_upds [simp]:
  "core (it\<lparr>it_flags := f\<rparr>) = (core it)\<lparr>it_flags := f\<rparr>" "core (it\<lparr>it_time := t\<rparr>) = (core it)\<lparr>it_time := t\<rparr>"
  "core (it\<lparr>cas_id := n\<rparr>) = (core it)\<lparr>cas_id := n\<rparr>" "core (it\<lparr>refcount := r\<rparr>) = (core it)\<lparr>refcount := r\<rparr>"
  by (simp_all add: core_def)

lemma core_at_upd: "core_at (h(a \<mapsto> it)) = (core_at h)(a \<mapsto> core it)"
  by (auto simp: core_at_def)

lemma core_at_Some: "h a = Some it \<Longrightarrow> core_at h a = Some (core it)"
  by (simp add: core_at_def)

lemma core_at_same: "h a = Some it \<Longrightarrow> core it' = core it \<Longrightarrow> core_at (h(a \<mapsto> it')) = core_at h"
  by (auto simp: core_at_def)

lemma unchained_core: "unchained h' = unchained h \<Longrightarrow> core_at h' = core_at h"
proof
  fix a assume "unchained h' = unchained h"
  then have "map_option (\<lambda>it. it\<lparr>h_next := 0\<rparr>) (h' a) = map_option (\<lambda>it. it\<lparr>h_next := 0\<rparr>) (h a)"
    by (simp add: unchained_def fun_eq_iff)
  then have "map_option core (map_option (\<lambda>it. it\<lparr>h_next := 0\<rparr>) (h' a)) =
    map_option core (map_option (\<lambda>it. it\<lparr>h_next := 0\<rparr>) (h a))" by simp
  then show "core_at h' a = core_at h a" by (simp add: core_at_def option.map_comp comp_def)
qed

lemma unchained_links: "unchained h' = unchained h \<Longrightarrow> links (h' a) = links (h a)"
proof -
  assume "unchained h' = unchained h"
  then have "links (map_option (\<lambda>it. it\<lparr>h_next := 0\<rparr>) (h' a)) = links (map_option (\<lambda>it. it\<lparr>h_next := 0\<rparr>) (h a))"
    by (simp add: unchained_def fun_eq_iff)
  then show ?thesis by (simp add: links_def option.map_comp comp_def)
qed

text \<open>An item's block holds the key and its NUL, the suffix and the data.\<close>

definition item_ok :: "item \<Rightarrow> bool" where
  "item_ok it \<longleftrightarrow> 2 \<le> nbytes it \<and> length (end_bytes it) = unat (nkey it) + 1 + unat (nsuffix it) + nat (nbytes it)"

definition items_ok :: "store \<Rightarrow> nat set \<Rightarrow> bool" where
  "items_ok h R \<longleftrightarrow> (\<forall>a it. h a = Some it \<longrightarrow> a \<noteq> 0 \<and> item_ok it \<and>
     (if a \<in> R then it_flags it = ITEM_LINKED else it_flags it = 0 \<and> refcount it \<noteq> 0))"

definition bytes_at :: "store \<Rightarrow> nat list \<Rightarrow> nat" where
  "bytes_at h xs = (\<Sum>a \<leftarrow> xs. ITEM_ntotal (the (h a)))"

definition cache_ok :: "cache \<Rightarrow> (key \<rightharpoonup> nat) \<Rightarrow> nat list \<Rightarrow> bool" where
  "cache_ok c M xs \<longleftrightarrow>
     assoc_rel (mem c) (table c) M \<and> dseg (mem c) 0 (heads c) xs 0 (tails c) \<and> distinct xs \<and> set xs = ran M \<and>
     items_ok (mem c) (ran M) \<and> sizes c = of_nat (length xs) \<and> curr_items (stat c) = of_nat (length xs) \<and>
     curr_bytes (stat c) = of_nat (bytes_at (mem c) xs)"

definition env :: "cache \<Rightarrow> u32 \<times> u32 \<times> int" where
  "env c = (now_ms c, oldest_live c, evict_to_free c)"

lemma item_ok_key: "item_ok it \<Longrightarrow> key_ok it"
  by (auto simp: item_ok_def key_ok_def ITEM_key_def)

lemma item_ok_core [simp]: "item_ok (core it) = item_ok it"
  by (simp add: item_ok_def)

lemma upd_some: "mem c a = Some it \<Longrightarrow> upd a f c = Some (c\<lparr>mem := (mem c)(a \<mapsto> f it)\<rparr>)"
  by (simp add: upd_def)

text \<open>Conditions on items read the cores only.\<close>

lemma core_at_eqD:
  assumes "core_at h' a = core_at h a" and "h' a = Some it'"
  obtains it where "h a = Some it" and "core it' = core it"
  using assms by (cases "h a") (auto simp: core_at_def)

lemma core_eq_fields:
  assumes "core it' = core it"
  shows "it_time it' = it_time it" "exptime it' = exptime it" "nbytes it' = nbytes it" "refcount it' = refcount it"
    "nsuffix it' = nsuffix it" "it_flags it' = it_flags it" "nkey it' = nkey it" "cas_id it' = cas_id it"
    "end_bytes it' = end_bytes it" "ITEM_key it' = ITEM_key it" "ITEM_suffix it' = ITEM_suffix it"
    "ITEM_data it' = ITEM_data it" "ITEM_ntotal it' = ITEM_ntotal it" "item_ok it' = item_ok it"
  using arg_cong [OF assms, of it_time] arg_cong [OF assms, of exptime] arg_cong [OF assms, of nbytes]
    arg_cong [OF assms, of refcount] arg_cong [OF assms, of nsuffix] arg_cong [OF assms, of it_flags]
    arg_cong [OF assms, of nkey] arg_cong [OF assms, of cas_id] arg_cong [OF assms, of end_bytes]
    arg_cong [OF assms, of ITEM_key] arg_cong [OF assms, of ITEM_suffix] arg_cong [OF assms, of ITEM_data]
    arg_cong [OF assms, of ITEM_ntotal] arg_cong [OF assms, of item_ok]
  by simp_all

lemma items_ok_core:
  assumes "core_at h' = core_at h" and "items_ok h R"
  shows "items_ok h' R"
  unfolding items_ok_def
proof (intro allI impI)
  fix a it' assume "h' a = Some it'"
  then obtain it where "h a = Some it" "core it' = core it" using core_at_eqD [of h' a h it'] assms(1) by metis
  then show "a \<noteq> 0 \<and> item_ok it' \<and> (if a \<in> R then it_flags it' = ITEM_LINKED else it_flags it' = 0 \<and> refcount it' \<noteq> 0)"
    using assms(2) core_eq_fields [of it' it] by (simp add: items_ok_def)
qed

lemma bytes_at_core:
  assumes "\<And>a. a \<in> set xs \<Longrightarrow> core_at h' a = core_at h a" and "set xs \<subseteq> dom h"
  shows "bytes_at h' xs = bytes_at h xs"
proof -
  have "ITEM_ntotal (the (h' a)) = ITEM_ntotal (the (h a))" if mem: "a \<in> set xs" for a
  proof -
    obtain it where it: "h a = Some it" using assms(2) \<open>a \<in> set xs\<close> by blast
    then obtain it' where "h' a = Some it'" "core it' = core it" using assms(1) [OF mem] by (auto simp: core_at_def)
    then show ?thesis using it core_eq_fields [of it' it] by simp
  qed
  then show ?thesis unfolding bytes_at_def by (metis (mono_tags, lifting) map_cong)
qed

section \<open>Queue operations\<close>

lemma item_unlink_q_ok:
  assumes seg: "dseg (mem c) 0 (heads c) (us @ a # vs) 0 (tails c)" and d: "distinct (us @ a # vs)" and a: "mem c a = Some it"
  shows "\<exists>h hd0 tl0. item_unlink_q a c = Some (c\<lparr>mem := h, heads := hd0, tails := tl0, sizes := sizes c - 1\<rparr>) \<and>
    dseg h 0 hd0 (us @ vs) 0 tl0 \<and> core_at h = core_at (mem c) \<and> h a = Some it \<and>
    (\<forall>b. map_option h_next (h b) = map_option h_next (mem c b))"
proof -
  let ?n = "it_next it" and ?p = "it_prev it"
  define h1 where "h1 = (if vs = [] then mem c else (mem c)(hd vs \<mapsto> (the (mem c (hd vs)))\<lparr>it_prev := ?p\<rparr>))"
  note h1 = h1_def
  note p = dseg_bypass(1) [OF seg d a h1] and n = dseg_bypass(2) [OF seg d a h1] and seg2 = dseg_bypass(3) [OF seg d a h1]
  let ?h = "if us = [] then h1 else h1(last us \<mapsto> (the (h1 (last us)))\<lparr>it_next := ?n\<rparr>)"
  have dom: "b \<noteq> 0 \<and> b \<in> dom (mem c)" if "b \<in> set (us @ a # vs)" for b using dseg_dom [OF seg that] .
  have v: "hd vs \<in> dom (mem c) \<and> hd vs \<noteq> a \<and> hd vs \<noteq> 0" if "vs \<noteq> []" using that dom [of "hd vs"] d by (auto dest: hd_in_set)
  have u: "last us \<in> dom (mem c) \<and> last us \<noteq> a \<and> last us \<noteq> 0" if "us \<noteq> []" using that dom [of "last us"] d by (auto dest: last_in_set)
  have u1: "last us \<in> dom h1" if "us \<noteq> []" using u [OF that] unfolding h1 by auto
  have hd: "heads c = a \<longleftrightarrow> us = []" using dseg_first [OF seg] d by (cases us) auto
  have tl: "tails c = a \<longleftrightarrow> vs = []" using dseg_last [OF seg] d by (cases vs rule: rev_cases) auto
  have a0: "a \<noteq> 0" using dom [of a] by simp
  have run: "item_unlink_q a c = Some (c\<lparr>mem := ?h, heads := if us = [] then ?n else heads c,
      tails := if vs = [] then ?p else tails c, sizes := sizes c - 1\<rparr>)"
    using a a0 p n v u u1 hd tl by (cases "us = []"; cases "vs = []") (auto simp: item_unlink_q_def Let_def upd_def h1)
  have c1: "core_at h1 = core_at (mem c)" "\<forall>b. map_option h_next (h1 b) = map_option h_next (mem c b)" "h1 a = Some it"
    using v a unfolding h1 by (auto simp: core_at_same)
  have "core_at ?h = core_at h1" "\<And>b. map_option h_next (?h b) = map_option h_next (h1 b)" "?h a = h1 a"
    using u u1 by (auto simp: core_at_same)
  then have "core_at ?h = core_at (mem c)" "\<forall>b. map_option h_next (?h b) = map_option h_next (mem c b)" "?h a = Some it"
    using c1 by simp_all
  then show ?thesis using run seg2 by blast
qed

lemma item_link_q_ok:
  assumes seg: "dseg (mem c) 0 (heads c) xs 0 (tails c)" and a: "a \<notin> set xs" "a \<noteq> 0" "mem c a = Some it"
    and d: "distinct xs"
  shows "\<exists>h. item_link_q a c = Some (c\<lparr>mem := h, heads := a, tails := (if xs = [] then a else tails c), sizes := sizes c + 1\<rparr>) \<and>
    dseg h 0 a (a # xs) 0 (if xs = [] then a else tails c) \<and> core_at h = core_at (mem c) \<and>
    (\<forall>b. map_option h_next (h b) = map_option h_next (mem c b))"
proof (cases xs)
  case Nil
  then have "heads c = 0" "tails c = 0" using seg by auto
  then show ?thesis
    using a Nil by (auto simp: item_link_q_def upd_def core_at_same)
next
  case (Cons x ys)
  then obtain ix where x: "heads c = x" "x \<noteq> 0" "mem c x = Some ix" "it_prev ix = 0" "dseg (mem c) x (it_next ix) ys 0 (tails c)"
    using seg by auto
  have t: "tails c \<noteq> 0" using dseg_last [OF seg] dseg_dom [OF seg, of "last xs"] Cons by auto
  have ne: "x \<noteq> a" using a Cons by auto
  let ?h = "(mem c)(a \<mapsto> it\<lparr>it_prev := 0, it_next := x\<rparr>, x \<mapsto> ix\<lparr>it_prev := a\<rparr>)"
  have "dseg ?h x (it_next ix) ys 0 (tails c) = dseg (mem c) x (it_next ix) ys 0 (tails c)"
    using a(1) d Cons by (intro dseg_cong) auto
  moreover have "core_at ?h = core_at (mem c)" using a(3) x(3) ne by (auto simp: core_at_def)
  ultimately show ?thesis
    using a x t ne Cons by (auto simp: item_link_q_def upd_def)
qed

lemma view_core:
  assumes "core_at h' b = core_at h b" and "map_option h_next (h' b) = map_option h_next (h b)"
  shows "chain_view (h' b) = chain_view (h b)"
proof (cases "h b")
  case (Some it)
  then obtain it' where "h' b = Some it'" "core it' = core it" using assms(1) by (auto simp: core_at_def)
  then show ?thesis using Some assms(2) core_eq_fields [of it' it] by simp
qed (use assms in \<open>simp add: core_at_def\<close>)

lemma assoc_rel_inj:
  assumes "assoc_rel h st M" and "M k = Some a" and "M k' = Some a"
  shows "k' = k"
proof -
  obtain it where "h a = Some it" "ITEM_key it = k" using assms(1,2) by (rule assoc_rel_item)
  moreover obtain it' where "h a = Some it'" "ITEM_key it' = k'" using assms(1,3) by (rule assoc_rel_item)
  ultimately show ?thesis by simp
qed

lemma ran_delete:
  assumes "assoc_rel h st M" and "M k = Some a"
  shows "ran (M(k := None)) = ran M - {a}"
proof -
  have "(\<exists>k'. (M(k := None)) k' = Some b) \<longleftrightarrow> (\<exists>k'. M k' = Some b) \<and> b \<noteq> a" for b
    using assms(2) assoc_rel_inj [OF assms] by (metis fun_upd_apply option.inject option.discI)
  then show ?thesis by (auto simp: ran_def)
qed

text \<open>One item changed, in terms of cores.\<close>

lemma items_ok_upd:
  assumes core: "core_at h' = (core_at h)(a \<mapsto> it)" and ok: "items_ok h R" and a: "a \<noteq> 0" "item_ok it"
    and R: "\<And>b. b \<noteq> a \<Longrightarrow> b \<in> R' \<longleftrightarrow> b \<in> R" and f: "if a \<in> R' then it_flags it = ITEM_LINKED else it_flags it = 0 \<and> refcount it \<noteq> 0"
  shows "items_ok h' R'"
  unfolding items_ok_def
proof (intro allI impI)
  fix b ib assume b: "h' b = Some ib"
  show "b \<noteq> 0 \<and> item_ok ib \<and> (if b \<in> R' then it_flags ib = ITEM_LINKED else it_flags ib = 0 \<and> refcount ib \<noteq> 0)"
  proof (cases "b = a")
    case True
    then have "core ib = it" using fun_cong [OF core, of a] b by (simp add: core_at_def)
    then show ?thesis using True a f by auto
  next
    case False
    then have "core_at h' b = core_at h b" using core by simp
    then obtain ib0 where "h b = Some ib0" "core ib = core ib0" using b by (rule core_at_eqD)
    then show ?thesis using ok R [OF False] core_eq_fields [of ib ib0] by (simp add: items_ok_def)
  qed
qed

lemma items_ok_del:
  assumes core: "core_at h' = (core_at h)(a := None)" and ok: "items_ok h R" and R: "\<And>b. b \<noteq> a \<Longrightarrow> b \<in> R' \<longleftrightarrow> b \<in> R"
  shows "items_ok h' R'"
  unfolding items_ok_def
proof (intro allI impI)
  fix b ib assume b: "h' b = Some ib"
  then have "b \<noteq> a" using fun_cong [OF core, of a] by (auto simp: core_at_def)
  moreover from this have "core_at h' b = core_at h b" using core by simp
  then obtain ib0 where "h b = Some ib0" "core ib = core ib0" using b by (rule core_at_eqD)
  ultimately show "b \<noteq> 0 \<and> item_ok ib \<and> (if b \<in> R' then it_flags ib = ITEM_LINKED else it_flags ib = 0 \<and> refcount ib \<noteq> 0)"
    using ok R [of b] core_eq_fields [of ib ib0] by (simp add: items_ok_def)
qed

lemma ntotal_core: "core_at h a = Some it \<Longrightarrow> ITEM_ntotal (the (h a)) = ITEM_ntotal it"
  by (auto simp: core_at_def)

section \<open>Linking\<close>

text \<open>Linking a new item: it becomes the item of its key and the most recent of the queue.\<close>

lemma do_item_link_ok:
  assumes ok: "cache_ok c M xs" and a: "mem c a = Some it" "a \<notin> ran M" "M (ITEM_key it) = None"
    and small: "nbytes it < 1024 * 1024" "card (dom M) < 3 * 2 ^ 30"
  shows "\<exists>c'. do_item_link calloc_ok a c = Some c' \<and> cache_ok c' (M(ITEM_key it \<mapsto> a)) (a # xs) \<and> env c' = env c \<and>
    core_at (mem c') = (core_at (mem c))(a \<mapsto>
      (core it)\<lparr>it_flags := ITEM_LINKED, it_time := now_ms c, cas_id := last_cas c + 1\<rparr>)"
proof -
  have rel: "assoc_rel (mem c) (table c) M" and seg: "dseg (mem c) 0 (heads c) xs 0 (tails c)" and d: "distinct xs"
    and xs: "set xs = ran M" and its: "items_ok (mem c) (ran M)"
    and sz: "sizes c = of_nat (length xs)" "curr_items (stat c) = of_nat (length xs)" "curr_bytes (stat c) = of_nat (bytes_at (mem c) xs)"
    using ok by (auto simp: cache_ok_def)
  have a0: "a \<noteq> 0" "item_ok it" "it_flags it = 0" "refcount it \<noteq> 0" using its a by (auto simp: items_ok_def)
  let ?it1 = "it\<lparr>it_flags := ITEM_LINKED, it_time := now_ms c\<rparr>" and ?M = "M(ITEM_key it \<mapsto> a)"
  let ?h1 = "(mem c)(a \<mapsto> ?it1)"
  have k1: "ITEM_key ?it1 = ITEM_key it" "key_ok ?it1" using item_ok_key [OF a0(2)] by (simp_all add: ITEM_key_def key_ok_def)
  have rel1: "assoc_rel ?h1 (table c) M" using a(2) by (intro assoc_rel_frame [OF rel]) auto
  obtain h t where ins: "assoc_insert calloc_ok ?h1 (table c) a = Some (h, t)" "unchained h = unchained ?h1" "assoc_rel h t ?M"
    using tbl.ins_law [OF rel1, of a calloc_ok] k1 a a0 small(2) by (auto simp: item_ready_def key_at_def)
  obtain ita where ita: "h a = Some ita" "core ita = core ?it1"
  proof -
    have "core_at h a = Some (core ?it1)" using unchained_core [OF ins(2)] by (simp add: core_at_upd)
    then show thesis using that by (auto simp: core_at_def)
  qed
  let ?h3 = "h(a \<mapsto> ita\<lparr>cas_id := last_cas c + 1\<rparr>)"
  define c3 where "c3 = c\<lparr>table := t,
     stat := (stat c)\<lparr>curr_bytes := curr_bytes (stat c) + of_nat (ITEM_ntotal it),
                       curr_items := curr_items (stat c) + 1, total_items := total_items (stat c) + 1\<rparr>,
     last_cas := last_cas c + 1, mem := ?h3\<rparr>"
  have "dseg ?h3 0 (heads c) xs 0 (tails c) = dseg (mem c) 0 (heads c) xs 0 (tails c)"
    using xs a(2) unchained_links [OF ins(2)] by (intro dseg_cong) auto
  then have seg3: "dseg (mem c3) 0 (heads c3) xs 0 (tails c3)" using seg by (simp add: c3_def)
  have a3: "mem c3 a = Some (ita\<lparr>cas_id := last_cas c + 1\<rparr>)" "a \<notin> set xs" using a(2) xs by (simp_all add: c3_def)
  from item_link_q_ok [OF seg3 a3(2) a0(1) a3(1) d] obtain h4 where
    lq: "item_link_q a c3 = Some (c3\<lparr>mem := h4, heads := a, tails := (if xs = [] then a else tails c3), sizes := sizes c3 + 1\<rparr>)"
    and seg4: "dseg h4 0 a (a # xs) 0 (if xs = [] then a else tails c3)" and core4: "core_at h4 = core_at (mem c3)"
    and hn: "\<forall>b. map_option h_next (h4 b) = map_option h_next (mem c3 b)" by blast
  let ?c' = "c3\<lparr>mem := h4, heads := a, tails := (if xs = [] then a else tails c3), sizes := sizes c3 + 1\<rparr>"
  have run: "do_item_link calloc_ok a c = Some ?c'"
    unfolding lq [symmetric] using a(1) a0(3) small(1) ins(1) ita(1)
    by (simp add: do_item_link_def upd_def get_cas_id_def Let_def c3_def)
  have core: "core_at h4 = (core_at (mem c))(a \<mapsto> (core it)\<lparr>it_flags := ITEM_LINKED, it_time := now_ms c, cas_id := last_cas c + 1\<rparr>)"
  proof -
    have "core (ita\<lparr>cas_id := last_cas c + 1\<rparr>) =
        (core it)\<lparr>it_flags := ITEM_LINKED, it_time := now_ms c, cas_id := last_cas c + 1\<rparr>"
      using ita(2) by simp
    then show ?thesis
      using core4 unchained_core [OF ins(2)] by (simp add: c3_def core_at_upd)
  qed
  have "assoc_rel h4 t ?M"
  proof (rule assoc_rel_frame [OF ins(3)])
    fix b
    have "chain_view (h4 b) = chain_view (mem c3 b)" using core4 hn by (intro view_core) (simp_all add: fun_eq_iff)
    then show "chain_view (h4 b) = chain_view (h b)" using ita(1) by (simp add: c3_def)
  qed
  moreover have "items_ok h4 (ran ?M)"
    using items_ok_upd [OF core its] a a0 by (simp add: item_ok_def)
  moreover have "bytes_at h4 (a # xs) = ITEM_ntotal it + bytes_at (mem c) xs"
  proof -
    have "bytes_at h4 xs = bytes_at (mem c) xs"
      using core a3(2) dseg_dom [OF seg] by (intro bytes_at_core) auto
    moreover have "ITEM_ntotal (the (h4 a)) = ITEM_ntotal it" using ntotal_core [of h4 a] core by (simp add: ITEM_ntotal_def)
    ultimately show ?thesis by (simp add: bytes_at_def)
  qed
  ultimately have "cache_ok ?c' ?M (a # xs)"
    using seg4 d a xs sz by (simp add: cache_ok_def c3_def)
  then show ?thesis using run core by (intro exI [of _ ?c']) (simp add: env_def c3_def)
qed

section \<open>Unlinking\<close>

lemma cache_okD:
  assumes "cache_ok c M xs"
  shows "assoc_rel (mem c) (table c) M" "dseg (mem c) 0 (heads c) xs 0 (tails c)" "distinct xs" "set xs = ran M"
    "items_ok (mem c) (ran M)" "sizes c = of_nat (length xs)" "curr_items (stat c) = of_nat (length xs)"
    "curr_bytes (stat c) = of_nat (bytes_at (mem c) xs)"
  using assms by (auto simp: cache_ok_def)

lemma bytes_at_append: "bytes_at h (us @ vs) = bytes_at h us + bytes_at h vs"
  by (simp add: bytes_at_def)

text \<open>Unlinking an item that others refer to keeps it in the store, unlinked; without a reference it is freed.\<close>

lemma do_item_unlink_ok:
  assumes ok: "cache_ok c M xs" and k: "M k = Some a" and a: "mem c a = Some it"
  shows "\<exists>c'. do_item_unlink a c = Some c' \<and> cache_ok c' (M(k := None)) (remove1 a xs) \<and> env c' = env c \<and>
    core_at (mem c') = (core_at (mem c))(a := (if refcount it = 0 then None else Some ((core it)\<lparr>it_flags := 0\<rparr>)))"
proof -
  note o = cache_okD [OF ok]
  have ran: "a \<in> ran M" using k by (auto intro: ranI)
  then have f: "it_flags it = ITEM_LINKED" "item_ok it" "a \<noteq> 0" using o(5) a by (auto simp: items_ok_def)
  have key: "ITEM_key it = k" using assoc_rel_item [OF o(1) k] a by auto
  obtain us vs where xs: "xs = us @ a # vs" using ran o(4) split_list by metis
  let ?h1 = "(mem c)(a \<mapsto> it\<lparr>it_flags := 0\<rparr>)" and ?M = "M(k := None)"
  have rel1: "assoc_rel ?h1 (table c) M" using a by (intro assoc_rel_frame [OF o(1)]) simp
  from tbl.del_law [OF rel1 k] obtain h t where del: "assoc_delete ?h1 (table c) k = Some (h, t)"
    "unchained h = unchained ?h1" "assoc_rel h t ?M" by blast
  define c2 where "c2 = c\<lparr>stat := (stat c)\<lparr>curr_bytes := curr_bytes (stat c) - of_nat (ITEM_ntotal it),
                                              curr_items := curr_items (stat c) - 1\<rparr>, mem := h, table := t\<rparr>"
  have "dseg h 0 (heads c) xs 0 (tails c) = dseg (mem c) 0 (heads c) xs 0 (tails c)"
    using unchained_links [OF del(2)] a by (intro dseg_cong) simp
  then have seg2: "dseg (mem c2) 0 (heads c2) (us @ a # vs) 0 (tails c2)" using o(2) xs by (simp add: c2_def)
  have core1: "core_at h = (core_at (mem c))(a \<mapsto> (core it)\<lparr>it_flags := 0\<rparr>)"
    using unchained_core [OF del(2)] by (simp add: core_at_upd)
  then obtain ia where ia: "mem c2 a = Some ia" "core ia = (core it)\<lparr>it_flags := 0\<rparr>"
    by (auto simp: c2_def core_at_def fun_eq_iff split: if_splits)
  from item_unlink_q_ok [OF seg2 _ ia(1)] o(3) xs obtain h3 hd0 tl0 where
    uq: "item_unlink_q a c2 = Some (c2\<lparr>mem := h3, heads := hd0, tails := tl0, sizes := sizes c2 - 1\<rparr>)"
    and seg3: "dseg h3 0 hd0 (us @ vs) 0 tl0" and core3: "core_at h3 = core_at (mem c2)" and a3: "h3 a = Some ia"
    and hn: "\<forall>b. map_option h_next (h3 b) = map_option h_next (mem c2 b)" by auto
  let ?c3 = "c2\<lparr>mem := h3, heads := hd0, tails := tl0, sizes := sizes c2 - 1\<rparr>"
  have ref: "refcount ia = refcount it" "it_flags ia = 0" using arg_cong [OF ia(2), of refcount] arg_cong [OF ia(2), of it_flags] by simp_all
  let ?h = "if refcount it = 0 then h3(a := None) else h3"
  have run: "do_item_unlink a c = Some (?c3\<lparr>mem := ?h\<rparr>)"
    using a f del(1) key uq a3 ref
    by (simp add: do_item_unlink_def upd_def Let_def c2_def item_free_def ITEM_LINKED_def)
  have core: "core_at ?h = (core_at (mem c))(a := (if refcount it = 0 then None else Some ((core it)\<lparr>it_flags := 0\<rparr>)))"
    using core1 core3 by (auto simp: c2_def core_at_def fun_eq_iff)
  have ranM: "ran ?M = ran M - {a}" using ran_delete [OF o(1) k] .
  have seg4: "dseg ?h 0 hd0 (us @ vs) 0 tl0"
    using seg3 o(3) xs by (subst dseg_cong [of "us @ vs" _ h3]) auto
  have rel4: "assoc_rel ?h t ?M"
  proof (rule assoc_rel_frame [OF del(3)])
    fix b assume "b \<in> ran ?M"
    moreover have "chain_view (h3 b) = chain_view (mem c2 b)" using core3 hn by (intro view_core) (simp_all add: fun_eq_iff)
    ultimately show "chain_view (?h b) = chain_view (h b)" unfolding ranM by (simp add: c2_def)
  qed
  have its: "items_ok ?h (ran ?M)"
  proof (cases "refcount it = 0")
    case True
    then have "core_at ?h = (core_at (mem c))(a := None)" using core by simp
    then show ?thesis unfolding ranM by (rule items_ok_del [OF _ o(5)]) simp
  next
    case False
    then have "core_at ?h = (core_at (mem c))(a \<mapsto> (core it)\<lparr>it_flags := 0\<rparr>)" using core by simp
    then show ?thesis unfolding ranM
      by (rule items_ok_upd [OF _ o(5) f(3)]) (use False f(2) in \<open>simp_all add: item_ok_def\<close>)
  qed
  have len: "length xs = Suc (length (us @ vs))" and rem: "remove1 a xs = us @ vs" using xs o(3) by (auto simp: remove1_append)
  have "bytes_at ?h (us @ vs) = bytes_at (mem c) (us @ vs)"
    using core o(3) xs dseg_dom [OF o(2)] by (intro bytes_at_core) auto
  moreover have "bytes_at (mem c) xs = ITEM_ntotal it + bytes_at (mem c) (us @ vs)"
    using a xs by (simp add: bytes_at_def)
  moreover have "set (us @ vs) = ran M - {a}" using o(3,4) xs by auto
  ultimately have "cache_ok (?c3\<lparr>mem := ?h\<rparr>) ?M (us @ vs)"
    using seg4 rel4 its o xs len unfolding cache_ok_def ranM by (simp add: c2_def)
  then show ?thesis using run core rem by (intro exI [of _ "?c3\<lparr>mem := ?h\<rparr>"]) (simp add: env_def c2_def)
qed

section \<open>References\<close>

text \<open>A change of one item that keeps its links, its key and its block.\<close>

lemma cache_ok_upd:
  assumes ok: "cache_ok c M xs" and a: "mem c a = Some it" and f: "item_ok it'" "it_flags it' = it_flags it"
      "a \<in> ran M \<or> refcount it' \<noteq> 0" "links (Some it') = links (Some it)" "chain_view (Some it') = chain_view (Some it)"
      "ITEM_ntotal it' = ITEM_ntotal it"
  shows "cache_ok (c\<lparr>mem := (mem c)(a \<mapsto> it')\<rparr>) M xs"
proof -
  note o = cache_okD [OF ok]
  let ?h = "(mem c)(a \<mapsto> it')"
  have a0: "a \<noteq> 0" "if a \<in> ran M then it_flags it = ITEM_LINKED else it_flags it = 0 \<and> refcount it \<noteq> 0"
    using o(5) a by (auto simp: items_ok_def)
  have "assoc_rel ?h (table c) M" using a f(5) by (intro assoc_rel_frame [OF o(1)]) simp
  moreover have "dseg ?h 0 (heads c) xs 0 (tails c)"
    using o(2) a f(4) by (subst dseg_cong [of xs _ "mem c"]) simp_all
  moreover have "items_ok ?h (ran M)"
    by (rule items_ok_upd [OF core_at_upd o(5) a0(1)]) (use f a0 in auto)
  moreover have "bytes_at ?h xs = bytes_at (mem c) xs"
    unfolding bytes_at_def using a f(6) by (intro arg_cong [of _ _ sum_list] map_cong) auto
  ultimately show ?thesis using o by (simp add: cache_ok_def)
qed

text \<open>Forgetting an unlinked item.\<close>

lemma cache_ok_free:
  assumes ok: "cache_ok c M xs" and a: "a \<notin> ran M"
  shows "cache_ok (c\<lparr>mem := (mem c)(a := None)\<rparr>) M xs"
proof -
  note o = cache_okD [OF ok]
  let ?h = "(mem c)(a := None)"
  have "assoc_rel ?h (table c) M" using a by (intro assoc_rel_frame [OF o(1)]) auto
  moreover have "dseg ?h 0 (heads c) xs 0 (tails c)" using o(2,4) a by (subst dseg_cong [of xs _ "mem c"]) auto
  moreover have "items_ok ?h (ran M)" by (rule items_ok_del [OF _ o(5)]) (auto simp: core_at_def)
  moreover have "bytes_at ?h xs = bytes_at (mem c) xs"
    unfolding bytes_at_def using o(4) a by (intro arg_cong [of _ _ sum_list] map_cong) auto
  ultimately show ?thesis using o by (simp add: cache_ok_def)
qed

lemma item_ok_refcount [simp]: "item_ok (it\<lparr>refcount := r\<rparr>) = item_ok it"
  by (simp add: item_ok_def)

lemma ntotal_refcount [simp]: "ITEM_ntotal (it\<lparr>refcount := r\<rparr>) = ITEM_ntotal it"
  by (simp add: ITEM_ntotal_def)

lemma flags_ok:
  assumes "cache_ok c M xs" and "mem c a = Some it"
  shows "it_flags it AND ITEM_DELETED = 0" and "it_flags it AND ITEM_LINKED \<noteq> 0 \<longleftrightarrow> a \<in> ran M"
proof -
  have "if a \<in> ran M then it_flags it = ITEM_LINKED else it_flags it = 0"
    using cache_okD(5) [OF assms(1)] assms(2) by (auto simp: items_ok_def)
  then show "it_flags it AND ITEM_DELETED = 0" "it_flags it AND ITEM_LINKED \<noteq> 0 \<longleftrightarrow> a \<in> ran M"
    by (auto simp: ITEM_DELETED_def ITEM_LINKED_def split: if_splits)
qed

text \<open>Dropping a reference: the item is freed with the last one unless it is linked.\<close>

lemma do_item_remove_ok:
  assumes ok: "cache_ok c M xs" and a: "mem c a = Some it"
  shows "\<exists>c'. do_item_remove a c = Some c' \<and> cache_ok c' M xs \<and> env c' = env c \<and>
    core_at (mem c') = (core_at (mem c))(a :=
      (if a \<in> ran M \<or> refcount it \<noteq> 1
       then Some ((core it)\<lparr>refcount := if refcount it = 0 then 0 else refcount it - 1\<rparr>) else None))"
proof -
  note o = cache_okD [OF ok]
  have f: "if a \<in> ran M then it_flags it = ITEM_LINKED else it_flags it = 0 \<and> refcount it \<noteq> 0" "item_ok it"
    using o(5) a by (auto simp: items_ok_def)
  let ?it = "it\<lparr>refcount := if refcount it = 0 then 0 else refcount it - 1\<rparr>"
  let ?c = "c\<lparr>mem := (mem c)(a \<mapsto> ?it)\<rparr>"
  have same: "c\<lparr>mem := (mem c)(a \<mapsto> it\<lparr>refcount := 0\<rparr>)\<rparr> = c" if "refcount it = 0"
  proof -
    have "it\<lparr>refcount := 0\<rparr> = it" using that by (cases it) simp
    then show ?thesis using a by (simp add: fun_upd_idem)
  qed
  show ?thesis
  proof (cases "a \<in> ran M \<or> refcount it \<noteq> 1")
    case True
    then have ok': "cache_ok ?c M xs"
      using f by (intro cache_ok_upd [OF ok a]) (auto split: if_splits)
    moreover have "do_item_remove a c = Some ?c"
      using True f(1) a same flags_ok [OF ok a]
      by (cases "refcount it = 0") (auto simp: do_item_remove_def upd_def split: if_splits)
    ultimately show ?thesis using True a by (intro exI [of _ ?c]) (simp add: env_def core_at_upd)
  next
    case False
    then have "do_item_remove a c = Some (c\<lparr>mem := (mem c)(a := None)\<rparr>)"
      using f a by (simp add: do_item_remove_def upd_def item_free_def)
    then show ?thesis using False cache_ok_free [OF ok, of a] by (auto simp: env_def core_at_def fun_eq_iff)
  qed
qed

text \<open>Taking a reference.\<close>

lemma take_ref_ok:
  assumes ok: "cache_ok c M xs" and a: "mem c a = Some it" and r: "a \<in> ran M"
  shows "cache_ok (c\<lparr>mem := (mem c)(a \<mapsto> it\<lparr>refcount := refcount it + 1\<rparr>)\<rparr>) M xs"
  using cache_okD(5) [OF ok] a r by (intro cache_ok_upd [OF ok a]) (auto simp: items_ok_def)

section \<open>Look-up\<close>

text \<open>An item that \<open>oldest_live\<close> or its expiration date makes invisible is unlinked by the look-up.\<close>

definition expired :: "cache \<Rightarrow> item \<Rightarrow> bool" where
  "expired c it \<longleftrightarrow>
     oldest_live c \<noteq> 0 \<and> oldest_live c \<le> now_ms c \<and> it_time it \<le> oldest_live c \<or>
     exptime it \<noteq> 0 \<and> exptime it \<le> now_ms c"

lemma get_miss:
  assumes ok: "cache_ok c M xs" and k: "M k = None"
  shows "do_item_get_notedeleted k c = Some (0, False, c)"
  using tbl.find_law [OF cache_okD(1) [OF ok], of k] k by (simp add: do_item_get_notedeleted_def)

lemma get_hit:
  assumes ok: "cache_ok c M xs" and k: "M k = Some a" and a: "mem c a = Some it" and e: "\<not> expired c it"
  shows "do_item_get_notedeleted k c = Some (a, False, c\<lparr>mem := (mem c)(a \<mapsto> it\<lparr>refcount := refcount it + 1\<rparr>)\<rparr>)"
proof -
  have "a \<noteq> 0" using assoc_rel_item [OF cache_okD(1) [OF ok] k] by metis
  then show ?thesis
    using tbl.find_law [OF cache_okD(1) [OF ok], of k] k a e flags_ok(1) [OF ok a]
    by (auto simp: do_item_get_notedeleted_def expired_def upd_def)
qed

lemma get_expired:
  assumes ok: "cache_ok c M xs" and k: "M k = Some a" and a: "mem c a = Some it" and e: "expired c it"
  shows "do_item_get_notedeleted k c = map_option (\<lambda>c'. (0, False, c')) (do_item_unlink a c)"
proof -
  have a0: "a \<noteq> 0" using assoc_rel_item [OF cache_okD(1) [OF ok] k] by metis
  obtain c' where "do_item_unlink a c = Some c'" using do_item_unlink_ok [OF ok k a] by blast
  then show ?thesis
    using tbl.find_law [OF cache_okD(1) [OF ok], of k] k a a0 e flags_ok(1) [OF ok a]
    by (cases "oldest_live c \<noteq> 0 \<and> oldest_live c \<le> now_ms c \<and> it_time it \<le> oldest_live c")
       (auto simp: do_item_get_notedeleted_def expired_def)
qed

section \<open>Repositioning\<close>

lemma do_item_update_ok:
  assumes ok: "cache_ok c M xs" and a: "mem c a = Some it" and r: "a \<in> ran M"
  shows "\<exists>c' xs'. do_item_update a c = Some c' \<and> cache_ok c' M xs' \<and> env c' = env c \<and>
    xs' = (if it_time it < now_ms c - ITEM_UPDATE_INTERVAL then a # remove1 a xs else xs) \<and>
    core_at (mem c') = (if it_time it < now_ms c - ITEM_UPDATE_INTERVAL
                        then (core_at (mem c))(a \<mapsto> (core it)\<lparr>it_time := now_ms c\<rparr>) else core_at (mem c))"
proof (cases "it_time it < now_ms c - ITEM_UPDATE_INTERVAL")
  case True
  note o = cache_okD [OF ok]
  obtain us vs where xs: "xs = us @ a # vs" using r o(4) split_list by metis
  have d: "distinct (us @ vs)" "a \<notin> set (us @ vs)" "remove1 a xs = us @ vs" using o(3) xs by (auto simp: remove1_append)
  have f: "it_flags it = ITEM_LINKED" "item_ok it" "a \<noteq> 0" using o(5) a r by (auto simp: items_ok_def)
  from item_unlink_q_ok [of c us a vs it] o(2,3) xs a obtain h hd0 tl0 where
    uq: "item_unlink_q a c = Some (c\<lparr>mem := h, heads := hd0, tails := tl0, sizes := sizes c - 1\<rparr>)"
    and seg: "dseg h 0 hd0 (us @ vs) 0 tl0" and core: "core_at h = core_at (mem c)" and ha: "h a = Some it"
    and hn: "\<forall>b. map_option h_next (h b) = map_option h_next (mem c b)" by auto
  define c2 where "c2 = c\<lparr>heads := hd0, tails := tl0, sizes := sizes c - 1, mem := h(a \<mapsto> it\<lparr>it_time := now_ms c\<rparr>)\<rparr>"
  have seg2: "dseg (mem c2) 0 (heads c2) (us @ vs) 0 (tails c2)"
    unfolding c2_def using seg d(2) by (subst dseg_cong [of "us @ vs" _ h]) auto
  have a2: "mem c2 a = Some (it\<lparr>it_time := now_ms c\<rparr>)" by (simp add: c2_def)
  from item_link_q_ok [OF seg2 d(2) f(3) a2 d(1)] obtain h3 where
    lq: "item_link_q a c2 = Some (c2\<lparr>mem := h3, heads := a, tails := (if us @ vs = [] then a else tails c2), sizes := sizes c2 + 1\<rparr>)"
    and seg3: "dseg h3 0 a (a # us @ vs) 0 (if us @ vs = [] then a else tails c2)" and core3: "core_at h3 = core_at (mem c2)"
    and hn3: "\<forall>b. map_option h_next (h3 b) = map_option h_next (mem c2 b)" by blast
  let ?c' = "c2\<lparr>mem := h3, heads := a, tails := (if us @ vs = [] then a else tails c2), sizes := sizes c2 + 1\<rparr>"
  have run: "do_item_update a c = Some ?c'"
    unfolding lq [symmetric] using a f True uq ha by (simp add: do_item_update_def upd_def c2_def ITEM_LINKED_def)
  have c': "core_at h3 = (core_at (mem c))(a \<mapsto> (core it)\<lparr>it_time := now_ms c\<rparr>)"
    using core core3 by (simp add: c2_def core_at_upd)
  have "assoc_rel h3 (table c) M"
  proof (rule assoc_rel_frame [OF o(1)])
    fix b
    have "chain_view (h3 b) = chain_view (mem c2 b)" using core3 hn3 by (intro view_core) (simp_all add: fun_eq_iff)
    moreover have "chain_view (h b) = chain_view (mem c b)" using core hn by (intro view_core) (simp_all add: fun_eq_iff)
    ultimately show "chain_view (h3 b) = chain_view (mem c b)" using ha by (auto simp: c2_def split: if_splits)
  qed
  moreover have "items_ok h3 (ran M)"
    by (rule items_ok_upd [OF c' o(5) f(3)]) (use f r in \<open>simp_all add: item_ok_def\<close>)
  moreover have "bytes_at h3 (a # us @ vs) = bytes_at (mem c) xs"
  proof -
    have "bytes_at h3 (us @ vs) = bytes_at (mem c) (us @ vs)"
      using c' d(2) xs dseg_dom [OF o(2)] by (intro bytes_at_core) auto
    moreover have "ITEM_ntotal (the (h3 a)) = ITEM_ntotal it" using ntotal_core [of h3 a] c' by (simp add: ITEM_ntotal_def)
    ultimately show ?thesis using xs a by (simp add: bytes_at_def)
  qed
  moreover have "set (a # us @ vs) = ran M" "length xs = length (a # us @ vs)" using o(4) xs by auto
  ultimately have "cache_ok ?c' M (a # us @ vs)"
    using seg3 d o by (simp add: cache_ok_def c2_def)
  then show ?thesis using run c' d(3) True by (intro exI [of _ ?c'] exI [of _ "a # us @ vs"]) (simp add: env_def c2_def)
next
  case False
  then show ?thesis using ok a by (intro exI [of _ c] exI [of _ xs]) (simp add: do_item_update_def)
qed

section \<open>Allocation\<close>

text \<open>What \<open>malloc\<close> promises of a chunk it returns: a new address, not NULL, and a block of the size asked for.\<close>

definition fresh_chunk :: "cache \<Rightarrow> nat \<Rightarrow> chunk \<Rightarrow> bool" where
  "fresh_chunk c sz m \<longleftrightarrow> fst m \<noteq> 0 \<and> fst m \<notin> dom (mem c) \<and> length (end_bytes (snd m)) = sz - sizeof_item"

definition suffix_text :: "int \<Rightarrow> int \<Rightarrow> u8 list" where
  "suffix_text flags nb = [32] @ fmt_d flags @ [32] @ fmt_d (nb - 2) @ [13, 10]"

definition item_size :: "nat \<Rightarrow> int \<Rightarrow> int \<Rightarrow> nat" where
  "item_size nk flags nb = sizeof_item + nk + 1 + length (suffix_text flags nb) + nat nb"

lemma length_digits: "n < 10 ^ Suc k \<Longrightarrow> length (digits n) \<le> Suc k"
proof (induction k arbitrary: n)
  case (Suc k)
  then have "n div 10 < 10 ^ Suc k" by (simp add: less_mult_imp_div_less mult.commute)
  then show ?case using Suc.IH by (simp add: digits.simps [of n])
qed (simp add: digits.simps)

lemma length_fmt_d: "\<bar>i\<bar> < 10 ^ 10 \<Longrightarrow> length (fmt_d i) \<le> 11"
proof -
  assume "\<bar>i\<bar> < 10 ^ 10"
  then have "nat i < 10 ^ Suc 9" "nat (- i) < 10 ^ Suc 9" by auto
  then show ?thesis using length_digits [of "nat i" 9] length_digits [of "nat (- i)" 9] by (auto simp: fmt_d_def)
qed

lemma length_suffix_text:
  assumes "\<bar>flags\<bar> \<le> 2 ^ 31" and "0 \<le> nb" and "nb \<le> 2 ^ 31"
  shows "length (suffix_text flags nb) \<le> 26"
proof -
  have "\<bar>flags\<bar> < 10 ^ 10" "\<bar>nb - 2\<bar> < 10 ^ 10" using assms by auto
  then show ?thesis using length_fmt_d [of flags] length_fmt_d [of "nb - 2"] by (simp add: suffix_text_def)
qed

lemma header_eq:
  assumes "\<bar>flags\<bar> \<le> 2 ^ 31" and "0 \<le> nb" and "nb \<le> 2 ^ 31" and "nk \<le> 250"
  shows "item_make_header (of_nat (nk + 1)) flags nb =
    (suffix_text flags nb @ [0], of_nat (length (suffix_text flags nb)), item_size nk flags nb)"
proof -
  have l: "length (suffix_text flags nb) \<le> 26" using assms by (intro length_suffix_text)
  then have u: "unat (of_nat (length (suffix_text flags nb)) :: u8) = length (suffix_text flags nb)"
    by (intro unat_of_nat_small) simp
  have "unat (of_nat (nk + 1) :: u8) = nk + 1" using assms(4) by (intro unat_of_nat_small) simp
  then show ?thesis
    using u l assms(2) unfolding item_make_header_def suffix_text_def [symmetric] Let_def
    by (simp add: item_size_def nat_add_distrib nat_int_add)
qed

text \<open>The item an allocation gives.\<close>

definition new_item :: "key \<Rightarrow> int \<Rightarrow> u32 \<Rightarrow> int \<Rightarrow> item \<Rightarrow> item" where
  "new_item key flags exptm nb raw =
     raw\<lparr>it_next := 0, it_prev := 0, h_next := 0, refcount := 1, it_flags := 0, nkey := of_nat (length key), nbytes := nb,
         end_bytes := key @ [0] @ suffix_text flags nb @
                      drop (length key + 1 + length (suffix_text flags nb)) (end_bytes raw),
         exptime := exptm, nsuffix := of_nat (length (suffix_text flags nb))\<rparr>"

lemma do_item_alloc_ok:
  assumes "\<bar>flags\<bar> \<le> 2 ^ 31" and "0 \<le> nb" and "nb \<le> 2 ^ 31" and "length key \<le> 250"
    and m: "malloc1 (item_size (length key) flags nb) = (a, raw)" "fresh_chunk c (item_size (length key) flags nb) (a, raw)"
  shows "do_item_alloc malloc1 malloc2 key (length key) flags exptm nb c =
    Some (a, c\<lparr>mem := (mem c)(a \<mapsto> new_item key flags exptm nb raw)\<rparr>)"
proof -
  have l: "length (suffix_text flags nb) \<le> 26" using assms by (intro length_suffix_text)
  have u: "unat (of_nat (length (suffix_text flags nb)) :: u8) = length (suffix_text flags nb)"
    "unat (of_nat (length key) :: u8) = length key"
    using l assms(4) by (auto intro!: unat_of_nat_small)
  have e: "length (end_bytes raw) = length key + 1 + length (suffix_text flags nb) + nat nb" "a \<noteq> 0"
    using m(2) by (simp_all add: fresh_chunk_def item_size_def)
  show ?thesis
    using header_eq [OF assms(1-4)] m(1) e u
    by (simp add: do_item_alloc_def Buffers.store_def new_item_def add.commute)
qed

lemma new_item_ok:
  assumes "\<bar>flags\<bar> \<le> 2 ^ 31" and "2 \<le> nb" and "nb \<le> 2 ^ 31" and "length key \<le> 250"
    and "length (end_bytes raw) = length key + 1 + length (suffix_text flags nb) + nat nb"
    and it_def: "it = new_item key flags exptm nb raw"
  shows "item_ok it" "ITEM_key it = key" "ITEM_suffix it = suffix_text flags nb" "length (ITEM_data it) = nat nb"
    "refcount it = 1" "it_flags it = 0" "exptime it = exptm" "nbytes it = nb"
    "ITEM_data it = drop (length key + 1 + length (suffix_text flags nb)) (end_bytes raw)"
proof -
  have "length (suffix_text flags nb) \<le> 26" using assms by (intro length_suffix_text) auto
  then have u: "unat (of_nat (length (suffix_text flags nb)) :: u8) = length (suffix_text flags nb)"
    "unat (of_nat (length key) :: u8) = length key"
    using assms(4) by (auto intro!: unat_of_nat_small)
  then show "item_ok it" "ITEM_key it = key" "ITEM_suffix it = suffix_text flags nb" "length (ITEM_data it) = nat nb"
    "refcount it = 1" "it_flags it = 0" "exptime it = exptm" "nbytes it = nb"
    "ITEM_data it = drop (length key + 1 + length (suffix_text flags nb)) (end_bytes raw)"
    using assms(2,5) by (simp_all add: it_def new_item_def item_ok_def ITEM_key_def ITEM_suffix_def ITEM_data_def)
qed

lemma cache_ok_new:
  assumes ok: "cache_ok c M xs" and a: "a \<noteq> 0" "a \<notin> dom (mem c)" and it: "item_ok it" "it_flags it = 0" "refcount it \<noteq> 0"
  shows "cache_ok (c\<lparr>mem := (mem c)(a \<mapsto> it)\<rparr>) M xs" and "a \<notin> ran M"
proof -
  note o = cache_okD [OF ok]
  let ?h = "(mem c)(a \<mapsto> it)"
  have dom: "ran M \<subseteq> dom (mem c)" using dseg_dom [OF o(2)] o(4) by auto
  then show r: "a \<notin> ran M" using a by auto
  have "assoc_rel ?h (table c) M" using r by (intro assoc_rel_frame [OF o(1)]) auto
  moreover have "dseg ?h 0 (heads c) xs 0 (tails c)" using o(2,4) r by (subst dseg_cong [of xs _ "mem c"]) auto
  moreover have "items_ok ?h (ran M)"
    by (rule items_ok_upd [OF core_at_upd o(5) a(1)]) (use it r in simp_all)
  moreover have "bytes_at ?h xs = bytes_at (mem c) xs"
    unfolding bytes_at_def using o(4) r by (intro arg_cong [of _ _ sum_list] map_cong) auto
  ultimately show "cache_ok (c\<lparr>mem := ?h\<rparr>) M xs" using o by (simp add: cache_ok_def)
qed

section \<open>Properties\<close>


text \<open>An empty cache with one allocated item.\<close>

definition stats0 :: stats where
  "stats0 = \<lparr>curr_items = 0, total_items = 0, curr_bytes = 0, curr_conns = 0, total_conns = 0, conn_structs = 0, get_cmds = 0,
     set_cmds = 0, get_hits = 0, get_misses = 0, evictions = 0, started = 0, bytes_read = 0, bytes_written = 0\<rparr>"

definition cache1 :: cache where
  "cache1 = \<lparr>mem = [8 \<mapsto> item_abc], table = table2, heads = 0, tails = 0, sizes = 0, last_cas = 0, outofmemory = 0,
     stat = stats0, now_ms = 1000, oldest_live = 0, evict_to_free = 0\<rparr>"

lemma cache1_ok: "cache_ok cache1 Map.empty []"
  using table2_rel
  by (simp add: cache_ok_def cache1_def items_ok_def item_abc_def item_ok_def stats0_def bytes_at_def)


text \<open>A look-up returns the item of the key, with one more reference, unless the item has expired or is older than
  \<open>oldest_live\<close>: then it unlinks the item and returns NULL, as it does for a key without an item. Delete locks never
  occur.\<close>

theorem item_get_spec:
  assumes ok: "cache_ok c M xs"
  shows "(M k = None \<longrightarrow> do_item_get_notedeleted k c = Some (0, False, c)) \<and>
    (M k = Some a \<and> \<not> expired c (the (mem c a)) \<longrightarrow>
      (\<exists>c'. do_item_get_notedeleted k c = Some (a, False, c') \<and> cache_ok c' M xs \<and> mem c' = (mem c)(a \<mapsto>
         (the (mem c a))\<lparr>refcount := refcount (the (mem c a)) + 1\<rparr>))) \<and>
    (M k = Some a \<and> expired c (the (mem c a)) \<longrightarrow>
      (\<exists>c'. do_item_get_notedeleted k c = Some (0, False, c') \<and> cache_ok c' (M(k := None)) (remove1 a xs)))"
proof (intro conjI impI)
  show "M k = None \<Longrightarrow> do_item_get_notedeleted k c = Some (0, False, c)" using ok by (rule get_miss)
next
  assume k: "M k = Some a \<and> \<not> expired c (the (mem c a))"
  obtain it where a: "mem c a = Some it" using assoc_rel_item [OF cache_okD(1) [OF ok]] k by metis
  then show "\<exists>c'. do_item_get_notedeleted k c = Some (a, False, c') \<and> cache_ok c' M xs \<and> mem c' = (mem c)(a \<mapsto>
         (the (mem c a))\<lparr>refcount := refcount (the (mem c a)) + 1\<rparr>)"
    using get_hit [OF ok _ a, of k] take_ref_ok [OF ok a] k by (auto intro: ranI)
next
  assume k: "M k = Some a \<and> expired c (the (mem c a))"
  obtain it where a: "mem c a = Some it" using assoc_rel_item [OF cache_okD(1) [OF ok]] k by metis
  then show "\<exists>c'. do_item_get_notedeleted k c = Some (0, False, c') \<and> cache_ok c' (M(k := None)) (remove1 a xs)"
    using get_expired [OF ok _ a, of k] do_item_unlink_ok [OF ok _ a, of k] k by auto
qed

theorem item_get_spec_witness: "do_item_get_notedeleted [97] cache1 = Some (0, False, cache1)"
  using item_get_spec [OF cache1_ok, of "[97]"] by simp

text \<open>With a chunk from \<open>malloc\<close> the allocation fits the item's block, keeps the cache consistent and gives an unlinked
  item with one reference that has the key, the suffix line of flags and length, and room for the data; without one it
  returns NULL and counts the failure.\<close>

theorem item_alloc_spec:
  assumes ok: "cache_ok c M xs" and n: "\<bar>flags\<bar> \<le> 2 ^ 31" "2 \<le> nb" "nb \<le> 2 ^ 31" "length key \<le> 250"
    and sz: "sz = item_size (length key) flags nb"
  shows "(fresh_chunk c sz (malloc1 sz) \<longrightarrow>
      (\<exists>c' it. do_item_alloc malloc1 malloc2 key (length key) flags exptm nb c = Some (fst (malloc1 sz), c') \<and>
        cache_ok c' M xs \<and> mem c' = (mem c)(fst (malloc1 sz) \<mapsto> it) \<and> ITEM_key it = key \<and>
        ITEM_suffix it = suffix_text flags nb \<and> length (ITEM_data it) = nat nb \<and> nbytes it = nb \<and> ITEM_ntotal it = sz \<and>
        refcount it = 1 \<and> it_flags it = 0 \<and> exptime it = exptm)) \<and>
    (fst (malloc1 sz) = 0 \<and> evict_to_free c = 0 \<longrightarrow>
      do_item_alloc malloc1 malloc2 key (length key) flags exptm nb c = Some (0, c\<lparr>outofmemory := outofmemory c + 1\<rparr>))"
proof (intro conjI impI)
  assume fr: "fresh_chunk c sz (malloc1 sz)"
  obtain a raw where m: "malloc1 sz = (a, raw)" by fastforce
  have e: "length (end_bytes raw) = length key + 1 + length (suffix_text flags nb) + nat nb" "a \<noteq> 0" "a \<notin> dom (mem c)"
    using fr m sz by (simp_all add: fresh_chunk_def item_size_def)
  let ?it = "new_item key flags exptm nb raw"
  note it = new_item_ok [OF n e(1) refl, of exptm]
  have run: "do_item_alloc malloc1 malloc2 key (length key) flags exptm nb c = Some (a, c\<lparr>mem := (mem c)(a \<mapsto> ?it)\<rparr>)"
    using n m fr sz by (intro do_item_alloc_ok) auto
  have "cache_ok (c\<lparr>mem := (mem c)(a \<mapsto> ?it)\<rparr>) M xs" using cache_ok_new [OF ok e(2,3), of ?it] it by simp
  moreover have "ITEM_ntotal ?it = sz"
  proof -
    have "length (end_bytes ?it) = unat (nkey ?it) + 1 + unat (nsuffix ?it) + nat (nbytes ?it)"
      "length (end_bytes ?it) = length key + 1 + length (suffix_text flags nb) + nat nb"
      using it(1) e(1) by (simp_all add: item_ok_def) (simp add: new_item_def)
    then show ?thesis by (simp add: ITEM_ntotal_def sz item_size_def)
  qed
  ultimately show "\<exists>c' it. do_item_alloc malloc1 malloc2 key (length key) flags exptm nb c = Some (fst (malloc1 sz), c') \<and>
        cache_ok c' M xs \<and> mem c' = (mem c)(fst (malloc1 sz) \<mapsto> it) \<and> ITEM_key it = key \<and>
        ITEM_suffix it = suffix_text flags nb \<and> length (ITEM_data it) = nat nb \<and> nbytes it = nb \<and> ITEM_ntotal it = sz \<and>
        refcount it = 1 \<and> it_flags it = 0 \<and> exptime it = exptm"
    using run m it by (intro exI [of _ "c\<lparr>mem := (mem c)(a \<mapsto> ?it)\<rparr>"] exI [of _ ?it]) simp
next
  assume "fst (malloc1 sz) = 0 \<and> evict_to_free c = 0"
  then show "do_item_alloc malloc1 malloc2 key (length key) flags exptm nb c = Some (0, c\<lparr>outofmemory := outofmemory c + 1\<rparr>)"
    using header_eq [OF n(1) _ n(3,4)] n(2) sz by (simp add: do_item_alloc_def)
qed

theorem item_alloc_spec_witness:
  "\<exists>c' it. do_item_alloc (\<lambda>sz. (16, item_abc\<lparr>end_bytes := replicate (sz - sizeof_item) 0\<rparr>)) (\<lambda>_. (0, item_abc)) [120] 1 0 0 5 cache1 =
     Some (16, c') \<and> mem c' 16 = Some it \<and> ITEM_key it = [120] \<and> ITEM_suffix it = [32, 48, 32, 51, 13, 10]"
proof -
  let ?m = "\<lambda>sz. (16 :: nat, item_abc\<lparr>end_bytes := replicate (sz - sizeof_item) 0\<rparr>)"
  have "fresh_chunk cache1 (item_size 1 0 5) (?m (item_size 1 0 5))" by (simp add: fresh_chunk_def cache1_def)
  moreover have "suffix_text 0 5 = [32, 48, 32, 51, 13, 10]" by (simp add: suffix_text_def fmt_d_def digits.simps)
  ultimately show ?thesis
    using item_alloc_spec [OF cache1_ok, of 0 5 "[120]" "item_size 1 0 5" ?m "\<lambda>_. (0, item_abc)" 0] by auto
qed

end
