(* ===== verification/Memcached.thy ===== *)
theory Memcached
  imports Cache
begin

text \<open>
  The memcached protocol handler, \<open>src/src/handler/memcached.c\<close>: the tokenizer, the commands, the storage commands'
  effect on the cache, and the state machine of a connection with its read and write callbacks.

  The state \<open>mcs\<close> holds the shared cache and what belongs to one descriptor: the \<open>struct conn\<close>, the two buffers, and the
  two bits of the descriptor in the poller's mask (\<open>EV_FD_SET\<close>, \<open>EV_FD_CLR\<close>, \<open>EV_FD_ISSET\<close>; the poller itself is the theory
  \<open>Poller\<close>). \<open>net\<close> is what \<open>recv\<close> is going to return; when it is used up \<open>recv\<close> fails with \<open>EAGAIN\<close>, as it does on a
  non-blocking socket without data. \<open>malloc\<close> and \<open>calloc\<close> are parameters, collected in \<open>sys\<close>. A bad pointer, a failed
  assertion, a write outside a block and a signed overflow are the fault \<open>Crash\<close>; \<open>log_fatal\<close> ends the process, the
  fault \<open>Exit\<close>.
\<close>

section \<open>Constants and state\<close>

definition MC_BUFFER_SIZE :: nat where "MC_BUFFER_SIZE = 4096"
definition KEY_MAX_LENGTH :: nat where "KEY_MAX_LENGTH = 250"
definition MAX_TOKENS :: nat where "MAX_TOKENS = 8"

datatype comm = NREAD_ADD | NREAD_SET | NREAD_REPLACE | NREAD_APPEND | NREAD_PREPEND | NREAD_CAS

datatype conn_states =
  conn_listening | conn_read | conn_write | conn_nread | conn_swallow | conn_closing | conn_mwrite

record conn =
  cstate :: conn_states
  write_and_go :: conn_states
  citem :: nat            \<comment> \<open>\<open>item\<close>\<close>
  ritem :: nat            \<comment> \<open>an offset in the block of the item being read\<close>
  rlbytes :: int
  item_comm :: comm
  sbytes :: int

datatype recv_res = Data "u8 list" | Eof | Err int

definition EAGAIN :: int where "EAGAIN = 11"
definition EINVAL :: int where "EINVAL = 22"
definition ERANGE :: int where "ERANGE = 34"

record mcs =
  cch :: cache
  con :: conn
  rd_buff :: buffer
  wr_buff :: buffer
  ev_rd :: bool
  ev_wr :: bool
  errno :: int
  closed :: bool
  net :: "recv_res list"

record sys =
  malloc :: "store \<Rightarrow> nat \<Rightarrow> chunk"
  malloc_retry :: "store \<Rightarrow> nat \<Rightarrow> chunk"
  grow_ok :: bool            \<comment> \<open>whether \<open>calloc\<close> of a larger table succeeds\<close>

datatype fault = Crash | Exit

definition set_stat :: "(stats \<Rightarrow> stats) \<Rightarrow> mcs \<Rightarrow> mcs" where
  "set_stat f s = s\<lparr>cch := (cch s)\<lparr>stat := f (stat (cch s))\<rparr>\<rparr>"

section \<open>Connection set-up\<close>

text \<open>The uninitialised memory of the two buffers and of the \<open>struct conn\<close> is an argument.\<close>

definition mc_accept :: "u8 list \<Rightarrow> u8 list \<Rightarrow> conn \<Rightarrow> mcs \<Rightarrow> mcs" where
  "mc_accept ibl obl raw s =
     set_stat (\<lambda>st. st\<lparr>curr_conns := curr_conns st + 1, total_conns := total_conns st + 1\<rparr>)
       (s\<lparr>rd_buff := buffer_init ibl MC_BUFFER_SIZE, wr_buff := buffer_init obl MC_BUFFER_SIZE,
          con := raw\<lparr>cstate := conn_read, citem := 0\<rparr>, closed := False\<rparr>)"

definition mc_disconnect :: "mcs \<Rightarrow> mcs" where
  "mc_disconnect s = s\<lparr>closed := True\<rparr>"

definition stats_init :: "int \<Rightarrow> stats" where
  "stats_init time = \<lparr>curr_items = 0, total_items = 0, curr_bytes = 0, curr_conns = 0, total_conns = 0, conn_structs = 0,
     get_cmds = 0, set_cmds = 0, get_hits = 0, get_misses = 0, evictions = 0, started = time - 2,
     bytes_read = 0, bytes_written = 0\<rparr>"

section \<open>Tokens\<close>

text \<open>
  A token is its text, NULL for the end mark of a line that was used up, and its length. The tokenizer writes a NUL after
  each token, so that the text ends there; the line is given without its final NUL. The NULs are not
  written to the buffer of the model, in which the line is not read again.
\<close>

type_synonym token = "u8 list option \<times> nat"

fun tok_loop :: "nat \<Rightarrow> u8 list \<Rightarrow> u8 list \<Rightarrow> token list \<Rightarrow> token list" where
  "tok_loop max_tokens cur rest toks =
     (if length toks < max_tokens - 1
      then case rest of
             [] \<Rightarrow> (if cur \<noteq> [] then toks @ [(Some cur, length cur)] else toks) @ [(None, 0)]
           | c # cs \<Rightarrow>
               if c = 32
               then tok_loop max_tokens [] cs (if cur \<noteq> [] then toks @ [(Some cur, length cur)] else toks)
               else tok_loop max_tokens (cur @ [c]) cs toks
      else toks @ [(if rest = [] then None else Some rest, 0)])"

declare tok_loop.simps [simp del]

definition tokenize_command :: "u8 list \<Rightarrow> nat \<Rightarrow> token list" where
  "tokenize_command command max_tokens = tok_loop max_tokens [] command []"

section \<open>Output\<close>

definition conn_set_state :: "conn_states \<Rightarrow> mcs \<Rightarrow> mcs" where
  "conn_set_state st s = s\<lparr>con := (con s)\<lparr>cstate := st\<rparr>\<rparr>"

definition set_wr :: "mcs \<Rightarrow> mcs" where
  "set_wr s = s\<lparr>ev_rd := False, ev_wr := True\<rparr>"

definition set_rd :: "mcs \<Rightarrow> mcs" where
  "set_rd s = s\<lparr>ev_rd := True, ev_wr := False\<rparr>"

definition add_out_string :: "u8 list \<Rightarrow> mcs \<Rightarrow> mcs option" where
  "add_out_string d s = do {
     bl \<leftarrow> Buffers.store (r_ofs (wr_buff s)) d (buff (wr_buff s));
     Some (set_wr (s\<lparr>wr_buff := (wr_buff s)\<lparr>buff := bl, r_ofs := r_ofs (wr_buff s) + length d\<rparr>\<rparr>))
   }"

definition out_string :: "u8 list \<Rightarrow> mcs \<Rightarrow> mcs option" where
  "out_string d s = do {
     bl \<leftarrow> Buffers.store (r_ofs (wr_buff s)) d (buff (wr_buff s));
     bl2 \<leftarrow> Buffers.store (r_ofs (wr_buff s) + length d) [13, 10] bl;
     Some (set_wr (s\<lparr>wr_buff := (wr_buff s)\<lparr>buff := bl2, r_ofs := r_ofs (wr_buff s) + (length d + 2)\<rparr>\<rparr>))
   }"

section \<open>Number parsing\<close>

text \<open>\<open>strtol\<close> and \<open>strtoul\<close> in base 10, on 64 bits: white space, a sign, digits; a value out of range is clamped and
  sets \<open>errno\<close>.\<close>

definition is_space :: "u8 \<Rightarrow> bool" where
  "is_space c \<longleftrightarrow> c = 32 \<or> 9 \<le> c \<and> c \<le> 13"

definition is_digit :: "u8 \<Rightarrow> bool" where
  "is_digit c \<longleftrightarrow> 48 \<le> c \<and> c \<le> 57"

definition digits_val :: "u8 list \<Rightarrow> nat" where
  "digits_val ds = foldl (\<lambda>n d. 10 * n + (unat d - 48)) 0 ds"

definition signed_digits :: "u8 list \<Rightarrow> bool \<times> nat" where
  "signed_digits t =
     (let u = dropWhile is_space t;
          neg = (u \<noteq> [] \<and> hd u = 45);
          v = (if u \<noteq> [] \<and> (hd u = 45 \<or> hd u = 43) then tl u else u)
      in (neg, digits_val (takeWhile is_digit v)))"

definition strtol :: "u8 list \<Rightarrow> int \<Rightarrow> int \<times> int" where
  "strtol t err =
     (let (neg, n) = signed_digits t; i = (if neg then - int n else int n)
      in if i > 2 ^ 63 - 1 then (2 ^ 63 - 1, ERANGE)
         else if i < - (2 ^ 63) then (- (2 ^ 63), ERANGE)
         else (i, err))"

definition strtoul :: "u8 list \<Rightarrow> int \<Rightarrow> int \<times> int" where
  "strtoul t err =
     (let (neg, n) = signed_digits t
      in if int n > 2 ^ 64 - 1 then (2 ^ 64 - 1, ERANGE)
         else ((if neg then - int n else int n) mod 2 ^ 64, err))"

text \<open>The conversion of a 64-bit value to \<open>int\<close>.\<close>

definition to_int32 :: "int \<Rightarrow> int" where
  "to_int32 i = sint (of_int i :: u32)"

section \<open>Commands\<close>

definition process_get_command :: "token list \<Rightarrow> mcs \<Rightarrow> mcs option" where
  "process_get_command tokens s = do {
     let s1 = set_stat (\<lambda>st. st\<lparr>get_cmds := get_cmds st + 1\<rparr>) s;
     key \<leftarrow> fst (tokens ! 1);
     (a, c) \<leftarrow> item_get (take (snd (tokens ! 1)) key) (cch s1);
     let s2 = s1\<lparr>cch := c\<rparr>;
     s3 \<leftarrow> (if a \<noteq> 0 then do {
               it \<leftarrow> mem c a;
               s3 \<leftarrow> add_out_string (bytes ''VALUE '') s2;
               s4 \<leftarrow> add_out_string (ITEM_key it) s3;
               s5 \<leftarrow> add_out_string (ITEM_suffix it @ ITEM_data it) s4;
               let s6 = set_stat (\<lambda>st. st\<lparr>get_hits := get_hits st + 1\<rparr>) s5;
               c' \<leftarrow> do_item_remove a (cch s6);
               Some (s6\<lparr>cch := c'\<rparr>)
             }
             else Some (set_stat (\<lambda>st. st\<lparr>get_misses := get_misses st + 1\<rparr>) s2));
     add_out_string (bytes ''END'' @ [13, 10]) s3
   }"

definition bad_format :: "u8 list" where
  "bad_format = bytes ''CLIENT_ERROR bad command line format''"

definition process_update_command :: "sys \<Rightarrow> token list \<Rightarrow> comm \<Rightarrow> mcs \<Rightarrow> mcs option" where
  "process_update_command os tokens comm s = do {
     let s1 = set_stat (\<lambda>st. st\<lparr>set_cmds := set_cmds st + 1\<rparr>) s;
     if snd (tokens ! 1) > KEY_MAX_LENGTH then out_string bad_format s1
     else do {
       key \<leftarrow> fst (tokens ! 1);
       t2 \<leftarrow> fst (tokens ! 2);
       t3 \<leftarrow> fst (tokens ! 3);
       t4 \<leftarrow> fst (tokens ! 4);
       let nk = snd (tokens ! 1);
       let (f, e1) = strtoul t2 (errno s1);
       let (exptm, e2) = strtol t3 e1;
       let (v, e3) = strtol t4 e2;
       let flags = to_int32 f;
       let vlen = to_int32 v;
       let s2 = s1\<lparr>errno := e3\<rparr>;
       if e3 = ERANGE \<or> (flags = 0 \<or> exptm = 0) \<and> e3 = EINVAL \<or> vlen < 0 then out_string bad_format s2
       else if vlen + 2 > 2 ^ 31 - 1 then None
       else do {
         (a, c) \<leftarrow> do_item_alloc (malloc os (mem (cch s2))) (malloc_retry os (mem (cch s2))) key nk flags 0 (vlen + 2) (cch s2);
         let s3 = s2\<lparr>cch := c\<rparr>;
         if a = 0 then do {
           s4 \<leftarrow> out_string (if \<not> item_size_ok nk flags (vlen + 2) then bytes ''SERVER_ERROR object too large for cache''
                            else bytes ''SERVER_ERROR out of memory storing object'') s3;
           let s5 = s4\<lparr>con := (con s4)\<lparr>write_and_go := conn_swallow, sbytes := vlen + 2\<rparr>\<rparr>;
           if comm = NREAD_SET then do {
             (b, c5) \<leftarrow> item_get (take nk key) (cch s5);
             if b \<noteq> 0 then do {
               c6 \<leftarrow> do_item_unlink b c5;
               c7 \<leftarrow> do_item_remove b c6;
               Some (s5\<lparr>cch := c7\<rparr>)
             }
             else Some (s5\<lparr>cch := c5\<rparr>)
           }
           else Some s5
         }
         else do {
           it \<leftarrow> mem c a;
           Some (s3\<lparr>con := (con s3)\<lparr>citem := a, ritem := unat (nkey it) + 1 + unat (nsuffix it), rlbytes := nbytes it,
                                     item_comm := comm, cstate := conn_nread\<rparr>,
                    ev_rd := True\<rparr>)
         }
       }
     }
   }"

text \<open>The text of \<open>stats\<close>: lines of a name and a number, printed with \<open>%u\<close> or \<open>%ld\<close>. \<open>pid\<close> is the process id.\<close>

definition stat_line :: "string \<Rightarrow> u8 list \<Rightarrow> u8 list" where
  "stat_line name v = bytes ''STAT '' @ bytes name @ [32] @ v @ [13, 10]"

definition stats_text :: "nat \<Rightarrow> stats \<Rightarrow> u8 list" where
  "stats_text pid st =
     (let u = (\<lambda>x :: u32. digits (unat x)); ld = (\<lambda>x :: u64. fmt_d (sint x))
      in stat_line ''pid'' (digits pid) @ stat_line ''pointer_size'' (digits 64) @
         stat_line ''curr_items'' (u (curr_items st)) @ stat_line ''total_items'' (u (total_items st)) @
         stat_line ''bytes'' (ld (curr_bytes st)) @ stat_line ''curr_connections'' (u (curr_conns st - 1)) @
         stat_line ''total_connections'' (u (total_conns st)) @ stat_line ''cmd_get'' (ld (get_cmds st)) @
         stat_line ''cmd_set'' (ld (set_cmds st)) @ stat_line ''get_hits'' (ld (get_hits st)) @
         stat_line ''get_misses'' (ld (get_misses st)) @ stat_line ''evictions'' (ld (evictions st)) @
         stat_line ''bytes_read'' (ld (bytes_read st)) @ stat_line ''bytes_written'' (ld (bytes_written st)) @ bytes ''END'')"

definition update_comm :: "u8 list \<Rightarrow> comm option" where
  "update_comm t =
     (if t = bytes ''add'' then Some NREAD_ADD
      else if t = bytes ''set'' then Some NREAD_SET
      else if t = bytes ''replace'' then Some NREAD_REPLACE
      else if t = bytes ''prepend'' then Some NREAD_PREPEND
      else if t = bytes ''append'' then Some NREAD_APPEND
      else None)"

definition process_command :: "sys \<Rightarrow> nat \<Rightarrow> u8 list \<Rightarrow> mcs \<Rightarrow> mcs option" where
  "process_command os pid command s =
     (let tokens = tokenize_command command MAX_TOKENS;
          n = length tokens;
          t0 = (case fst (tokens ! 0) of None \<Rightarrow> [] | Some t \<Rightarrow> t)
      in if n \<ge> 3 \<and> (t0 = bytes ''get'' \<or> t0 = bytes ''bget'') then process_get_command tokens s
         else if (n = 6 \<or> n = 7) \<and> update_comm t0 \<noteq> None then process_update_command os tokens (the (update_comm t0)) s
         else if n = 2 \<and> t0 = bytes ''version'' then out_string (bytes ''VERSION /-_-'' @ [92]) s
         else if n = 2 \<and> t0 = bytes ''stats'' then out_string (stats_text pid (stat (cch s))) s
         else out_string (bytes ''ERROR'') s)"

section \<open>Storing\<close>

text \<open>Writing into the block of an item.\<close>

definition write_item :: "nat \<Rightarrow> nat \<Rightarrow> u8 list \<Rightarrow> cache \<Rightarrow> cache option" where
  "write_item a ofs d c = do {
     it \<leftarrow> mem c a;
     e \<leftarrow> Buffers.store ofs d (end_bytes it);
     Some (c\<lparr>mem := (mem c)(a \<mapsto> it\<lparr>end_bytes := e\<rparr>)\<rparr>)
   }"

definition data_ofs :: "item \<Rightarrow> nat" where
  "data_ofs it = unat (nkey it) + 1 + unat (nsuffix it)"

text \<open>The last part of \<open>do_store_item\<close>: \<open>it\<close> is linked in the place of the old item and the references taken are dropped.
  \<open>new_a\<close> is NULL for the commands that allocate nothing.\<close>

definition store_finish :: "bool \<Rightarrow> key \<Rightarrow> nat \<Rightarrow> nat \<Rightarrow> bool \<Rightarrow> nat \<Rightarrow> cache \<Rightarrow> (int \<times> cache) option" where
  "store_finish calloc_ok key a old_a delete_locked new_a c = do {
     (old_a, c1) \<leftarrow> (if delete_locked then do_item_get_nocheck key c else Some (old_a, c));
     c2 \<leftarrow> (if old_a \<noteq> 0 then do_item_replace calloc_ok old_a a c1 else do_item_link calloc_ok a c1);
     c3 \<leftarrow> (if old_a \<noteq> 0 then do_item_remove old_a c2 else Some c2);
     c4 \<leftarrow> (if new_a \<noteq> 0 then do_item_remove new_a c3 else Some c3);
     Some (1, c4)
   }"

definition do_store_item :: "sys \<Rightarrow> nat \<Rightarrow> comm \<Rightarrow> cache \<Rightarrow> (int \<times> cache) option" where
  "do_store_item os a comm c0 = do {
     it \<leftarrow> mem c0 a;
     let key = ITEM_key it;
     (old_a, delete_locked, c) \<leftarrow> do_item_get_notedeleted key c0;
     let release = (\<lambda>c. if old_a \<noteq> 0 then do_item_remove old_a c else Some c);
     if old_a \<noteq> 0 \<and> comm = NREAD_ADD then do {
       c1 \<leftarrow> do_item_update old_a c;
       c2 \<leftarrow> release c1;
       Some (0, c2)
     }
     else if old_a = 0 \<and> (comm = NREAD_REPLACE \<or> comm = NREAD_APPEND \<or> comm = NREAD_PREPEND) then Some (0, c)
     else if delete_locked \<and> (comm = NREAD_REPLACE \<or> comm = NREAD_ADD \<or> comm = NREAD_APPEND \<or> comm = NREAD_PREPEND)
     then map_option (Pair 0) (release c)
     else if comm = NREAD_CAS then do {
       (old_b, c1) \<leftarrow> (if delete_locked then do_item_get_nocheck key c else Some (old_a, c));
       if old_b = 0 then Some (3, c1)
       else do {
         old_it \<leftarrow> mem c1 old_b;
         it1 \<leftarrow> mem c1 a;
         (r, c2) \<leftarrow> (if cas_id it1 = cas_id old_it then map_option (Pair 1) (do_item_replace (grow_ok os) old_b a c1)
                     else Some (2, c1));
         c3 \<leftarrow> do_item_remove old_b c2;
         Some (r, c3)
       }
     }
     else if comm = NREAD_APPEND \<or> comm = NREAD_PREPEND then do {
       old_it \<leftarrow> mem c old_a;
       let flags = to_int32 (fst (strtol (ITEM_suffix old_it) 0));
       let sz = nbytes it + nbytes old_it - 2;
       (new_a, c1) \<leftarrow> do_item_alloc (malloc os (mem c)) (malloc_retry os (mem c)) key (unat (nkey it)) flags (exptime old_it) sz c;
       if new_a = 0 then map_option (Pair 0) (release c1)
       else do {
         new_it \<leftarrow> mem c1 new_a;
         let d = data_ofs new_it;
         c2 \<leftarrow> (if comm = NREAD_APPEND then do {
                  c2 \<leftarrow> write_item new_a d (ITEM_data old_it) c1;
                  write_item new_a (d + nat (nbytes old_it) - 2) (ITEM_data it) c2
                }
                else do {
                  c2 \<leftarrow> write_item new_a d (ITEM_data it) c1;
                  write_item new_a (d + nat (nbytes it) - 2) (ITEM_data old_it) c2
                });
         store_finish (grow_ok os) key new_a old_a delete_locked new_a c2
       }
     }
     else store_finish (grow_ok os) key a old_a delete_locked 0 c
   }"

section \<open>Reading\<close>

definition complete_nread :: "sys \<Rightarrow> mcs \<Rightarrow> mcs option" where
  "complete_nread os s = do {
     let a = citem (con s);
     it \<leftarrow> mem (cch s) a;
     s2 \<leftarrow> (if drop (nat (nbytes it) - 2) (ITEM_data it) \<noteq> [13, 10]
            then out_string (bytes ''CLIENT_ERROR bad data chunk'') s
            else do {
              (ret, c) \<leftarrow> do_store_item os a (item_comm (con s)) (cch s);
              out_string (if ret = 1 then bytes ''STORED'' else if ret = 2 then bytes ''EXISTS''
                          else if ret = 3 then bytes ''NOT_FOUND'' else bytes ''NOT_STORED'') (s\<lparr>cch := c\<rparr>)
            });
     c' \<leftarrow> do_item_remove a (cch s2);
     Some (s2\<lparr>cch := c', con := (con s2)\<lparr>citem := 0\<rparr>, ev_rd := False\<rparr>)
   }"

text \<open>The command line is cut at the line feed, or at the carriage return before it; \<open>process_command\<close> gets a C string.\<close>

definition c_string :: "u8 list \<Rightarrow> u8 list" where
  "c_string = takeWhile (\<lambda>b. b \<noteq> 0)"

definition try_read_command :: "sys \<Rightarrow> nat \<Rightarrow> mcs \<Rightarrow> (bool \<times> mcs) option" where
  "try_read_command os pid s =
     (let p = pending (rd_buff s); line = takeWhile (\<lambda>b. b \<noteq> 10) p; el = length line
      in if p = [] \<or> 10 \<notin> set p then Some (False, s)
         else let text0 = (if el > 1 \<and> last line = 13 then butlast line else line);
                  z = curr_ofs (rd_buff s) + length text0;
                  s1 = s\<lparr>rd_buff := (rd_buff s)\<lparr>buff := (buff (rd_buff s))[z := 0]\<rparr>\<rparr>
              in do {
                   s2 \<leftarrow> process_command os pid (c_string text0) s1;
                   Some (True, s2\<lparr>rd_buff := (rd_buff s2)\<lparr>curr_ofs := curr_ofs (rd_buff s) + el + 1\<rparr>\<rparr>)
                 })"

text \<open>\<open>recv\<close> of at most \<open>n\<close> bytes: its return value, the data, the new \<open>errno\<close> and what is left to receive.\<close>

definition recv :: "nat \<Rightarrow> mcs \<Rightarrow> int \<times> u8 list \<times> mcs" where
  "recv n s = (case net s of
     [] \<Rightarrow> (- 1, [], s\<lparr>errno := EAGAIN\<rparr>)
   | Data d # rest \<Rightarrow>
       (int (length (take n d)), take n d, s\<lparr>net := (if drop n d = [] then rest else Data (drop n d) # rest)\<rparr>)
   | Eof # rest \<Rightarrow> (0, [], s)
   | Err e # rest \<Rightarrow> (- 1, [], s\<lparr>errno := e, net := rest\<rparr>))"

definition read_bytes :: "int \<Rightarrow> mcs \<Rightarrow> fault + (int \<times> mcs)" where
  "read_bytes n s =
     (let remain = buffer_remain_write (rd_buff s)
      in if n \<le> 0 \<or> remain < n then Inl Exit
         else let (r, d, s1) = recv (nat n) s
              in if r > 0
                 then case Buffers.store (r_ofs (rd_buff s1)) d (buff (rd_buff s1)) of
                        None \<Rightarrow> Inl Crash
                      | Some bl \<Rightarrow> Inr (r, s1\<lparr>rd_buff := (rd_buff s1)\<lparr>buff := bl, r_ofs := r_ofs (rd_buff s1) + nat r\<rparr>\<rparr>)
                 else Inr (r, s1))"

definition add_read :: "int \<Rightarrow> mcs \<Rightarrow> mcs" where
  "add_read r = set_stat (\<lambda>st. st\<lparr>bytes_read := bytes_read st + of_int r\<rparr>)"

text \<open>The loops take fuel: \<open>None\<close> means that the loop did not end within it.\<close>

fun try_read_network :: "nat \<Rightarrow> mcs \<Rightarrow> (fault + mcs) option" where
  "try_read_network 0 s = None"
| "try_read_network (Suc fuel) s =
     (let avail = buffer_remain_write (rd_buff s)
      in case read_bytes avail s of
           Inl f \<Rightarrow> Some (Inl f)
         | Inr (res, s1) \<Rightarrow>
             if res > 0
             then if res = avail then try_read_network fuel (add_read res s1) else Some (Inr (add_read res s1))
             else if res = - 1 \<and> errno s1 = EAGAIN then Some (Inr s1)
             else Some (Inr (conn_set_state conn_closing s1)))"

definition conn_cleanup :: "mcs \<Rightarrow> mcs option" where
  "conn_cleanup s =
     (if citem (con s) \<noteq> 0
      then do {
        c \<leftarrow> do_item_remove (citem (con s)) (cch s);
        Some (s\<lparr>cch := c, con := (con s)\<lparr>citem := 0\<rparr>\<rparr>)
      }
      else Some s)"

definition conn_close :: "mcs \<Rightarrow> mcs option" where
  "conn_close s = do {
     s1 \<leftarrow> conn_cleanup s;
     Some (set_stat (\<lambda>st. st\<lparr>curr_conns := curr_conns st - 1\<rparr>) (mc_disconnect (s1\<lparr>ev_rd := False, ev_wr := False\<rparr>)))
   }"

text \<open>One round of the loop of \<open>mc_read\<close>: the new state and whether the loop stops.\<close>

definition opt_fault :: "'a option \<Rightarrow> fault + 'a" where
  "opt_fault r = (case r of None \<Rightarrow> Inl Crash | Some x \<Rightarrow> Inr x)"

definition nread_step :: "sys \<Rightarrow> mcs \<Rightarrow> fault + (bool \<times> mcs)" where
  "nread_step os s =
     (let c = con s; avail = buffer_remain_read (rd_buff s)
      in if rlbytes c = 0 then opt_fault (map_option (\<lambda>s'. (ev_wr s', s')) (complete_nread os s))
         else if avail > 0 then
           (let tocopy = (if avail > rlbytes c then rlbytes c else avail);
                d = take (nat tocopy) (pending (rd_buff s))
            in opt_fault (map_option (\<lambda>cc.
                 (False, s\<lparr>cch := cc, con := c\<lparr>ritem := ritem c + nat tocopy, rlbytes := rlbytes c - tocopy\<rparr>,
                           rd_buff := (rd_buff s)\<lparr>curr_ofs := curr_ofs (rd_buff s) + nat tocopy\<rparr>\<rparr>))
                 (write_item (citem c) (ritem c) d (cch s))))
         else case read_bytes (rlbytes c) s of
                Inl f \<Rightarrow> Inl f
              | Inr (res, s1) \<Rightarrow>
                  if res > 0
                  then Inr (False, (add_read res s1)\<lparr>con := c\<lparr>ritem := ritem c + nat res, rlbytes := rlbytes c - res\<rparr>\<rparr>)
                  else Inr (False, conn_set_state conn_closing s1))"

fun mc_read :: "nat \<Rightarrow> sys \<Rightarrow> nat \<Rightarrow> mcs \<Rightarrow> (fault + mcs) option" where
  "mc_read 0 os pid s = None"
| "mc_read (Suc fuel) os pid s =
     (case cstate (con s) of
        conn_read \<Rightarrow>
          (case try_read_command os pid s of
             None \<Rightarrow> Some (Inl Crash)
           | Some (True, s1) \<Rightarrow> if ev_wr s1 then Some (Inr s1) else mc_read fuel os pid s1
           | Some (False, s1) \<Rightarrow>
               (case try_read_network fuel s1 of
                  None \<Rightarrow> None
                | Some (Inl f) \<Rightarrow> Some (Inl f)
                | Some (Inr s2) \<Rightarrow> mc_read fuel os pid s2))
      | conn_nread \<Rightarrow>
          (case nread_step os s of
             Inl f \<Rightarrow> Some (Inl f)
           | Inr (stop, s1) \<Rightarrow> if stop then Some (Inr s1) else mc_read fuel os pid s1)
      | conn_closing \<Rightarrow> Some (opt_fault (conn_close s))
      | _ \<Rightarrow> mc_read fuel os pid s)"

section \<open>Writing\<close>

text \<open>\<open>n\<close> is what \<open>send\<close> returns for the pending output.\<close>

definition mc_write :: "int \<Rightarrow> mcs \<Rightarrow> mcs option" where
  "mc_write n s =
     (if n > 0
      then let s1 = set_stat (\<lambda>st. st\<lparr>bytes_written := bytes_written st + of_int n\<rparr>)
                      (s\<lparr>wr_buff := (wr_buff s)\<lparr>curr_ofs := curr_ofs (wr_buff s) + nat n\<rparr>\<rparr>)
           in if buffer_empty (wr_buff s1)
              then Some ((conn_set_state conn_read (s1\<lparr>rd_buff := buffer_reset (rd_buff s1), wr_buff := buffer_reset (wr_buff s1)\<rparr>))
                           \<lparr>ev_wr := False, ev_rd := True\<rparr>)
              else Some s1
      else conn_close s)"

end
