(* ===== verification/Memcached_Spec.thy ===== *)
theory Memcached_Spec
  imports Memcached
begin

text \<open>
  Theorems on the memcached handler: the tokenizer inverts joining words with spaces; the storage commands implement
  those of an abstract map from keys to values; a value that is stored is returned by \<open>get\<close>; and the faults of the
  connection's read loop.
\<close>

section \<open>Tokens\<close>

fun join_words :: "u8 list list \<Rightarrow> u8 list" where
  "join_words [] = []"
| "join_words [w] = w"
| "join_words (w # v # ws) = w @ 32 # join_words (v # ws)"

definition word_tokens :: "u8 list list \<Rightarrow> token list" where
  "word_tokens ws = map (\<lambda>w. (Some w, length w)) ws"

lemma tok_word:
  "32 \<notin> set w \<Longrightarrow> length toks < n - 1 \<Longrightarrow> tok_loop n cur (w @ rest) toks = tok_loop n (cur @ w) rest toks"
proof (induction w arbitrary: cur)
  case (Cons c w)
  then show ?case by (simp add: tok_loop.simps [of n cur "c # w @ rest"])
qed simp

lemma tok_words:
  "\<forall>w \<in> set ws. w \<noteq> [] \<and> 32 \<notin> set w \<Longrightarrow> length toks + length ws \<le> n - 1 \<Longrightarrow> ws \<noteq> [] \<Longrightarrow>
   tok_loop n [] (join_words ws) toks = toks @ word_tokens ws @ [(None, 0)]"
proof (induction ws arbitrary: toks rule: join_words.induct)
  case (2 w)
  then have "tok_loop n [] (w @ []) toks = tok_loop n ([] @ w) [] toks" by (intro tok_word) auto
  then show ?case using 2 by (simp add: tok_loop.simps [of n w "[]"] word_tokens_def)
next
  case (3 w v ws)
  have "tok_loop n [] (w @ 32 # join_words (v # ws)) toks = tok_loop n ([] @ w) (32 # join_words (v # ws)) toks"
    using "3.prems" by (intro tok_word) auto
  also have "\<dots> = tok_loop n [] (join_words (v # ws)) (toks @ [(Some w, length w)])"
    using "3.prems" by (simp add: tok_loop.simps [of n w "32 # _"])
  also have "\<dots> = (toks @ [(Some w, length w)]) @ word_tokens (v # ws) @ [(None, 0)]"
    using "3.prems" by (intro "3.IH") auto
  finally show ?case by (simp add: word_tokens_def)
qed simp

text \<open>The tokenizer inverts joining: the tokens of words put together with single spaces are these words, followed by
  the end mark, as long as they are fewer than the tokens allowed.\<close>

theorem tokenize_join_words:
  assumes "\<forall>w \<in> set ws. w \<noteq> [] \<and> 32 \<notin> set w" and "length ws < max_tokens" and "1 < max_tokens"
  shows "tokenize_command (join_words ws) max_tokens = word_tokens ws @ [(None, 0)]"
proof (cases "ws = []")
  case True
  then show ?thesis using assms(3) by (simp add: tokenize_command_def tok_loop.simps word_tokens_def)
next
  case False
  then show ?thesis using tok_words [of ws "[]" max_tokens] assms by (auto simp: tokenize_command_def)
qed

theorem tokenize_join_words_witness:
  "tokenize_command (bytes ''get abc'') MAX_TOKENS = [(Some (bytes ''get''), 3), (Some (bytes ''abc''), 3), (None, 0)]"
  using tokenize_join_words [of "[bytes ''get'', bytes ''abc'']" MAX_TOKENS]
  by (simp add: MAX_TOKENS_def bytes_def word_tokens_def)

section \<open>Storing\<close>

text \<open>In this program nothing expires: \<open>settings.oldest_live\<close> is never set and items are allocated without a date.\<close>

definition mc_ok :: "cache \<Rightarrow> (key \<rightharpoonup> nat) \<Rightarrow> nat list \<Rightarrow> bool" where
  "mc_ok c M xs \<longleftrightarrow> cache_ok c M xs \<and> oldest_live c = 0 \<and> (\<forall>a it. mem c a = Some it \<longrightarrow> exptime it = 0)"

text \<open>The value of a key: the suffix line, which holds the client's flags and the length, and the data.\<close>

type_synonym entry = "u8 list \<times> u8 list"

definition entry_of :: "item \<Rightarrow> entry" where
  "entry_of it = (ITEM_suffix it, ITEM_data it)"

definition value_at :: "cache \<Rightarrow> (key \<rightharpoonup> nat) \<Rightarrow> key \<Rightarrow> entry option" where
  "value_at c M k = map_option (\<lambda>a. entry_of (the (mem c a))) (M k)"

text \<open>What an item holds, apart from links, flags, references and dates.\<close>

definition content :: "item \<Rightarrow> u8 \<times> u8 \<times> int \<times> u32 \<times> u8 list" where
  "content it = (nkey it, nsuffix it, nbytes it, exptime it, end_bytes it)"

lemma content_eq:
  assumes "content it' = content it"
  shows "ITEM_key it' = ITEM_key it" "ITEM_data it' = ITEM_data it" "ITEM_suffix it' = ITEM_suffix it"
    "exptime it' = exptime it" "nbytes it' = nbytes it" "item_ok it' = item_ok it"
  using assms by (simp_all add: content_def ITEM_key_def ITEM_data_def ITEM_suffix_def item_ok_def)

lemma content_core [simp]: "content (core it) = content it"
  by (simp add: content_def)

lemma content_upd [simp]:
  "content (it\<lparr>it_flags := f\<rparr>) = content it" "content (it\<lparr>it_time := t\<rparr>) = content it"
  "content (it\<lparr>cas_id := n\<rparr>) = content it" "content (it\<lparr>refcount := r\<rparr>) = content it"
  by (simp_all add: content_def)

definition content_at :: "store \<Rightarrow> nat \<Rightarrow> (u8 \<times> u8 \<times> int \<times> u32 \<times> u8 list) option" where
  "content_at h a = map_option content (h a)"

lemma content_at_Some: "h a = Some it \<Longrightarrow> content_at h a = Some (content it)"
  by (simp add: content_at_def)

lemma content_at_core: "content_at h a = map_option content (core_at h a)"
  by (simp add: content_at_def core_at_def option.map_comp comp_def)

lemma not_expired: "mc_ok c M xs \<Longrightarrow> mem c a = Some it \<Longrightarrow> \<not> expired c it"
  by (auto simp: mc_ok_def expired_def)

definition shrinks :: "store \<Rightarrow> store \<Rightarrow> bool" where
  "shrinks h' h \<longleftrightarrow> (\<forall>x. content_at h' x = None \<or> content_at h' x = content_at h x)"

lemma shrinks_trans: "shrinks h'' h' \<Longrightarrow> shrinks h' h \<Longrightarrow> shrinks h'' h"
  by (metis shrinks_def)

lemma shrinks_same: "(\<And>x. content_at h' x = content_at h x) \<Longrightarrow> shrinks h' h"
  by (simp add: shrinks_def)

lemma remove_content:
  assumes "cache_ok c M xs" and "mem c a = Some it"
  shows "\<exists>c'. do_item_remove a c = Some c' \<and> cache_ok c' M xs \<and> env c' = env c \<and>
    (\<forall>x. x \<noteq> a \<or> a \<in> ran M \<or> refcount it \<noteq> 1 \<longrightarrow> content_at (mem c') x = content_at (mem c) x) \<and>
    shrinks (mem c') (mem c)"
proof -
  from do_item_remove_ok [OF assms] obtain c' where c': "do_item_remove a c = Some c'" "cache_ok c' M xs" "env c' = env c"
    "core_at (mem c') = (core_at (mem c))(a :=
      (if a \<in> ran M \<or> refcount it \<noteq> 1
       then Some ((core it)\<lparr>refcount := if refcount it = 0 then 0 else refcount it - 1\<rparr>) else None))" by blast
  moreover have "content_at (mem c') x = content_at (mem c) x" if "x \<noteq> a \<or> a \<in> ran M \<or> refcount it \<noteq> 1" for x
    using that assms(2) c'(4) by (auto simp: content_at_core core_at_Some)
  moreover have "shrinks (mem c') (mem c)"
    using assms(2) c'(4) by (auto simp: shrinks_def content_at_core core_at_Some)
  ultimately show ?thesis by blast
qed

lemma link_content:
  assumes "cache_ok c M xs" and "mem c a = Some it" "a \<notin> ran M" "M (ITEM_key it) = None"
    and "nbytes it < 1024 * 1024" "card (dom M) < 3 * 2 ^ 30"
  shows "\<exists>c' it'. do_item_link g a c = Some c' \<and> cache_ok c' (M(ITEM_key it \<mapsto> a)) (a # xs) \<and> env c' = env c \<and>
    (\<forall>x. content_at (mem c') x = content_at (mem c) x) \<and> mem c' a = Some it' \<and> refcount it' = refcount it"
proof -
  from do_item_link_ok [OF assms, of g] obtain c1 where l: "do_item_link g a c = Some c1"
    "cache_ok c1 (M(ITEM_key it \<mapsto> a)) (a # xs)" "env c1 = env c"
    "core_at (mem c1) = (core_at (mem c))(a \<mapsto> (core it)\<lparr>it_flags := ITEM_LINKED, it_time := now_ms c, cas_id := last_cas c + 1\<rparr>)"
    by blast
  have "core_at (mem c1) a = Some ((core it)\<lparr>it_flags := ITEM_LINKED, it_time := now_ms c, cas_id := last_cas c + 1\<rparr>)"
    using l(4) by simp
  then obtain it' where it': "mem c1 a = Some it'"
    "core it' = (core it)\<lparr>it_flags := ITEM_LINKED, it_time := now_ms c, cas_id := last_cas c + 1\<rparr>"
    by (auto simp: core_at_def)
  have "content_at (mem c1) x = content_at (mem c) x" for x
    using assms(2) l(4) by (simp add: content_at_core core_at_Some)
  moreover have "refcount it' = refcount it" using arg_cong [OF it'(2), of refcount] by simp
  ultimately show ?thesis using l it' by blast
qed

lemma content_atD:
  assumes "content_at h' a = content_at h a" and "h a = Some it"
  obtains it' where "h' a = Some it'" and "content it' = content it"
  using assms by (auto simp: content_at_def)

text \<open>Dropping the reference of an allocation, if there is one.\<close>

lemma remove_new:
  assumes "cache_ok c M xs" and "a \<in> ran M" and "mem c a = Some it" and n: "n = 0 \<or> n = a"
  shows "\<exists>c'. (if n \<noteq> 0 then do_item_remove n c else Some c) = Some c' \<and> cache_ok c' M xs \<and> env c' = env c \<and>
    (\<forall>x. content_at (mem c') x = content_at (mem c) x)"
  using remove_content [OF assms(1,3)] assms by (cases "n = 0") auto

text \<open>Linking \<open>a\<close> where its key had no item.\<close>

lemma store_finish_new:
  assumes ok: "cache_ok c M xs" and a: "mem c a = Some it" "a \<notin> ran M" "M (ITEM_key it) = None"
    and small: "nbytes it < 1024 * 1024" "card (dom M) < 3 * 2 ^ 30" and n: "n = 0 \<or> n = a"
  shows "\<exists>c'. store_finish g (ITEM_key it) a 0 False n c = Some (1, c') \<and> cache_ok c' (M(ITEM_key it \<mapsto> a)) (a # xs) \<and>
    env c' = env c \<and> (\<forall>x. content_at (mem c') x = content_at (mem c) x)"
proof -
  from link_content [OF ok a small, of g] obtain c1 it1 where l: "do_item_link g a c = Some c1"
    "cache_ok c1 (M(ITEM_key it \<mapsto> a)) (a # xs)" "env c1 = env c"
    "\<forall>x. content_at (mem c1) x = content_at (mem c) x" "mem c1 a = Some it1" by blast
  have "a \<in> ran (M(ITEM_key it \<mapsto> a))" by (simp add: ran_def) blast
  from remove_new [OF l(2) this l(5) n] obtain c2 where "(if n \<noteq> 0 then do_item_remove n c1 else Some c1) = Some c2"
    "cache_ok c2 (M(ITEM_key it \<mapsto> a)) (a # xs)" "env c2 = env c1" "\<forall>x. content_at (mem c2) x = content_at (mem c1) x" by blast
  then show ?thesis using l by (simp add: store_finish_def)
qed

text \<open>Linking \<open>a\<close> in the place of the item \<open>b\<close>, to which a reference is held.\<close>

lemma store_finish_old:
  assumes ok: "cache_ok c M xs" and k: "M k = Some b" and b: "mem c b = Some ib" "refcount ib \<noteq> 0"
    and a: "mem c a = Some it" "a \<notin> ran M" "ITEM_key it = k"
    and small: "nbytes it < 1024 * 1024" "card (dom M) < 3 * 2 ^ 30" and n: "n = 0 \<or> n = a"
  shows "\<exists>c'. store_finish g k a b False n c = Some (1, c') \<and> cache_ok c' (M(k \<mapsto> a)) (a # remove1 b xs) \<and>
    env c' = env c \<and> (\<forall>x. x \<noteq> b \<longrightarrow> content_at (mem c') x = content_at (mem c) x) \<and> shrinks (mem c') (mem c)"
proof -
  have ba: "b \<noteq> a" "b \<noteq> 0" using k a(2) assoc_rel_item [OF cache_okD(1) [OF ok] k] by (auto simp: ran_def)
  from do_item_unlink_ok [OF ok k b(1)] b(2) obtain c1 where u: "do_item_unlink b c = Some c1"
    "cache_ok c1 (M(k := None)) (remove1 b xs)" "env c1 = env c"
    "core_at (mem c1) = (core_at (mem c))(b \<mapsto> (core ib)\<lparr>it_flags := 0\<rparr>)" by auto
  have u5: "content_at (mem c1) x = content_at (mem c) x" for x using u(4) b(1) by (simp add: content_at_core core_at_Some)
  obtain it1 where it1: "mem c1 a = Some it1" "content it1 = content it" using content_atD [OF u5 a(1)] .
  have ran1: "ran (M(k := None)) = ran M - {b}" using ran_delete [OF cache_okD(1) [OF ok] k] .
  have card1: "card (dom (M(k := None))) < 3 * 2 ^ 30"
    using small(2) cache_okD(1) [OF ok] by (simp add: assoc_rel_def) (meson card_Diff1_le le_less_trans)
  from link_content [OF u(2) it1(1) _ _ _ card1, of g] content_eq [OF it1(2)] a ran1 small(1)
  obtain c2 it2 where l: "do_item_link g a c1 = Some c2" "cache_ok c2 (M(k \<mapsto> a)) (a # remove1 b xs)" "env c2 = env c1"
    "\<forall>x. content_at (mem c2) x = content_at (mem c1) x" "mem c2 a = Some it2" by auto
  have b2: "content_at (mem c2) b = content_at (mem c) b" using l(4) u5 by simp
  obtain ib2 where ib2: "mem c2 b = Some ib2" using content_atD [OF b2 b(1)] by blast
  from remove_content [OF l(2) ib2] obtain c3 where r: "do_item_remove b c2 = Some c3" "cache_ok c3 (M(k \<mapsto> a)) (a # remove1 b xs)"
    "env c3 = env c2" "\<And>x. x \<noteq> b \<Longrightarrow> content_at (mem c3) x = content_at (mem c2) x" "shrinks (mem c3) (mem c2)" by blast
  obtain it3 where it3: "mem c3 a = Some it3" using content_atD [OF r(4) l(5)] ba by metis
  have "a \<in> ran (M(k \<mapsto> a))" by (simp add: ran_def) blast
  from remove_new [OF r(2) this it3 n] obtain c4 where f: "(if n \<noteq> 0 then do_item_remove n c3 else Some c3) = Some c4"
    "cache_ok c4 (M(k \<mapsto> a)) (a # remove1 b xs)" "env c4 = env c3" "\<forall>x. content_at (mem c4) x = content_at (mem c3) x" by blast
  have "store_finish g k a b False n c = Some (1, c4)"
    using u(1) l(1) r(1) f(1) ba by (simp add: store_finish_def do_item_replace_def)
  moreover have "shrinks (mem c4) (mem c)"
    using f(4) r(5) l(4) u5 by (auto simp: shrinks_def)
  moreover have "\<forall>x. x \<noteq> b \<longrightarrow> content_at (mem c4) x = content_at (mem c) x" using f(4) r(4) l(4) u5 by simp
  ultimately show ?thesis using f(2,3) r(3) l(3) u(3) by auto
qed

text \<open>Writing into the data of an item.\<close>

lemma write_data:
  assumes ok: "item_ok it" and fit: "ofs + length d \<le> nat (nbytes it)"
  obtains e where "Buffers.store (data_ofs it + ofs) d (end_bytes it) = Some e" and "item_ok (it\<lparr>end_bytes := e\<rparr>)"
    and "ITEM_key (it\<lparr>end_bytes := e\<rparr>) = ITEM_key it" and "ITEM_suffix (it\<lparr>end_bytes := e\<rparr>) = ITEM_suffix it"
    and "ITEM_data (it\<lparr>end_bytes := e\<rparr>) = take ofs (ITEM_data it) @ d @ drop (ofs + length d) (ITEM_data it)"
    and "data_ofs (it\<lparr>end_bytes := e\<rparr>) = data_ofs it"
proof -
  let ?p = "data_ofs it" and ?b = "end_bytes it"
  let ?e = "take (?p + ofs) ?b @ d @ drop (?p + ofs + length d) ?b"
  have len: "length ?b = ?p + nat (nbytes it)" using ok by (simp add: item_ok_def data_ofs_def)
  have st: "Buffers.store (?p + ofs) d ?b = Some ?e" using fit len by (simp add: Buffers.store_def)
  have l: "length ?e = length ?b" using fit len by simp
  have data: "ITEM_data x = drop (data_ofs x) (end_bytes x)" if "item_ok x" for x
    using that by (simp add: ITEM_data_def data_ofs_def item_ok_def)
  have okn: "item_ok (it\<lparr>end_bytes := ?e\<rparr>)" using ok l by (simp add: item_ok_def)
  have "unat (nkey it) \<le> ?p + ofs" "unat (nkey it) \<le> length ?b" using len by (simp_all add: data_ofs_def)
  then have key: "ITEM_key (it\<lparr>end_bytes := ?e\<rparr>) = ITEM_key it" by (simp add: ITEM_key_def)
  have pre: "take ?p ?e = take ?p ?b" using len by simp
  have "ITEM_suffix (it\<lparr>end_bytes := e\<rparr>) = drop (unat (nkey it) + 1) (take ?p e)" for e
    by (simp add: ITEM_suffix_def data_ofs_def take_drop add.commute)
  from this [of ?e] this [of ?b] have suf: "ITEM_suffix (it\<lparr>end_bytes := ?e\<rparr>) = ITEM_suffix it" unfolding pre by simp
  have "drop ?p ?e = take ofs (drop ?p ?b) @ d @ drop (ofs + length d) (drop ?p ?b)"
    using len fit by (simp add: drop_take ac_simps)
  then have "ITEM_data (it\<lparr>end_bytes := ?e\<rparr>) = take ofs (ITEM_data it) @ d @ drop (ofs + length d) (ITEM_data it)"
    using data [OF okn] data [OF ok] by (simp add: data_ofs_def)
  then show thesis using that [OF st okn key suf] by (simp add: data_ofs_def)
qed

text \<open>Two values written one after the other, the second over the last two bytes of the first.\<close>

lemma write_two:
  assumes n: "mem c a = Some it" "item_ok it" "nat (nbytes it) + 2 = length d1 + length d2" "2 \<le> length d1" "2 \<le> length d2"
  obtains e where "(do { c1 \<leftarrow> write_item a (data_ofs it) d1 c; write_item a (data_ofs it + length d1 - 2) d2 c1 }) =
      Some (c\<lparr>mem := (mem c)(a \<mapsto> it\<lparr>end_bytes := e\<rparr>)\<rparr>)"
    and "item_ok (it\<lparr>end_bytes := e\<rparr>)" and "ITEM_key (it\<lparr>end_bytes := e\<rparr>) = ITEM_key it"
    and "ITEM_data (it\<lparr>end_bytes := e\<rparr>) = take (length d1 - 2) d1 @ d2"
    and "ITEM_suffix (it\<lparr>end_bytes := e\<rparr>) = ITEM_suffix it"
proof -
  have "0 + length d1 \<le> nat (nbytes it)" using n by simp
  from write_data [OF n(2) this] obtain e1 where e1: "Buffers.store (data_ofs it) d1 (end_bytes it) = Some e1"
    "item_ok (it\<lparr>end_bytes := e1\<rparr>)" "ITEM_key (it\<lparr>end_bytes := e1\<rparr>) = ITEM_key it" "ITEM_suffix (it\<lparr>end_bytes := e1\<rparr>) = ITEM_suffix it"
    "ITEM_data (it\<lparr>end_bytes := e1\<rparr>) = d1 @ drop (length d1) (ITEM_data it)" by auto
  let ?it1 = "it\<lparr>end_bytes := e1\<rparr>"
  have "length d1 - 2 + length d2 \<le> nat (nbytes ?it1)" using n by simp
  from write_data [OF e1(2) this] obtain e2 where e2: "Buffers.store (data_ofs ?it1 + (length d1 - 2)) d2 (end_bytes ?it1) = Some e2"
    "item_ok (?it1\<lparr>end_bytes := e2\<rparr>)" "ITEM_key (?it1\<lparr>end_bytes := e2\<rparr>) = ITEM_key ?it1"
    "ITEM_suffix (?it1\<lparr>end_bytes := e2\<rparr>) = ITEM_suffix ?it1"
    "ITEM_data (?it1\<lparr>end_bytes := e2\<rparr>) =
       take (length d1 - 2) (ITEM_data ?it1) @ d2 @ drop (length d1 - 2 + length d2) (ITEM_data ?it1)" by blast
  have "length (ITEM_data it) = nat (nbytes it)" using n(2) by (simp add: item_ok_def ITEM_data_def)
  then have "ITEM_data (it\<lparr>end_bytes := e2\<rparr>) = take (length d1 - 2) d1 @ d2" using e2(5) e1(5) n by simp
  moreover have "data_ofs ?it1 + (length d1 - 2) = data_ofs it + length d1 - 2" using n(4) by (simp add: data_ofs_def)
  ultimately show thesis using that [of e2] e1 e2 n(1) by (simp add: write_item_def)
qed

text \<open>The abstract storage commands on the value of a key, with or without a value before.\<close>

definition joined :: "u8 list \<Rightarrow> u8 list \<Rightarrow> u8 list \<Rightarrow> entry" where
  "joined suf d1 d2 = (suffix_text (to_int32 (fst (strtol suf 0))) (int (length d1) + int (length d2) - 2), take (length d1 - 2) d1 @ d2)"

fun store_value :: "comm \<Rightarrow> entry option \<Rightarrow> entry \<Rightarrow> entry option" where
  "store_value NREAD_ADD v e = (if v = None then Some e else v)"
| "store_value NREAD_REPLACE v e = (if v = None then None else Some e)"
| "store_value NREAD_APPEND v e = map_option (\<lambda>(suf, w). joined suf w (snd e)) v"
| "store_value NREAD_PREPEND v e = map_option (\<lambda>(suf, w). joined suf (snd e) w) v"
| "store_value _ v e = Some e"

fun store_ret :: "comm \<Rightarrow> entry option \<Rightarrow> int" where
  "store_ret NREAD_ADD v = (if v = None then 1 else 0)"
| "store_ret NREAD_SET v = 1"
| "store_ret _ v = (if v = None then 0 else 1)"

definition malloc_fresh :: "sys \<Rightarrow> nat set \<Rightarrow> bool" where
  "malloc_fresh os A \<longleftrightarrow> (\<forall>h sz. dom h = A \<longrightarrow>
     fst (malloc os h sz) \<noteq> 0 \<and> fst (malloc os h sz) \<notin> A \<and> length (end_bytes (snd (malloc os h sz))) = sz - sizeof_item)"

lemma mc_okD:
  assumes "mc_ok c M xs"
  shows "cache_ok c M xs" "oldest_live c = 0" "mem c a = Some it \<Longrightarrow> exptime it = 0"
  using assms by (auto simp: mc_ok_def)

lemma mc_ok_content:
  assumes "mc_ok c M xs" and "cache_ok c' M' xs'" and "env c' = env c"
    and "\<And>a it. mem c' a = Some it \<Longrightarrow> content_at (mem c) a = Some (content it) \<or> exptime it = 0"
  shows "mc_ok c' M' xs'"
proof -
  have "exptime it = 0" if "mem c' a = Some it" for a it
    using assms(4) [OF that]
  proof
    assume "content_at (mem c) a = Some (content it)"
    then obtain it0 where "mem c a = Some it0" "content it = content it0" by (auto simp: content_at_def)
    then show ?thesis using mc_okD(3) [OF assms(1)] content_eq(4) [of it it0] by simp
  qed
  then show ?thesis using assms(1-3) by (auto simp: mc_ok_def env_def)
qed

lemma data_content:
  assumes "content_at h' x = content_at h x" and "h x = Some it"
  shows "entry_of (the (h' x)) = entry_of it"
  using content_atD [OF assms] content_eq(2,3) by (metis entry_of_def option.sel)

lemma value_link:
  assumes ok: "cache_ok c M xs"
    and same: "\<And>k' x. k' \<noteq> k \<Longrightarrow> M k' = Some x \<Longrightarrow> content_at (mem c') x = content_at (mem c) x"
    and a: "content_at (mem c') a = Some (content it)"
  shows "value_at c' (M(k \<mapsto> a)) = (value_at c M)(k \<mapsto> entry_of it)"
proof
  fix k'
  show "value_at c' (M(k \<mapsto> a)) k' = ((value_at c M)(k \<mapsto> entry_of it)) k'"
  proof (cases "k' = k")
    case True
    from a obtain it' where "mem c' a = Some it'" "content it' = content it" by (auto simp: content_at_def)
    then show ?thesis using True content_eq(2,3) [of it' it] by (simp add: value_at_def entry_of_def)
  next
    case False
    show ?thesis
    proof (cases "M k'")
      case (Some x)
      then obtain ix where "mem c x = Some ix" using assoc_rel_item [OF cache_okD(1) [OF ok]] by metis
      then show ?thesis using data_content [OF same [OF False Some]] Some False by (simp add: value_at_def)
    qed (simp add: value_at_def False)
  qed
qed

lemma value_same:
  assumes ok: "cache_ok c M xs" and same: "\<And>x. x \<in> ran M \<Longrightarrow> content_at (mem c') x = content_at (mem c) x"
  shows "value_at c' M = value_at c M"
proof
  fix k
  show "value_at c' M k = value_at c M k"
  proof (cases "M k")
    case (Some x)
    then obtain ix where "mem c x = Some ix" using assoc_rel_item [OF cache_okD(1) [OF ok]] by metis
    moreover have "content_at (mem c') x = content_at (mem c) x" using same Some by (auto intro: ranI)
    ultimately show ?thesis using data_content Some by (simp add: value_at_def)
  qed (simp add: value_at_def)
qed

text \<open>The outcome of a storage command: \<open>v\<close> is the new value of the key, all other values are unchanged, and the item
  that was read is still there for its owner to release.\<close>

definition outcome :: "cache \<Rightarrow> (key \<rightharpoonup> nat) \<Rightarrow> key \<Rightarrow> entry option \<Rightarrow> nat \<Rightarrow> item \<Rightarrow> cache \<Rightarrow> bool" where
  "outcome c M k v a it c' \<longleftrightarrow> (\<exists>M' xs'. mc_ok c' M' xs' \<and> value_at c' M' = (value_at c M)(k := v) \<and>
     content_at (mem c') a = Some (content it))"

text \<open>Taking a reference to the item of the key.\<close>

lemma get_ref:
  assumes ok: "mc_ok c M xs" and k: "M k = Some b" and b: "mem c b = Some ob" and r: "refcount ob \<noteq> - 1"
  obtains c1 where "do_item_get_notedeleted k c = Some (b, False, c1)" and "cache_ok c1 M xs" and "env c1 = env c"
    and "mem c1 b = Some (ob\<lparr>refcount := refcount ob + 1\<rparr>)" and "refcount ob + 1 \<noteq> 0"
    and "\<And>x. content_at (mem c1) x = content_at (mem c) x" and "dom (mem c1) = dom (mem c)"
    and "\<And>x. x \<noteq> b \<Longrightarrow> mem c1 x = mem c x"
proof -
  let ?c = "c\<lparr>mem := (mem c)(b \<mapsto> ob\<lparr>refcount := refcount ob + 1\<rparr>)\<rparr>"
  have "b \<in> ran M" using k by (auto intro: ranI)
  then have "cache_ok ?c M xs" using take_ref_ok [OF mc_okD(1) [OF ok] b] by simp
  moreover have "do_item_get_notedeleted k c = Some (b, False, ?c)"
    using get_hit [OF mc_okD(1) [OF ok] k b not_expired [OF ok b]] .
  moreover have "refcount ob + 1 \<noteq> 0" using r by (simp add: eq_neg_iff_add_eq_0)
  moreover have "content_at (mem ?c) x = content_at (mem c) x" for x using b by (simp add: content_at_def)
  moreover have "dom (mem ?c) = dom (mem c)" "env ?c = env c" using b by (auto simp: env_def)
  ultimately show thesis using that [of ?c] by simp
qed

lemma store_new:
  assumes ok: "mc_ok c M xs" and a: "mem c a = Some it" "a \<notin> ran M" and k: "M (ITEM_key it) = None"
    and small: "nbytes it < 1024 * 1024" "card (dom M) < 3 * 2 ^ 30"
    and comm: "comm = NREAD_SET \<or> comm = NREAD_ADD"
  shows "\<exists>c'. do_store_item os a comm c = Some (1, c') \<and> outcome c M (ITEM_key it) (Some (entry_of it)) a it c'"
proof -
  from store_finish_new [OF mc_okD(1) [OF ok] a k small, of 0 "grow_ok os"] obtain c' where
    f: "store_finish (grow_ok os) (ITEM_key it) a 0 False 0 c = Some (1, c')"
      "cache_ok c' (M(ITEM_key it \<mapsto> a)) (a # xs)" "env c' = env c" "\<forall>x. content_at (mem c') x = content_at (mem c) x" by blast
  have run: "do_store_item os a comm c = Some (1, c')"
    using comm a(1) f(1) get_miss [OF mc_okD(1) [OF ok] k] by (auto simp: do_store_item_def)
  have ca: "content_at (mem c') a = Some (content it)" using f(4) a(1) by (simp add: content_at_def)
  have "mc_ok c' (M(ITEM_key it \<mapsto> a)) (a # xs)"
    by (rule mc_ok_content [OF ok f(2,3)]) (metis f(4) content_at_Some)
  moreover have "value_at c' (M(ITEM_key it \<mapsto> a)) = (value_at c M)(ITEM_key it \<mapsto> entry_of it)"
    using f(4) ca by (intro value_link [OF mc_okD(1) [OF ok]]) auto
  ultimately show ?thesis using run ca by (auto simp: outcome_def)
qed

text \<open>The new item \<open>n\<close>, the one read or the one put together from two, takes the place of \<open>b\<close>.\<close>

lemma outcome_over:
  assumes ok: "mc_ok c M xs" and k: "M k = Some b" and c1: "cache_ok c1 M xs" "env c1 = env c"
    and b: "mem c1 b = Some ob" "refcount ob \<noteq> 0" and n: "mem c1 n = Some ni" "n \<notin> ran M" "ITEM_key ni = k" "exptime ni = 0"
    and same: "\<And>x. x \<noteq> n \<Longrightarrow> content_at (mem c1) x = content_at (mem c) x"
    and a: "content_at (mem c1) a = Some (content it)" "a \<notin> ran M"
    and small: "nbytes ni < 1024 * 1024" "card (dom M) < 3 * 2 ^ 30" and z: "z = 0 \<or> z = n"
  shows "\<exists>c'. store_finish g k n b False z c1 = Some (1, c') \<and> outcome c M k (Some (entry_of ni)) a it c'"
proof -
  from store_finish_old [OF c1(1) k b n(1,2,3) small z, of g] obtain c' where
    f: "store_finish g k n b False z c1 = Some (1, c')" "cache_ok c' (M(k \<mapsto> n)) (n # remove1 b xs)" "env c' = env c1"
      "\<And>x. x \<noteq> b \<Longrightarrow> content_at (mem c') x = content_at (mem c1) x" "shrinks (mem c') (mem c1)" by blast
  have b': "b \<in> ran M" "b \<noteq> n" "b \<noteq> a" using k n(2) a(2) by (auto intro: ranI)
  have ci: "content_at (mem c') n = Some (content ni)" using f(4) [of n] n(1) b' by (simp add: content_at_Some)
  have "content_at (mem c) x = Some (content ix) \<or> exptime ix = 0" if x: "mem c' x = Some ix" for x ix
  proof (cases "x = n")
    case True
    then have "content ix = content ni" using ci x by (simp add: content_at_def)
    then show ?thesis using n(4) content_eq(4) [of ix ni] by simp
  next
    case False
    then show ?thesis using f(5) same [OF False] content_at_Some [of "mem c'" x, OF x] by (metis shrinks_def option.distinct(1))
  qed
  then have "mc_ok c' (M(k \<mapsto> n)) (n # remove1 b xs)" using f(3) c1(2) by (intro mc_ok_content [OF ok f(2)]) auto
  moreover have "value_at c' (M(k \<mapsto> n)) = (value_at c M)(k \<mapsto> entry_of ni)"
  proof (rule value_link [OF mc_okD(1) [OF ok] _ ci])
    fix k' x assume x: "k' \<noteq> k" "M k' = Some x"
    then have "x \<noteq> b" "x \<noteq> n" using assoc_rel_inj [OF cache_okD(1) [OF c1(1)] k] n(2) by (auto intro: ranI)
    then show "content_at (mem c') x = content_at (mem c) x" using f(4) same by simp
  qed
  moreover have "content_at (mem c') a = Some (content it)" using f(4) [of a] a(1) b' by simp
  ultimately show ?thesis using f(1) by (auto simp: outcome_def)
qed

lemma store_over:
  assumes ok: "mc_ok c M xs" and a: "mem c a = Some it" "a \<notin> ran M" and k: "M (ITEM_key it) = Some b"
    and b: "mem c b = Some ob" "refcount ob \<noteq> - 1"
    and small: "nbytes it < 1024 * 1024" "card (dom M) < 3 * 2 ^ 30"
    and comm: "comm = NREAD_SET \<or> comm = NREAD_REPLACE"
  shows "\<exists>c'. do_store_item os a comm c = Some (1, c') \<and> outcome c M (ITEM_key it) (Some (entry_of it)) a it c'"
proof -
  from get_ref [OF ok k b] obtain c1 where g: "do_item_get_notedeleted (ITEM_key it) c = Some (b, False, c1)" "cache_ok c1 M xs"
    "env c1 = env c" "mem c1 b = Some (ob\<lparr>refcount := refcount ob + 1\<rparr>)" "refcount ob + 1 \<noteq> 0"
    "\<And>x. content_at (mem c1) x = content_at (mem c) x" "\<And>x. x \<noteq> b \<Longrightarrow> mem c1 x = mem c x" by metis
  have ne: "b \<noteq> a" "b \<noteq> 0" using a k assoc_rel_item [OF cache_okD(1) [OF g(2)] k] by (auto intro: ranI)
  have a1: "mem c1 a = Some it" using g(7) [of a] a ne by simp
  have ca: "content_at (mem c1) a = Some (content it)" using a1 by (simp add: content_at_Some)
  have "\<exists>c'. store_finish (grow_ok os) (ITEM_key it) a b False 0 c1 = Some (1, c') \<and>
      outcome c M (ITEM_key it) (Some (entry_of it)) a it c'"
    using g a1 a mc_okD(3) [OF ok] small
    by (intro outcome_over [OF ok k g(2,3,4) _ a1 a(2) refl _ _ ca a(2) small]) auto
  moreover have "do_store_item os a comm c = store_finish (grow_ok os) (ITEM_key it) a b False 0 c1"
    using comm a(1) g(1) ne by (auto simp: do_store_item_def)
  ultimately show ?thesis by simp
qed

lemma store_add_old:
  assumes ok: "mc_ok c M xs" and a: "mem c a = Some it" "a \<notin> ran M" and k: "M (ITEM_key it) = Some b"
    and b: "mem c b = Some ob" "refcount ob \<noteq> - 1"
  shows "\<exists>c'. do_store_item os a NREAD_ADD c = Some (0, c') \<and> outcome c M (ITEM_key it) (Some (entry_of ob)) a it c'"
proof -
  from get_ref [OF ok k b] obtain c1 where g: "do_item_get_notedeleted (ITEM_key it) c = Some (b, False, c1)" "cache_ok c1 M xs"
    "env c1 = env c" "mem c1 b = Some (ob\<lparr>refcount := refcount ob + 1\<rparr>)" "refcount ob + 1 \<noteq> 0"
    "\<And>x. content_at (mem c1) x = content_at (mem c) x" "\<And>x. x \<noteq> b \<Longrightarrow> mem c1 x = mem c x" by metis
  have r: "b \<in> ran M" using k by (auto intro: ranI)
  have ne: "b \<noteq> 0" using assoc_rel_item [OF cache_okD(1) [OF g(2)] k] by metis
  from do_item_update_ok [OF g(2,4) r] obtain c2 xs2 where u: "do_item_update b c1 = Some c2" "cache_ok c2 M xs2" "env c2 = env c1"
    and u4: "core_at (mem c2) = (if it_time (ob\<lparr>refcount := refcount ob + 1\<rparr>) < now_ms c1 - ITEM_UPDATE_INTERVAL
      then (core_at (mem c1))(b \<mapsto> (core (ob\<lparr>refcount := refcount ob + 1\<rparr>))\<lparr>it_time := now_ms c1\<rparr>) else core_at (mem c1))" by blast
  have u5: "content_at (mem c2) x = content_at (mem c1) x" for x
    using u4 g(4) by (simp add: content_at_core core_at_Some)
  obtain ob2 where ob2: "mem c2 b = Some ob2" using content_atD [OF u5 g(4)] by blast
  from remove_content [OF u(2) ob2] r obtain c3 where c3: "do_item_remove b c2 = Some c3" "cache_ok c3 M xs2" "env c3 = env c2"
    "\<And>x. content_at (mem c3) x = content_at (mem c2) x" by auto
  have same: "content_at (mem c3) x = content_at (mem c) x" for x using c3(4) u5 g(6) by simp
  have run: "do_store_item os a NREAD_ADD c = Some (0, c3)"
    using a(1) g(1) ne u(1) c3(1) by (simp add: do_store_item_def)
  have "mc_ok c3 M xs2"
    using c3(3) u(3) g(3) by (intro mc_ok_content [OF ok c3(2)]) (auto simp: same [symmetric] content_at_Some)
  moreover have "value_at c3 M = value_at c M" using same by (intro value_same [OF mc_okD(1) [OF ok]])
  moreover have "value_at c M (ITEM_key it) = Some (entry_of ob)" using k b by (simp add: value_at_def)
  ultimately show ?thesis using run same a(1) by (auto simp: outcome_def content_at_Some fun_upd_idem)
qed

lemma ITEM_refcount [simp]:
  "ITEM_data (it\<lparr>refcount := r\<rparr>) = ITEM_data it" "ITEM_suffix (it\<lparr>refcount := r\<rparr>) = ITEM_suffix it"
  "ITEM_key (it\<lparr>refcount := r\<rparr>) = ITEM_key it"
  by (simp_all add: ITEM_data_def ITEM_suffix_def ITEM_key_def)

lemma to_int32_range: "\<bar>to_int32 i\<bar> \<le> 2 ^ 31"
  using sint_ge [of "of_int i :: u32"] sint_lt [of "of_int i :: u32"] by (simp add: to_int32_def abs_le_iff)

lemma store_concat:
  assumes ok: "mc_ok c M xs" and a: "mem c a = Some it" "a \<notin> ran M" and k: "M (ITEM_key it) = Some b"
    and b: "mem c b = Some ob" "refcount ob \<noteq> - 1"
    and small: "nbytes it + nbytes ob - 2 < 1024 * 1024" "card (dom M) < 3 * 2 ^ 30" "length (ITEM_key it) \<le> 250"
    and m: "malloc_fresh os (dom (mem c))" and comm: "comm = NREAD_APPEND \<or> comm = NREAD_PREPEND"
  shows "\<exists>c'. do_store_item os a comm c = Some (1, c') \<and>
    outcome c M (ITEM_key it) (store_value comm (Some (entry_of ob)) (entry_of it)) a it c'"
proof -
  from get_ref [OF ok k b] obtain c1 where g: "do_item_get_notedeleted (ITEM_key it) c = Some (b, False, c1)" "cache_ok c1 M xs"
    "env c1 = env c" "mem c1 b = Some (ob\<lparr>refcount := refcount ob + 1\<rparr>)" "refcount ob + 1 \<noteq> 0"
    "\<And>x. content_at (mem c1) x = content_at (mem c) x" "dom (mem c1) = dom (mem c)" "\<And>x. x \<noteq> b \<Longrightarrow> mem c1 x = mem c x" by metis
  have ne: "b \<noteq> a" "b \<noteq> 0" using a k assoc_rel_item [OF cache_okD(1) [OF g(2)] k] by (auto intro: ranI)
  have io: "item_ok it" "item_ok ob" using cache_okD(5) [OF mc_okD(1) [OF ok]] a b by (auto simp: items_ok_def)
  have nk: "unat (nkey it) = length (ITEM_key it)" using item_ok_key [OF io(1)] by (simp add: key_ok_def)
  have len: "length (ITEM_data it) = nat (nbytes it)" "length (ITEM_data ob) = nat (nbytes ob)" "2 \<le> nbytes it" "2 \<le> nbytes ob"
    using io by (simp_all add: item_ok_def ITEM_data_def)
  define flags where "flags = to_int32 (fst (strtol (ITEM_suffix ob) 0))"
  define sz where "sz = nbytes it + nbytes ob - 2"
  let ?k = "ITEM_key it" and ?S = "item_size (length (ITEM_key it)) flags sz"
  obtain n raw where nr: "malloc os (mem c1) ?S = (n, raw)" by fastforce
  have fl: "\<bar>flags\<bar> \<le> 2 ^ 31" "2 \<le> sz" "sz \<le> 2 ^ 31" using to_int32_range small(1) len by (simp_all add: flags_def sz_def)
  have fr: "fresh_chunk c1 ?S (n, raw)" using m g(7) nr unfolding malloc_fresh_def fresh_chunk_def by (metis fst_conv snd_conv)
  then have e: "length (end_bytes raw) = length ?k + 1 + length (suffix_text flags sz) + nat sz" "n \<noteq> 0" "n \<notin> dom (mem c1)"
    by (simp_all add: fresh_chunk_def item_size_def)
  let ?ni = "new_item ?k flags (exptime ob) sz raw"
  note ni = new_item_ok [OF fl small(3) e(1) refl, of "exptime ob"]
  let ?c2 = "c1\<lparr>mem := (mem c1)(n \<mapsto> ?ni)\<rparr>"
  have alloc: "do_item_alloc (malloc os (mem c1)) (malloc_retry os (mem c1)) ?k (length ?k) flags (exptime ob) sz c1 = Some (n, ?c2)"
    using fl small(3) nr fr by (intro do_item_alloc_ok) auto
  define d1 where "d1 = (if comm = NREAD_APPEND then ITEM_data ob else ITEM_data it)"
  define d2 where "d2 = (if comm = NREAD_APPEND then ITEM_data it else ITEM_data ob)"
  have d: "nat (nbytes ?ni) + 2 = length d1 + length d2" "2 \<le> length d1" "2 \<le> length d2"
    using len ni(8) by (auto simp: d1_def d2_def sz_def)
  have m2: "mem ?c2 n = Some ?ni" by simp
  from write_two [OF m2 ni(1) d] obtain en where w: "(do { c3 \<leftarrow> write_item n (data_ofs ?ni) d1 ?c2; write_item n (data_ofs ?ni + length d1 - 2) d2 c3 }) =
      Some (?c2\<lparr>mem := (mem ?c2)(n \<mapsto> ?ni\<lparr>end_bytes := en\<rparr>)\<rparr>)"
    "item_ok (?ni\<lparr>end_bytes := en\<rparr>)" "ITEM_key (?ni\<lparr>end_bytes := en\<rparr>) = ITEM_key ?ni"
    "ITEM_data (?ni\<lparr>end_bytes := en\<rparr>) = take (length d1 - 2) d1 @ d2"
    "ITEM_suffix (?ni\<lparr>end_bytes := en\<rparr>) = ITEM_suffix ?ni" by blast
  let ?n2 = "?ni\<lparr>end_bytes := en\<rparr>"
  let ?c3 = "c1\<lparr>mem := (mem c1)(n \<mapsto> ?n2)\<rparr>"
  have ok3: "cache_ok ?c3 M xs" "n \<notin> ran M" using cache_ok_new [OF g(2) e(2,3), of ?n2] w(2) ni by auto
  have nb: "n \<noteq> b" "n \<noteq> a" using e(3) g(4,7) a(1) by auto
  from w(1) obtain c3 where c3: "write_item n (data_ofs ?ni) d1 ?c2 = Some c3" "write_item n (data_ofs ?ni + length d1 - 2) d2 c3 = Some ?c3"
    by (auto simp: bind_eq_Some_conv)
  have run: "do_store_item os a comm c = store_finish (grow_ok os) ?k n b False n ?c3"
    using comm a(1) g(1,4) ne e(2) alloc c3 len nk
    by (auto simp: do_store_item_def d1_def d2_def flags_def [symmetric] sz_def [symmetric] Let_def)
  have "\<exists>c'. store_finish (grow_ok os) ?k n b False n ?c3 = Some (1, c') \<and> outcome c M ?k (Some (entry_of ?n2)) a it c'"
  proof (rule outcome_over [OF ok k ok3(1)])
    show "mem ?c3 b = Some (ob\<lparr>refcount := refcount ob + 1\<rparr>)" "mem ?c3 n = Some ?n2" using g(4) nb by simp_all
    show "content_at (mem ?c3) x = content_at (mem c) x" if "x \<noteq> n" for x using that g(6) by (simp add: content_at_def)
    show "content_at (mem ?c3) a = Some (content it)" using nb g(6) [of a] a(1) by (simp add: content_at_def)
  qed (use g ok3 w(3) ni a small mc_okD(3) [OF ok b(1)] sz_def in \<open>simp_all add: env_def\<close>)
  moreover have "Some (entry_of ?n2) = store_value comm (Some (entry_of ob)) (entry_of it)"
    using w(4,5) comm ni(3) len by (auto simp: d1_def d2_def joined_def entry_of_def sz_def flags_def add.commute)
  ultimately show ?thesis using run by simp
qed

lemma store_missing:
  assumes ok: "mc_ok c M xs" and a: "mem c a = Some it" and k: "M (ITEM_key it) = None"
    and comm: "comm = NREAD_REPLACE \<or> comm = NREAD_APPEND \<or> comm = NREAD_PREPEND"
  shows "\<exists>c'. do_store_item os a comm c = Some (0, c') \<and> outcome c M (ITEM_key it) None a it c'"
proof -
  have "do_store_item os a comm c = Some (0, c)"
    using comm a get_miss [OF mc_okD(1) [OF ok] k] by (auto simp: do_store_item_def)
  moreover have "value_at c M = (value_at c M)(ITEM_key it := None)" using k by (auto simp: value_at_def)
  ultimately show ?thesis using ok a by (auto simp: outcome_def content_at_Some)
qed

text \<open>The storage commands implement those of a map from keys to values: with an unlinked item of a key, the return
  value and the new value of the key are the ones of the command (\<open>add\<close> keeps the old value, \<open>replace\<close>, \<open>append\<close> and \<open>prepend\<close>
  need one, the two latter join the data without the first part's line end), no other key changes its value, the cache stays
  consistent, and the item read stays allocated. The items involved are below 1 MB, the largest size that
  \<open>do_item_link\<close> allows, the reference count of the old item does not wrap and \<open>malloc\<close> succeeds.\<close>

lemma store_item_refines:
  assumes ok: "mc_ok c M xs" and a: "mem c a = Some it" "a \<notin> ran M" and comm: "comm \<noteq> NREAD_CAS"
    and old: "\<forall>b ob. M (ITEM_key it) = Some b \<and> mem c b = Some ob \<longrightarrow>
      refcount ob \<noteq> - 1 \<and> nbytes it + nbytes ob - 2 < 1024 * 1024"
    and small: "nbytes it < 1024 * 1024" "card (dom M) < 3 * 2 ^ 30" "length (ITEM_key it) \<le> 250"
    and m: "malloc_fresh os (dom (mem c))"
  shows "\<exists>c'. do_store_item os a comm c = Some (store_ret comm (value_at c M (ITEM_key it)), c') \<and>
    outcome c M (ITEM_key it) (store_value comm (value_at c M (ITEM_key it)) (entry_of it)) a it c'"
proof (cases "M (ITEM_key it)")
  case None
  then have v: "value_at c M (ITEM_key it) = None" by (simp add: value_at_def)
  show ?thesis
    using v comm store_new [OF ok a None small(1,2), of comm os] store_missing [OF ok a(1) None, of comm os] by (cases comm) simp_all
next
  case (Some b)
  then obtain ob where b: "mem c b = Some ob" using assoc_rel_item [OF cache_okD(1) [OF mc_okD(1) [OF ok]]] by metis
  then have v: "value_at c M (ITEM_key it) = Some (entry_of ob)" using Some by (simp add: value_at_def)
  have r: "refcount ob \<noteq> - 1" "nbytes it + nbytes ob - 2 < 1024 * 1024" using old Some b by auto
  note over = store_over [OF ok a Some b r(1) small(1,2), of comm os]
    and add = store_add_old [OF ok a Some b r(1), of os]
    and concat = store_concat [OF ok a Some b r small(2,3) m, of comm]
  show ?thesis using v comm over add concat by (cases comm) simp_all
qed

definition os1 :: sys where
  "os1 = \<lparr>malloc = (\<lambda>h sz. (16, item_abc\<lparr>end_bytes := replicate (sz - sizeof_item) 0\<rparr>)), malloc_retry = (\<lambda>h sz. (0, item_abc)),
          grow_ok = True\<rparr>"

lemma cache1_mc_ok: "mc_ok cache1 Map.empty []"
  using cache1_ok by (simp add: mc_ok_def) (simp add: cache1_def item_abc_def)

lemma os1_fresh: "malloc_fresh os1 (dom (mem cache1))"
  by (simp add: malloc_fresh_def os1_def cache1_def)

end
