(* ===== verification/Memcached_Serve.thy ===== *)
theory Memcached_Serve
  imports Memcached_Spec
begin

text \<open>
  What a memcached client sees: the text \<open>get\<close> answers, the answer and the effect of a completed storage command, the two
  put together, and the faults of the connection's read and write loops.
\<close>

section \<open>Output\<close>

text \<open>What was written to the output buffer so far, and the effect of writing \<open>d\<close> to it when there is room.\<close>

definition written :: "mcs \<Rightarrow> u8 list" where
  "written s = take (r_ofs (wr_buff s)) (buff (wr_buff s))"

definition room :: "nat \<Rightarrow> mcs \<Rightarrow> bool" where
  "room n s \<longleftrightarrow> r_ofs (wr_buff s) + n \<le> length (buff (wr_buff s))"

definition emit :: "u8 list \<Rightarrow> mcs \<Rightarrow> mcs" where
  "emit d s = set_wr (s\<lparr>wr_buff := (wr_buff s)
     \<lparr>buff := take (r_ofs (wr_buff s)) (buff (wr_buff s)) @ d @ drop (r_ofs (wr_buff s) + length d) (buff (wr_buff s)),
      r_ofs := r_ofs (wr_buff s) + length d\<rparr>\<rparr>)"

lemma emit_fields [simp]:
  "cch (emit d s) = cch s" "con (emit d s) = con s" "rd_buff (emit d s) = rd_buff s" "ev_wr (emit d s)" "\<not> ev_rd (emit d s)"
  "net (emit d s) = net s" "errno (emit d s) = errno s" "closed (emit d s) = closed s"
  by (simp_all add: emit_def set_wr_def)

lemma written_upd [simp]:
  "written (s\<lparr>cch := c\<rparr>) = written s" "written (s\<lparr>con := n\<rparr>) = written s" "written (s\<lparr>ev_rd := b\<rparr>) = written s"
  "written (set_stat f s) = written s" "room k (s\<lparr>cch := c\<rparr>) = room k s" "room k (set_stat f s) = room k s"
  by (simp_all add: written_def room_def set_stat_def)

lemma written_emit [simp]: "room (length d) s \<Longrightarrow> written (emit d s) = written s @ d"
  by (simp add: written_def room_def emit_def set_wr_def)

lemma room_emit: "room (length d + n) s \<Longrightarrow> room n (emit d s)"
  by (simp add: room_def emit_def set_wr_def)

lemma room_less: "room n s \<Longrightarrow> m \<le> n \<Longrightarrow> room m s"
  by (simp add: room_def)

lemma add_out_string_emit: "room (length d) s \<Longrightarrow> add_out_string d s = Some (emit d s)"
  by (simp add: add_out_string_def room_def emit_def Buffers.store_def)

lemma out_string_emit: "room (length d + 2) s \<Longrightarrow> out_string d s = Some (emit (d @ [13, 10]) s)"
  by (simp add: out_string_def room_def emit_def Buffers.store_def set_wr_def add.assoc)

text \<open>A text that does not fit is written past the end of the block: nothing checks the room.\<close>

lemma add_out_string_overflow: "\<not> room (length d) s \<Longrightarrow> add_out_string d s = None"
  by (simp add: add_out_string_def room_def Buffers.store_def)

lemma add_out_string_if: "add_out_string d s = (if room (length d) s then Some (emit d s) else None)"
  by (simp add: add_out_string_emit add_out_string_overflow)

lemma room_emit_iff: "room (length d) s \<Longrightarrow> room n (emit d s) = room (length d + n) s"
  by (auto simp: room_def emit_def set_wr_def)

lemma emit_emit: "room (length d1 + length d2) s \<Longrightarrow> emit d2 (emit d1 s) = emit (d1 @ d2) s"
  by (simp add: room_def emit_def set_wr_def ac_simps)

text \<open>Two texts written one after the other are one.\<close>

lemma add_out_string_append:
  "Option.bind (add_out_string d1 s) (\<lambda>s'. Option.bind (add_out_string d2 s') f) = Option.bind (add_out_string (d1 @ d2) s) f"
proof -
  have "room (length d1 + length d2) s \<Longrightarrow> room (length d1) s" by (simp add: room_def)
  then show ?thesis by (cases "room (length d1) s") (auto simp: add_out_string_if room_emit_iff emit_emit)
qed

section \<open>The counters of a command\<close>

lemma mc_ok_stat:
  "curr_items st = curr_items (stat c) \<Longrightarrow> curr_bytes st = curr_bytes (stat c) \<Longrightarrow> mc_ok (c\<lparr>stat := st\<rparr>) M xs = mc_ok c M xs"
  by (simp add: mc_ok_def cache_ok_def)

lemma value_at_stat [simp]: "value_at (c\<lparr>stat := st\<rparr>) M = value_at c M"
  by (rule ext) (simp add: value_at_def)

section \<open>The answer of get\<close>

definition get_reply :: "key \<Rightarrow> entry option \<Rightarrow> u8 list" where
  "get_reply k v = (case v of None \<Rightarrow> [] | Some (suf, d) \<Rightarrow> bytes ''VALUE '' @ k @ suf @ d) @ bytes ''END'' @ [13, 10]"

text \<open>Giving up a reference of a linked item, or one of an item that nobody else uses.\<close>

lemma drop_ref:
  assumes ok: "mc_ok c M xs" and a: "mem c a = Some it"
  obtains c' where "do_item_remove a c = Some c'" and "mc_ok c' M xs" and "value_at c' M = value_at c M"
proof -
  from remove_content [OF mc_okD(1) [OF ok] a] obtain c' where c': "do_item_remove a c = Some c'" "cache_ok c' M xs"
    "env c' = env c" "\<And>x. x \<noteq> a \<or> a \<in> ran M \<Longrightarrow> content_at (mem c') x = content_at (mem c) x" "shrinks (mem c') (mem c)" by blast
  have "mc_ok c' M xs"
  proof (rule mc_ok_content [OF ok c'(2,3)])
    fix x ix assume x: "mem c' x = Some ix"
    then show "content_at (mem c) x = Some (content ix) \<or> exptime ix = 0"
      using c'(5) content_at_Some [of "mem c'" x, OF x] by (metis shrinks_def option.distinct(1))
  qed
  moreover have "value_at c' M = value_at c M"
    using c'(4) by (intro value_same [OF mc_okD(1) [OF ok]]) metis
  ultimately show thesis using that c'(1) by blast
qed

lemma lookup_ref:
  assumes ok: "mc_ok c M xs" and k: "M k = Some a" and a: "mem c a = Some it" and r: "refcount it \<noteq> - 1"
  obtains c1 where "item_get k c = Some (a, c1)" and "mc_ok c1 M xs" and "value_at c1 M = value_at c M"
    and "mem c1 a = Some (it\<lparr>refcount := refcount it + 1\<rparr>)"
proof -
  from get_ref [OF ok k a r] obtain c1 where g: "do_item_get_notedeleted k c = Some (a, False, c1)"
    "cache_ok c1 M xs" "env c1 = env c" "mem c1 a = Some (it\<lparr>refcount := refcount it + 1\<rparr>)"
    "\<And>x. content_at (mem c1) x = content_at (mem c) x" by metis
  have "mc_ok c1 M xs" by (rule mc_ok_content [OF ok g(2,3)]) (metis g(5) content_at_Some)
  then show thesis using that [of c1] g value_same [OF mc_okD(1) [OF ok] g(5)] by (simp add: item_get_def)
qed

text \<open>\<open>get\<close> answers the value line with the client's flags and the length, the data and \<open>END\<close>, or \<open>END\<close> alone for a key
  without a value, as long as the answer fits the output buffer; no value changes, the cache stays consistent, and the
  descriptor waits for writing. When it does not fit, the answer is written past the end of the buffer.\<close>

lemma get_command_spec:
  assumes ok: "mc_ok (cch s) M xs" and t: "tokens ! 1 = (Some k, length k)"
    and r: "\<forall>a it. M k = Some a \<and> mem (cch s) a = Some it \<longrightarrow> refcount it \<noteq> - 1"
  shows "(room (length (get_reply k (value_at (cch s) M k))) s \<longrightarrow>
      (\<exists>s'. process_get_command tokens s = Some s' \<and> written s' = written s @ get_reply k (value_at (cch s) M k) \<and>
        mc_ok (cch s') M xs \<and> value_at (cch s') M = value_at (cch s) M \<and> con s' = con s \<and> ev_wr s' \<and> rd_buff s' = rd_buff s)) \<and>
    (\<not> room (length (get_reply k (value_at (cch s) M k))) s \<longrightarrow> process_get_command tokens s = None)"
proof (cases "M k")
  case None
  let ?s1 = "set_stat (\<lambda>st. st\<lparr>get_cmds := get_cmds st + 1\<rparr>) s"
  have ok1: "mc_ok (cch ?s1) M xs" using ok by (simp add: set_stat_def mc_ok_stat)
  have g: "item_get k (cch ?s1) = Some (0, cch ?s1)" using get_miss [OF mc_okD(1) [OF ok1] None] by (simp add: item_get_def)
  have v: "value_at (cch s) M k = None" using None by (simp add: value_at_def)
  let ?s2 = "set_stat (\<lambda>st. st\<lparr>get_misses := get_misses st + 1\<rparr>) ?s1"
  have run: "process_get_command tokens s = add_out_string (bytes ''END'' @ [13, 10]) ?s2"
    using g t by (simp add: process_get_command_def set_stat_def)
  have ok2: "mc_ok (cch ?s2) M xs" using ok by (simp add: set_stat_def mc_ok_stat)
  show ?thesis
    using v run ok2 add_out_string_emit [of "bytes ''END'' @ [13, 10]" ?s2] add_out_string_overflow [of "bytes ''END'' @ [13, 10]" ?s2]
    by (auto simp: get_reply_def) (auto simp: set_stat_def)
next
  case (Some a)
  obtain it where a: "mem (cch s) a = Some it" and k: "ITEM_key it = k" "a \<noteq> 0"
    by (rule assoc_rel_item [OF cache_okD(1) [OF mc_okD(1) [OF ok]] Some])
  let ?s1 = "set_stat (\<lambda>st. st\<lparr>get_cmds := get_cmds st + 1\<rparr>) s"
  have ok1: "mc_ok (cch ?s1) M xs" using ok by (simp add: set_stat_def mc_ok_stat)
  have a1: "mem (cch ?s1) a = Some it" using a by (simp add: set_stat_def)
  from r Some a have "refcount it \<noteq> - 1" by simp
  then obtain c1 where g: "item_get k (cch ?s1) = Some (a, c1)" "mc_ok c1 M xs" "value_at c1 M = value_at (cch ?s1) M"
    "mem c1 a = Some (it\<lparr>refcount := refcount it + 1\<rparr>)"
    by (rule lookup_ref [OF ok1 Some a1])
  have v: "value_at (cch s) M k = Some (ITEM_suffix it, ITEM_data it)" using Some a by (simp add: value_at_def entry_of_def)
  let ?c2 = "c1\<lparr>stat := (stat c1)\<lparr>get_hits := get_hits (stat c1) + 1\<rparr>\<rparr>"
  have "mc_ok ?c2 M xs" using g(2) by (simp add: mc_ok_stat)
  then obtain c' where c': "do_item_remove a ?c2 = Some c'" "mc_ok c' M xs" "value_at c' M = value_at ?c2 M"
    using drop_ref [of ?c2 M xs a] g(4) by auto
  define d where "d = bytes ''VALUE '' @ k @ ITEM_suffix it @ ITEM_data it"
  define s2 where "s2 = ?s1\<lparr>cch := c1\<rparr>"
  let ?e = "bytes ''END'' @ [13, 10]"
  have run: "process_get_command tokens s = Option.bind (add_out_string d s2) (\<lambda>s5.
      Option.bind (do_item_remove a ((cch s5)\<lparr>stat := (stat (cch s5))\<lparr>get_hits := get_hits (stat (cch s5)) + 1\<rparr>\<rparr>))
        (\<lambda>c'. add_out_string ?e (s5\<lparr>cch := c'\<rparr>)))"
    using g(1,4) t k unfolding process_get_command_def
    by (simp add: add_out_string_append d_def s2_def) (simp add: set_stat_def)
  have reply: "get_reply k (value_at (cch s) M k) = d @ ?e" by (simp add: get_reply_def v d_def)
  have s2: "room n s2 = room n s" "written s2 = written s" "cch s2 = c1" "con s2 = con s" "rd_buff s2 = rd_buff s" for n
    by (simp_all add: s2_def) (simp_all add: set_stat_def)
  have v2: "value_at c' M = value_at (cch s) M" using c'(3) g(3) by (simp add: set_stat_def)
  show ?thesis
  proof (cases "room (length d) s")
    case True
    then have "process_get_command tokens s = add_out_string ?e ((emit d s2)\<lparr>cch := c'\<rparr>)"
      using run c'(1) by (simp add: add_out_string_if s2)
    then show ?thesis
      using True c'(2) v2 by (auto simp: reply add_out_string_if room_emit_iff s2)
  next
    case False
    then have "\<not> room (length (d @ ?e)) s" by (simp add: room_def)
    then show ?thesis using False run by (simp add: reply add_out_string_if s2)
  qed
qed

section \<open>The end of a storage command\<close>

text \<open>Releasing the command's item after its data were stored or rejected.\<close>

definition store_reply :: "int \<Rightarrow> u8 list" where
  "store_reply ret = (if ret = 1 then bytes ''STORED'' else bytes ''NOT_STORED'') @ [13, 10]"

lemma complete_nread_bad:
  assumes ok: "mc_ok (cch s) M xs" and a: "citem (con s) = a" "mem (cch s) a = Some it"
    and raw: "drop (nat (nbytes it) - 2) (ITEM_data it) \<noteq> [13, 10]" and rm: "room 32 s"
  shows "\<exists>s'. complete_nread os s = Some s' \<and> mc_ok (cch s') M xs \<and> value_at (cch s') M = value_at (cch s) M \<and>
    con s' = (con s)\<lparr>citem := 0\<rparr> \<and> \<not> ev_rd s' \<and> ev_wr s' \<and> rd_buff s' = rd_buff s \<and>
    written s' = written s @ bytes ''CLIENT_ERROR bad data chunk'' @ [13, 10]"
proof -
  let ?e = "bytes ''CLIENT_ERROR bad data chunk''"
  have rm2: "room (length ?e + 2) s" using rm by (simp add: room_def bytes_def)
  obtain c2 where c2: "do_item_remove a (cch s) = Some c2" "mc_ok c2 M xs" "value_at c2 M = value_at (cch s) M"
    by (rule drop_ref [OF ok a(2)])
  then have "complete_nread os s = Some ((emit (?e @ [13, 10]) s)\<lparr>cch := c2, con := (con s)\<lparr>citem := 0\<rparr>, ev_rd := False\<rparr>)"
    using raw a rm2 by (simp add: complete_nread_def out_string_emit)
  then show ?thesis using c2(2,3) rm2 by auto
qed

text \<open>When the last byte of a value was received, a value that ends in CR LF is stored: the client is told \<open>STORED\<close> or
  \<open>NOT_STORED\<close> as the abstract command decides, the value of the key becomes the command's, no other changes; without the
  CR LF nothing changes and the client is told so. In both cases the connection drops its reference and stops reading.\<close>

lemma complete_nread_spec:
  assumes ok: "mc_ok (cch s) M xs" and a: "citem (con s) = a" "mem (cch s) a = Some it" "a \<notin> ran M"
    and comm: "item_comm (con s) \<noteq> NREAD_CAS"
    and old: "\<forall>b ob. M (ITEM_key it) = Some b \<and> mem (cch s) b = Some ob \<longrightarrow>
      refcount ob \<noteq> - 1 \<and> nbytes it + nbytes ob - 2 < 1024 * 1024"
    and small: "nbytes it < 1024 * 1024" "card (dom M) < 3 * 2 ^ 30" "length (ITEM_key it) \<le> 250"
    and m: "malloc_fresh os (dom (mem (cch s)))" and rm: "room 32 s"
    and v: "v = value_at (cch s) M (ITEM_key it)"
  shows "\<exists>s' M' xs'. complete_nread os s = Some s' \<and> mc_ok (cch s') M' xs' \<and> con s' = (con s)\<lparr>citem := 0\<rparr> \<and> \<not> ev_rd s' \<and> ev_wr s' \<and>
    rd_buff s' = rd_buff s \<and>
    (if drop (nat (nbytes it) - 2) (ITEM_data it) = [13, 10]
     then value_at (cch s') M' = (value_at (cch s) M)(ITEM_key it := store_value (item_comm (con s)) v (entry_of it)) \<and>
       written s' = written s @ store_reply (store_ret (item_comm (con s)) v)
     else value_at (cch s') M' = value_at (cch s) M \<and> written s' = written s @ bytes ''CLIENT_ERROR bad data chunk'' @ [13, 10])"
proof (cases "drop (nat (nbytes it) - 2) (ITEM_data it) = [13, 10]")
  case True
  let ?ret = "store_ret (item_comm (con s)) v"
  let ?e = "if ?ret = 1 then bytes ''STORED'' else bytes ''NOT_STORED''"
  have ret: "?ret \<in> {0, 1}" using comm by (cases "item_comm (con s)") auto
  from store_item_refines [OF ok a(2,3) comm old small m] obtain c1 where
    st: "do_store_item os a (item_comm (con s)) (cch s) = Some (?ret, c1)"
    "outcome (cch s) M (ITEM_key it) (store_value (item_comm (con s)) v (entry_of it)) a it c1" unfolding v by blast
  then obtain M1 xs1 where o: "mc_ok c1 M1 xs1"
    "value_at c1 M1 = (value_at (cch s) M)(ITEM_key it := store_value (item_comm (con s)) v (entry_of it))"
    "content_at (mem c1) a = Some (content it)" by (auto simp: outcome_def)
  from o(3) obtain it1 where it1: "mem c1 a = Some it1" by (auto simp: content_at_def)
  obtain c2 where c2: "do_item_remove a c1 = Some c2" "mc_ok c2 M1 xs1" "value_at c2 M1 = value_at c1 M1"
    by (rule drop_ref [OF o(1) it1])
  have rm2: "room (length ?e + 2) s" using rm by (simp add: room_def bytes_def)
  then have "complete_nread os s = Some ((emit (?e @ [13, 10]) (s\<lparr>cch := c1\<rparr>))\<lparr>cch := c2, con := (con s)\<lparr>citem := 0\<rparr>, ev_rd := False\<rparr>)"
    using True a(1,2) st(1) c2(1) ret by (auto simp: complete_nread_def out_string_emit)
  then show ?thesis using c2(2,3) o(2) True rm2 by (auto simp: store_reply_def)
next
  case False
  then show ?thesis unfolding if_not_P [OF False] using complete_nread_bad [OF ok a(1,2) False rm, of os] by blast
qed

end
