(* ===== verification/Memcached_Numbers.thy ===== *)
theory Memcached_Numbers
  imports Memcached_Spec
begin

text \<open>
  The numbers of the memcached protocol: \<open>strtol\<close> and \<open>strtoul\<close> read back what \<open>%d\<close> prints, so the client's flags survive
  the suffix line of an item, which \<open>append\<close> and \<open>prepend\<close> parse.
\<close>

lemma digit_char: "n < 10 \<Longrightarrow> unat (of_nat n + 48 :: u8) = n + 48"
  by (simp add: unat_word_ariths unat_of_nat)

lemma digits_nonempty [simp]: "digits n \<noteq> []"
  by (simp add: digits.simps)

lemma digits_are_digits: "c \<in> set (digits n) \<Longrightarrow> is_digit c"
proof (induction n rule: digits.induct)
  case (1 n)
  have "is_digit (of_nat m + 48)" if "m < 10" for m
    using digit_char [OF that] that by (simp add: is_digit_def word_le_nat_alt)
  then show ?case using 1 by (auto simp: digits.simps [of n] split: if_splits)
qed

lemma digit_not: "is_digit c \<Longrightarrow> c \<noteq> 45 \<and> c \<noteq> 43 \<and> c \<noteq> 32 \<and> c \<noteq> 10 \<and> c \<noteq> 13 \<and> c \<noteq> 0 \<and> \<not> is_space c"
  by (auto simp: is_digit_def is_space_def word_le_nat_alt)

lemma digits_val_snoc [simp]: "digits_val (ds @ [d]) = 10 * digits_val ds + (unat d - 48)"
  by (simp add: digits_val_def)

lemma digits_val_digits [simp]: "digits_val (digits n) = n"
proof (induction n rule: digits.induct)
  case (1 n)
  show ?case
  proof (cases "n < 10")
    case True
    then show ?thesis using digit_char [of n] by (simp add: digits.simps [of n] digits_val_def)
  next
    case False
    then show ?thesis using 1 digit_char [of "n mod 10"] by (simp add: digits.simps [of n])
  qed
qed

lemma hd_digits: "is_digit (hd (digits n))"
  by (rule digits_are_digits [of _ n]) simp

lemma take_digits: "rest = [] \<or> \<not> is_digit (hd rest) \<Longrightarrow> takeWhile is_digit (digits n @ rest) = digits n"
  using digits_are_digits by (cases rest) (auto simp: takeWhile_append)

lemma signed_digits_fmt:
  assumes "rest = [] \<or> \<not> is_digit (hd rest)" and "\<forall>c \<in> set sp. is_space c"
  shows "signed_digits (sp @ fmt_d i @ rest) = (i < 0, nat \<bar>i\<bar>)"
proof -
  have nd: "hd (digits n @ r) = hd (digits n)" "digits n @ r \<noteq> []" for n r by simp_all
  have d: "hd (digits n) \<noteq> 45" "hd (digits n) \<noteq> 43" "\<not> is_space (hd (digits n))" for n
    using digit_not [OF hd_digits] by blast+
  have "dropWhile is_space (digits n @ rest) = digits n @ rest" for n
    using d(3) [of n] by (cases "digits n") auto
  moreover have "dropWhile is_space (45 # digits n @ rest) = 45 # digits n @ rest" for n
    by (simp add: is_space_def)
  moreover have "dropWhile is_space (sp @ u) = dropWhile is_space u" for u
    using assms(2) by (rule dropWhile_append2 [OF bspec])
  ultimately have "dropWhile is_space (sp @ fmt_d i @ rest) = fmt_d i @ rest" by (simp add: fmt_d_def)
  then show ?thesis
    using d nd take_digits [OF assms(1)] by (simp add: signed_digits_def fmt_d_def Let_def)
qed

lemma strtoul_digits: "int n \<le> 2 ^ 64 - 1 \<Longrightarrow> strtoul (digits n) e = (int n, e)"
  using signed_digits_fmt [of "[]" "[]" "int n"] by (simp add: strtoul_def fmt_d_def)

lemma strtol_digits: "int n \<le> 2 ^ 63 - 1 \<Longrightarrow> strtol (digits n) e = (int n, e)"
  using signed_digits_fmt [of "[]" "[]" "int n"] by (simp add: strtol_def fmt_d_def)

lemma to_int32_id: "- (2 ^ 31) \<le> i \<Longrightarrow> i < 2 ^ 31 \<Longrightarrow> to_int32 i = i"
  by (simp add: to_int32_def signed_of_int signed_take_bit_int_eq_self)

text \<open>C22: \<open>append\<close> and \<open>prepend\<close> recover the client's flags from the suffix line of the stored item: reading back the line
  that \<open>item_make_header\<close> prints gives the flags it was given, for every value of an \<open>int\<close>.\<close>

theorem flags_survive:
  assumes "- (2 ^ 31) \<le> flags" and "flags < 2 ^ 31" and nb: "2 \<le> nb" "nb \<le> 2 ^ 31"
    and h: "item_make_header nk flags nb = (suffix, ns, ntotal)"
  shows "to_int32 (fst (strtol (take (unat ns) suffix) 0)) = flags"
proof -
  have "\<bar>flags\<bar> \<le> 2 ^ 31" "0 \<le> nb" using assms by auto
  then have l: "length (suffix_text flags nb) \<le> 26" using nb by (intro length_suffix_text) auto
  have suf: "suffix_text flags nb = [32] @ fmt_d flags @ 32 # fmt_d (nb - 2) @ [13, 10]" by (simp add: suffix_text_def)
  have "take (unat ns) suffix = suffix_text flags nb"
    using h l unfolding item_make_header_def suffix_text_def [symmetric] Let_def
    by (auto simp: unat_of_nat)
  also have "signed_digits \<dots> = (flags < 0, nat \<bar>flags\<bar>)"
    unfolding suf by (rule signed_digits_fmt) (simp_all add: is_digit_def is_space_def word_le_nat_alt)
  finally show ?thesis using assms(1,2) by (auto simp: strtol_def to_int32_id)
qed

theorem flags_survive_witness:
  "to_int32 (fst (strtol (take 7 (fst (item_make_header 4 (- 7) 5))) 0)) = - 7"
proof -
  have h: "item_make_header 4 (- 7) 5 = ([32, 45, 55, 32, 51, 13, 10, 0], 7, sizeof_item + 16)"
    by (simp add: item_make_header_def fmt_d_def digits.simps sizeof_item_def)
  show ?thesis using flags_survive [OF _ _ _ _ h] by (simp add: h)
qed

end
