(* ===== verification/Memcached_Requests.thy ===== *)
theory Memcached_Requests
  imports Memcached_Serve Memcached_Numbers
begin

text \<open>
  Whole requests, from the bytes in the connection's read buffer to the answer in its write buffer: a storage command with its
  data, and \<open>get\<close>. Both run through \<open>mc_read\<close>, so they cover the tokenizer, the commands, the allocation, the copy of the
  data and the cache.
\<close>

section \<open>A command line in the read buffer\<close>

lemma pending_split:
  assumes "pending b = u @ rest" and "k = length u"
  shows "pending (b\<lparr>curr_ofs := curr_ofs b + k\<rparr>) = rest"
proof -
  have "pending (b\<lparr>curr_ofs := curr_ofs b + k\<rparr>) = drop k (pending b)" by (simp add: pending_def add.commute)
  then show ?thesis using assms by simp
qed

lemma pending_update:
  "z < curr_ofs b + k \<Longrightarrow> pending (b\<lparr>buff := (buff b)[z := v], curr_ofs := curr_ofs b + k\<rparr>) = pending (b\<lparr>curr_ofs := curr_ofs b + k\<rparr>)"
  by (simp add: pending_def take_update_swap)

text \<open>The state in which the command runs, its line end overwritten with a NUL, and the one after the line was used up.\<close>

definition line_state :: "u8 list \<Rightarrow> mcs \<Rightarrow> mcs" where
  "line_state line s = s\<lparr>rd_buff := (rd_buff s)\<lparr>buff := (buff (rd_buff s))[curr_ofs (rd_buff s) + length line := 0]\<rparr>\<rparr>"

lemma line_state_fields [simp]:
  "cch (line_state line s) = cch s" "con (line_state line s) = con s" "wr_buff (line_state line s) = wr_buff s"
  "errno (line_state line s) = errno s" "ev_wr (line_state line s) = ev_wr s"
  "room n (line_state line s) = room n s" "written (line_state line s) = written s"
  by (simp_all add: line_state_def room_def written_def)

lemma command_line:
  assumes "pending (rd_buff s) = line @ [13, 10] @ rest" and "10 \<notin> set line" and "0 \<notin> set line" and "line \<noteq> []"
  shows "try_read_command os pid s = Option.bind (process_command os pid line (line_state line s))
    (\<lambda>s2. Some (True, s2\<lparr>rd_buff := (rd_buff s2)\<lparr>curr_ofs := curr_ofs (rd_buff s) + (length line + 2)\<rparr>\<rparr>))"
proof -
  have t: "takeWhile (\<lambda>b. b \<noteq> 10) (line @ [13, 10] @ rest) = line @ [13]"
    using assms(2) by (subst takeWhile_append2) auto
  have c: "c_string line = line" using assms(3) by (auto simp: c_string_def)
  show ?thesis
    using assms(4) unfolding try_read_command_def assms(1) t Let_def
    by (simp add: c line_state_def)
qed

lemma command_rest:
  assumes "pending (rd_buff s) = line @ [13, 10] @ rest" and "rd_buff s2 = rd_buff (line_state line s)"
  shows "pending ((rd_buff s2)\<lparr>curr_ofs := curr_ofs (rd_buff s) + (length line + 2)\<rparr>) = rest"
proof -
  have "pending ((rd_buff s)\<lparr>curr_ofs := curr_ofs (rd_buff s) + (length line + 2)\<rparr>) = rest"
    by (rule pending_split [of _ "line @ [13, 10]"]) (simp_all add: assms(1))
  then show ?thesis using pending_update [of "curr_ofs (rd_buff s) + length line" "rd_buff s" "length line + 2" 0]
    by (simp add: assms(2) line_state_def)
qed

section \<open>Storage commands\<close>

fun comm_name :: "comm \<Rightarrow> u8 list" where
  "comm_name NREAD_ADD = bytes ''add''"
| "comm_name NREAD_SET = bytes ''set''"
| "comm_name NREAD_REPLACE = bytes ''replace''"
| "comm_name NREAD_APPEND = bytes ''append''"
| "comm_name NREAD_PREPEND = bytes ''prepend''"
| "comm_name NREAD_CAS = bytes ''cas''"

definition update_words :: "comm \<Rightarrow> key \<Rightarrow> nat \<Rightarrow> nat \<Rightarrow> nat \<Rightarrow> u8 list list" where
  "update_words comm k f e n = [comm_name comm, k, digits f, digits e, digits n]"

definition word_ok :: "u8 list \<Rightarrow> bool" where
  "word_ok w \<longleftrightarrow> w \<noteq> [] \<and> (\<forall>b \<in> set w. b \<noteq> 0 \<and> b \<noteq> 10 \<and> b \<noteq> 32)"

lemma word_ok_digits [simp]: "word_ok (digits n)"
  using digit_not digits_are_digits by (auto simp: word_ok_def)

lemma word_ok_name [simp]: "word_ok (comm_name comm)"
  by (cases comm) (simp_all add: word_ok_def bytes_def)

lemma join_words_ok:
  assumes "\<forall>w \<in> set ws. word_ok w" and "ws \<noteq> []"
  shows "join_words ws \<noteq> [] \<and> 0 \<notin> set (join_words ws) \<and> 10 \<notin> set (join_words ws)"
  using assms by (induction ws rule: join_words.induct) (auto simp: word_ok_def)

lemma update_tokens:
  assumes "word_ok k"
  shows "tokenize_command (join_words (update_words comm k f e n)) MAX_TOKENS = word_tokens (update_words comm k f e n) @ [(None, 0)]"
proof -
  have "\<forall>w \<in> set (update_words comm k f e n). w \<noteq> [] \<and> 32 \<notin> set w"
    using assms word_ok_digits word_ok_name unfolding update_words_def by (auto simp: word_ok_def)
  then show ?thesis
    using tok_words [of "update_words comm k f e n" "[]" MAX_TOKENS]
    by (simp add: tokenize_command_def MAX_TOKENS_def) (simp add: update_words_def)
qed

lemma update_comm_name: "comm \<noteq> NREAD_CAS \<Longrightarrow> update_comm (comm_name comm) = Some comm"
  by (cases comm) (simp_all add: update_comm_def bytes_def)

lemma process_update:
  assumes "word_ok k" and "comm \<noteq> NREAD_CAS"
  shows "process_command os pid (join_words (update_words comm k f e n)) s =
    process_update_command os (word_tokens (update_words comm k f e n) @ [(None, 0)]) comm s"
proof -
  have "comm_name comm \<noteq> bytes ''get''" "comm_name comm \<noteq> bytes ''bget''" by (cases comm; simp add: bytes_def)+
  then show ?thesis
    unfolding process_command_def update_tokens [OF assms(1)] Let_def
    by (simp add: word_tokens_def update_words_def update_comm_name [OF assms(2)])
qed

text \<open>The state in which the data of a storage command are awaited: a new item \<open>it\<close> at \<open>a\<close>, with its header filled in.\<close>

definition awaits :: "comm \<Rightarrow> key \<Rightarrow> u8 list \<Rightarrow> nat \<Rightarrow> nat \<Rightarrow> item \<Rightarrow> mcs \<Rightarrow> mcs \<Rightarrow> bool" where
  "awaits comm k suf n a it s s' \<longleftrightarrow>
     a \<noteq> 0 \<and> a \<notin> dom (mem (cch s)) \<and> item_ok it \<and> ITEM_key it = k \<and> ITEM_suffix it = suf \<and> nbytes it = int n + 2 \<and>
     refcount it = 1 \<and> it_flags it = 0 \<and> exptime it = 0 \<and>
     cch s' = (cch s)\<lparr>mem := (mem (cch s))(a \<mapsto> it), stat := (stat (cch s))\<lparr>set_cmds := set_cmds (stat (cch s)) + 1\<rparr>\<rparr> \<and>
     con s' = (con s)\<lparr>citem := a, ritem := data_ofs it, rlbytes := int n + 2, item_comm := comm, cstate := conn_nread\<rparr> \<and>
     rd_buff s' = rd_buff s \<and> wr_buff s' = wr_buff s \<and> ev_wr s' = ev_wr s"

lemma update_command_alloc:
  assumes k: "length k \<le> 250" and num: "f < 2 ^ 64" "e < 2 ^ 63" "n + 2 < 2 ^ 20"
    and err: "errno s \<noteq> ERANGE" "errno s \<noteq> EINVAL" and m: "malloc_fresh os (dom (mem (cch s)))"
  shows "\<exists>a it s'. process_update_command os (word_tokens (update_words comm k f e n) @ [(None, 0)]) comm s = Some s' \<and>
    awaits comm k (suffix_text (to_int32 (int f)) (int n + 2)) n a it s s'"
proof -
  let ?fl = "to_int32 (int f)"
  let ?S = "item_size (length k) ?fl (int n + 2)"
  let ?c = "(cch s)\<lparr>stat := (stat (cch s))\<lparr>set_cmds := set_cmds (stat (cch s)) + 1\<rparr>\<rparr>"
  obtain a raw where nr: "malloc os (mem ?c) ?S = (a, raw)" by fastforce
  have fr: "fresh_chunk ?c ?S (a, raw)"
    using m nr unfolding malloc_fresh_def fresh_chunk_def by (metis cache.select_convs(1) cache.surjective cache.update_convs(8) fst_conv snd_conv)
  then have e: "length (end_bytes raw) = length k + 1 + length (suffix_text ?fl (int n + 2)) + nat (int n + 2)" "a \<noteq> 0" "a \<notin> dom (mem (cch s))"
    by (simp_all add: fresh_chunk_def item_size_def)
  have fl: "\<bar>?fl\<bar> \<le> 2 ^ 31" "2 \<le> int n + 2" "int n + 2 \<le> 2 ^ 31" using to_int32_range num by simp_all
  let ?it = "new_item k ?fl 0 (int n + 2) raw"
  note ni = new_item_ok [OF fl k e(1) refl, of 0]
  have alloc: "do_item_alloc (malloc os (mem ?c)) (malloc_retry os (mem ?c)) k (length k) ?fl 0 (int n + 2) ?c =
      Some (a, ?c\<lparr>mem := (mem ?c)(a \<mapsto> ?it)\<rparr>)"
    using fl nr fr k by (intro do_item_alloc_ok) auto
  have nums: "strtoul (digits f) r = (int f, r)" "strtol (digits e) r = (int e, r)" "strtol (digits n) r = (int n, r)" for r
    using num by (auto intro: strtoul_digits strtol_digits)
  have n32: "to_int32 (int n) = int n" using num(3) by (intro to_int32_id) auto
  define s' where "s' = s\<lparr>cch := ?c\<lparr>mem := (mem ?c)(a \<mapsto> ?it)\<rparr>,
    con := (con s)\<lparr>citem := a, ritem := data_ofs ?it, rlbytes := int n + 2, item_comm := comm, cstate := conn_nread\<rparr>, ev_rd := True\<rparr>"
  have "process_update_command os (word_tokens (update_words comm k f e n) @ [(None, 0)]) comm s = Some s'"
    using k num(3) err alloc e(2) ni(8)
    by (simp add: process_update_command_def word_tokens_def update_words_def KEY_MAX_LENGTH_def Let_def nums n32 set_stat_def
        s'_def data_ofs_def)
  moreover have "awaits comm k (suffix_text ?fl (int n + 2)) n a ?it s s'"
    using e(2,3) ni by (simp add: awaits_def s'_def)
  ultimately show ?thesis by blast
qed

lemma remain_pending: "int (length (pending b)) \<le> buffer_remain_read b \<or> pending b = []"
  by (auto simp: pending_def buffer_remain_read_def)

lemma nread_copy:
  assumes w: "awaits comm k suf n a it s s'" and p: "pending (rd_buff s') = d @ rest" "length d = n + 2"
  shows "\<exists>it2 s2. nread_step os s' = Inr (False, s2) \<and> item_ok it2 \<and> ITEM_key it2 = k \<and> entry_of it2 = (suf, d) \<and>
    nbytes it2 = int n + 2 \<and> refcount it2 = 1 \<and> it_flags it2 = 0 \<and> exptime it2 = 0 \<and>
    cch s2 = (cch s')\<lparr>mem := (mem (cch s'))(a \<mapsto> it2)\<rparr> \<and> pending (rd_buff s2) = rest \<and> wr_buff s2 = wr_buff s' \<and>
    ev_wr s2 = ev_wr s' \<and> con s2 = (con s')\<lparr>ritem := ritem (con s') + (n + 2), rlbytes := 0\<rparr>"
proof -
  have it: "item_ok it" "nbytes it = int n + 2" "ritem (con s') = data_ofs it" "citem (con s') = a" "rlbytes (con s') = int n + 2"
    "mem (cch s') a = Some it" "ITEM_key it = k" "ITEM_suffix it = suf" "refcount it = 1" "it_flags it = 0" "exptime it = 0"
    using w by (simp_all add: awaits_def)
  have fit: "0 + length d \<le> nat (nbytes it)" using p(2) it(2) by simp
  obtain e where e: "Buffers.store (data_ofs it) d (end_bytes it) = Some e" "item_ok (it\<lparr>end_bytes := e\<rparr>)"
    "ITEM_key (it\<lparr>end_bytes := e\<rparr>) = ITEM_key it" "ITEM_suffix (it\<lparr>end_bytes := e\<rparr>) = ITEM_suffix it"
    "ITEM_data (it\<lparr>end_bytes := e\<rparr>) = d @ drop (length d) (ITEM_data it)"
    using write_data [OF it(1) fit] by auto
  let ?it = "it\<lparr>end_bytes := e\<rparr>"
  let ?s2 = "s'\<lparr>cch := (cch s')\<lparr>mem := (mem (cch s'))(a \<mapsto> ?it)\<rparr>,
     con := (con s')\<lparr>ritem := ritem (con s') + (n + 2), rlbytes := 0\<rparr>,
     rd_buff := (rd_buff s')\<lparr>curr_ofs := curr_ofs (rd_buff s') + (n + 2)\<rparr>\<rparr>"
  have "length (ITEM_data it) = n + 2" using it(1,2) by (simp add: item_ok_def ITEM_data_def)
  then have data: "ITEM_data ?it = d" using e(5) p(2) by simp
  have av: "int (length d) \<le> buffer_remain_read (rd_buff s')"
    using remain_pending [of "rd_buff s'"] p by auto
  have tk: "take (n + 2) (pending (rd_buff s')) = d" using p by simp
  have wi: "write_item a (data_ofs it) d (cch s') = Some ((cch s')\<lparr>mem := (mem (cch s'))(a \<mapsto> ?it)\<rparr>)"
    using it(6) e(1) by (simp add: write_item_def)
  have tc: "(if buffer_remain_read (rd_buff s') > int n + 2 then int n + 2 else buffer_remain_read (rd_buff s')) = int n + 2"
    using av p(2) by auto
  have nt: "nat (int n + 2) = n + 2" by simp
  have run: "nread_step os s' = Inr (False, ?s2)"
    using av p(2) wi tk unfolding nread_step_def Let_def it(3-5) tc nt
    by (simp add: opt_fault_def)
  have "pending (rd_buff ?s2) = rest" using pending_split [OF p(1), of "n + 2"] p(2) by simp
  then show ?thesis
    using run e(2-4) data it by (intro exI [of _ ?it] exI [of _ ?s2]) (simp add: entry_of_def)
qed

text \<open>\<open>malloc\<close> serves the next two requests, the second of which only \<open>append\<close> and \<open>prepend\<close> make.\<close>

definition malloc_serves :: "sys \<Rightarrow> cache \<Rightarrow> bool" where
  "malloc_serves os c \<longleftrightarrow> malloc_fresh os (dom (mem c)) \<and> (\<forall>a. malloc_fresh os (insert a (dom (mem c))))"

lemma value_fresh:
  assumes "cache_ok c M xs" and "a \<notin> ran M"
  shows "value_at (c\<lparr>mem := (mem c)(a \<mapsto> it)\<rparr>) M = value_at c M"
  using assms(2) by (intro value_same [OF assms(1)]) (auto simp: content_at_def)

lemma awaits_cache:
  assumes ok: "mc_ok (cch s) M xs" and w: "awaits comm k suf n a it s s'"
    and it2: "item_ok it2" "it_flags it2 = 0" "refcount it2 = 1" "exptime it2 = 0"
    and c: "c = (cch s')\<lparr>mem := (mem (cch s'))(a \<mapsto> it2)\<rparr>"
  shows "mc_ok c M xs \<and> value_at c M = value_at (cch s) M \<and> a \<notin> ran M \<and> mem c = (mem (cch s))(a \<mapsto> it2)"
proof -
  have a: "a \<noteq> 0" "a \<notin> dom (mem (cch s))" using w by (simp_all add: awaits_def)
  let ?d = "(cch s)\<lparr>mem := (mem (cch s))(a \<mapsto> it2)\<rparr>"
  have c': "c = ?d\<lparr>stat := (stat (cch s))\<lparr>set_cmds := set_cmds (stat (cch s)) + 1\<rparr>\<rparr>" using w c by (simp add: awaits_def)
  have o: "cache_ok ?d M xs" "a \<notin> ran M" using cache_ok_new [OF mc_okD(1) [OF ok] a it2(1,2)] it2(3) by simp_all
  have "mc_ok ?d M xs"
    using ok it2(4) o(1) by (auto simp: mc_ok_def)
  then have "mc_ok c M xs" unfolding c' by (simp add: mc_ok_stat)
  moreover have "value_at c M = value_at (cch s) M"
    unfolding c' using value_fresh [OF mc_okD(1) [OF ok] o(2)] by simp
  ultimately show ?thesis using o(2) c' by simp
qed

text \<open>C3: a storage request whose data arrived with it, from the bytes received to the answer: the command line is parsed, an
  item is allocated with the client's flags, the data are copied into it and, when they end in CR LF, stored as the
  abstract command says; the client is answered \<open>STORED\<close> or \<open>NOT_STORED\<close>, or told that the data chunk is bad. No other key
  changes its value, the cache stays consistent, \<open>mc_read\<close> returns after three rounds, and what follows the request stays in
  the read buffer.\<close>

theorem storage_request:
  assumes ok: "mc_ok (cch s) M xs" and st: "cstate (con s) = conn_read" "\<not> ev_wr s" "errno s \<noteq> ERANGE" "errno s \<noteq> EINVAL"
    and p: "pending (rd_buff s) = join_words (update_words comm k f e n) @ [13, 10] @ d @ rest" "length d = n + 2"
    and k: "word_ok k" "length k \<le> 250" and comm: "comm \<noteq> NREAD_CAS"
    and num: "f < 2 ^ 64" "e < 2 ^ 63" "n + 2 < 2 ^ 20" "card (dom M) < 3 * 2 ^ 30"
    and old: "\<forall>b ob. M k = Some b \<and> mem (cch s) b = Some ob \<longrightarrow> refcount ob \<noteq> - 1 \<and> int n + nbytes ob < 2 ^ 20"
    and m: "malloc_serves os (cch s)" and rm: "room 32 s"
  shows "\<exists>s' M' xs'. mc_read (fuel + 3) os pid s = Some (Inr s') \<and> mc_ok (cch s') M' xs' \<and> ev_wr s' \<and>
    pending (rd_buff s') = rest \<and>
    (if drop n d = [13, 10]
     then value_at (cch s') M' = (value_at (cch s) M)(k :=
         store_value comm (value_at (cch s) M k) (suffix_text (to_int32 (int f)) (int n + 2), d)) \<and>
       written s' = written s @ store_reply (store_ret comm (value_at (cch s) M k))
     else value_at (cch s') M' = value_at (cch s) M \<and> written s' = written s @ bytes ''CLIENT_ERROR bad data chunk'' @ [13, 10])"
proof -
  let ?line = "join_words (update_words comm k f e n)" and ?suf = "suffix_text (to_int32 (int f)) (int n + 2)"
  have "\<forall>w \<in> set (update_words comm k f e n). word_ok w" "update_words comm k f e n \<noteq> []"
    using k(1) by (simp_all add: update_words_def)
  from join_words_ok [OF this] have l: "10 \<notin> set ?line" "0 \<notin> set ?line" "?line \<noteq> []" by simp_all
  let ?s0 = "line_state ?line s"
  have "\<exists>a it s1. process_update_command os (word_tokens (update_words comm k f e n) @ [(None, 0)]) comm ?s0 = Some s1 \<and>
      awaits comm k ?suf n a it ?s0 s1"
    using m st(3,4) by (intro update_command_alloc k(2) num(1-3)) (simp_all add: malloc_serves_def)
  then obtain a it s1 where run1: "process_command os pid ?line ?s0 = Some s1" and w: "awaits comm k ?suf n a it ?s0 s1"
    unfolding process_update [OF k(1) comm] by blast
  let ?s1 = "s1\<lparr>rd_buff := (rd_buff s1)\<lparr>curr_ofs := curr_ofs (rd_buff s) + (length ?line + 2)\<rparr>\<rparr>"
  have cmd: "try_read_command os pid s = Some (True, ?s1)"
    unfolding command_line [OF p(1) l] run1 by simp
  have w1: "awaits comm k ?suf n a it (?s0\<lparr>rd_buff := rd_buff ?s1\<rparr>) ?s1" using w by (simp add: awaits_def)
  have rd1: "rd_buff s1 = rd_buff ?s0" using w by (simp add: awaits_def)
  have "pending (rd_buff ?s1) = d @ rest"
    using command_rest [OF p(1) rd1] by simp
  from nread_copy [OF w1 this p(2)] obtain it2 s2 where run2: "nread_step os ?s1 = Inr (False, s2)"
    and it2: "item_ok it2" "ITEM_key it2 = k" "entry_of it2 = (?suf, d)" "nbytes it2 = int n + 2" "refcount it2 = 1"
      "it_flags it2 = 0" "exptime it2 = 0"
    and c2: "cch s2 = (cch ?s1)\<lparr>mem := (mem (cch ?s1))(a \<mapsto> it2)\<rparr>"
    and s2: "pending (rd_buff s2) = rest" "wr_buff s2 = wr_buff ?s1" "ev_wr s2 = ev_wr ?s1"
      "con s2 = (con ?s1)\<lparr>ritem := ritem (con ?s1) + (n + 2), rlbytes := 0\<rparr>" by blast
  have con: "cstate (con ?s1) = conn_nread" "cstate (con s2) = conn_nread" "citem (con s2) = a" "rlbytes (con s2) = 0"
    "item_comm (con s2) = comm" "\<not> ev_wr ?s1"
    using w s2(4) st(2) by (simp_all add: awaits_def)
  have ok0: "mc_ok (cch (?s0\<lparr>rd_buff := rd_buff ?s1\<rparr>)) M xs" using ok by simp
  from awaits_cache [OF ok0 w1 it2(1,6,5,7) c2] have c: "mc_ok (cch s2) M xs" "value_at (cch s2) M = value_at (cch s) M" "a \<notin> ran M"
    "mem (cch s2) = (mem (cch s))(a \<mapsto> it2)" by simp_all
  have wr: "wr_buff s2 = wr_buff s" using w s2(2) by (simp add: awaits_def)
  then have out: "room 32 s2" "written s2 = written s" using rm by (simp_all add: room_def written_def)
  have ma: "malloc_fresh os (dom (mem (cch s2)))" using m c(4) by (simp add: malloc_serves_def)
  have ran: "M k \<noteq> Some a" using c(3) by (auto intro: ranI)
  have old2: "\<forall>b ob. M (ITEM_key it2) = Some b \<and> mem (cch s2) b = Some ob \<longrightarrow>
      refcount ob \<noteq> - 1 \<and> nbytes it2 + nbytes ob - 2 < 1024 * 1024"
    using old ran unfolding c(4) it2(2,4) by auto
  have dat: "drop (nat (nbytes it2) - 2) (ITEM_data it2) = drop n d"
    using it2(3,4) by (simp add: entry_of_def nat_add_distrib)
  obtain s3 M' xs' where fin: "complete_nread os s2 = Some s3" "mc_ok (cch s3) M' xs'" "ev_wr s3" "rd_buff s3 = rd_buff s2"
    "if drop n d = [13, 10]
     then value_at (cch s3) M' = (value_at (cch s) M)(k := store_value comm (value_at (cch s) M k) (?suf, d)) \<and>
       written s3 = written s @ store_reply (store_ret comm (value_at (cch s) M k))
     else value_at (cch s3) M' = value_at (cch s) M \<and> written s3 = written s @ bytes ''CLIENT_ERROR bad data chunk'' @ [13, 10]"
    using complete_nread_spec [OF c(1) con(3) _ c(3) _ old2 _ num(4) _ ma out(1) refl] c(2,4) con(5) comm num(3) it2(2-4) k(2) out(2) dat
    by auto
  have "mc_read (fuel + 3) os pid s = Some (Inr s3)"
    using st(1) cmd con run2 fin(1,3) by (simp add: numeral_3_eq_3 nread_step_def [of os s2] opt_fault_def)
  then show ?thesis using fin s2(1) by metis
qed

definition os2 :: sys where
  "os2 = \<lparr>malloc = (\<lambda>h sz. (if h 16 = None then 16 else if h 24 = None then 24 else 32, item_abc\<lparr>end_bytes := replicate (sz - sizeof_item) 0\<rparr>)),
          malloc_retry = (\<lambda>h sz. (0, item_abc)), grow_ok = True\<rparr>"

lemma os2_serves: "malloc_serves os2 cache1"
proof -
  have "malloc_fresh os2 {8}" by (auto simp: malloc_fresh_def os2_def domIff)
  moreover have "malloc_fresh os2 {a, 8}" for a
  proof (unfold malloc_fresh_def, intro allI impI)
    fix h :: store and sz assume d: "dom h = {a, 8}"
    have "x = a \<or> x = 8" if "h x = Some y" for x y using domI [of h x y] that d by auto
    from this [of 16] this [of 24] have "h 16 = None \<or> h 24 = None" by force
    then show "fst (malloc os2 h sz) \<noteq> 0 \<and> fst (malloc os2 h sz) \<notin> {a, 8} \<and>
        length (end_bytes (snd (malloc os2 h sz))) = sz - sizeof_item"
      unfolding d [symmetric] by (auto simp: os2_def)
  qed
  moreover have "dom (mem cache1) = {8}" by (simp add: cache1_def)
  ultimately show ?thesis by (simp add: malloc_serves_def)
qed

definition con1 :: conn where
  "con1 = \<lparr>cstate = conn_read, write_and_go = conn_read, citem = 0, ritem = 0, rlbytes = 0, item_comm = NREAD_SET, sbytes = 0\<rparr>"

text \<open>A connection that received the bytes \<open>r\<close>.\<close>

definition mcs_with :: "u8 list \<Rightarrow> mcs" where
  "mcs_with r = \<lparr>cch = cache1, con = con1, rd_buff = \<lparr>buff = r, r_ofs = length r, curr_ofs = 0, total = length r\<rparr>,
     wr_buff = buffer_init (replicate 64 0) 64, ev_rd = True, ev_wr = False, errno = 0, closed = False, net = []\<rparr>"

lemma mcs_with_fields [simp]:
  "cch (mcs_with r) = cache1" "con (mcs_with r) = con1" "pending (rd_buff (mcs_with r)) = r" "ev_wr (mcs_with r) = False"
  "errno (mcs_with r) = 0" "room n (mcs_with r) = (n \<le> 64)" "written (mcs_with r) = []" "cstate con1 = conn_read"
  by (simp_all add: mcs_with_def pending_def room_def written_def buffer_init_def con1_def)

theorem storage_request_witness:
  "\<exists>s' M'. mc_read 3 os2 1 (mcs_with (bytes ''set k 5 0 1'' @ [13, 10] @ [120, 13, 10])) = Some (Inr s') \<and>
     value_at (cch s') M' = [bytes ''k'' \<mapsto> (suffix_text 5 3, [120, 13, 10])] \<and> written s' = bytes ''STORED'' @ [13, 10]"
proof -
  let ?r = "bytes ''set k 5 0 1'' @ [13, 10] @ [120, 13, 10]"
  have l: "join_words (update_words NREAD_SET (bytes ''k'') 5 0 1) = bytes ''set k 5 0 1''"
    by (simp add: update_words_def digits.simps bytes_def)
  have v: "value_at cache1 Map.empty = Map.empty" by (rule ext) (simp add: value_at_def)
  have t: "to_int32 5 = 5" by (simp add: to_int32_id)
  have p: "pending (rd_buff (mcs_with ?r)) = join_words (update_words NREAD_SET (bytes ''k'') 5 0 1) @ [13, 10] @ [120, 13, 10] @ []"
    unfolding l by simp
  have "word_ok (bytes ''k'')" "length (bytes ''k'') \<le> 250" by (simp_all add: word_ok_def bytes_def)
  from storage_request [OF _ _ _ _ _ p _ this, of Map.empty "[]" os2 0 1] cache1_mc_ok os2_serves
  show ?thesis by (simp add: v t store_reply_def ERANGE_def EINVAL_def) blast
qed

section \<open>Retrieval\<close>

text \<open>C4: a \<open>get\<close> request that arrived as a whole is answered with the value line, the data and \<open>END\<close>, or \<open>END\<close> alone for a
  key without a value, when the answer fits the output buffer; no value changes, \<open>mc_read\<close> returns in its first round
  and what follows the request stays in the read buffer. A longer answer is written past the end of the buffer's block.\<close>

theorem get_request:
  assumes ok: "mc_ok (cch s) M xs" and st: "cstate (con s) = conn_read"
    and p: "pending (rd_buff s) = bytes ''get '' @ k @ [13, 10] @ rest" and k: "word_ok k"
    and r: "\<forall>a it. M k = Some a \<and> mem (cch s) a = Some it \<longrightarrow> refcount it \<noteq> - 1"
    and reply: "reply = get_reply k (value_at (cch s) M k)"
  shows "(room (length reply) s \<longrightarrow> (\<exists>s'. mc_read (Suc fuel) os pid s = Some (Inr s') \<and> written s' = written s @ reply \<and>
      mc_ok (cch s') M xs \<and> value_at (cch s') M = value_at (cch s) M \<and> con s' = con s \<and> pending (rd_buff s') = rest \<and> ev_wr s')) \<and>
    (\<not> room (length reply) s \<longrightarrow> mc_read (Suc fuel) os pid s = Some (Inl Crash))"
proof -
  let ?ws = "[bytes ''get'', k]"
  have line: "bytes ''get '' @ k = join_words ?ws" by (simp add: bytes_def)
  have "\<forall>w \<in> set ?ws. word_ok w" using k by (simp add: word_ok_def bytes_def)
  from join_words_ok [OF this] have l: "10 \<notin> set (join_words ?ws)" "0 \<notin> set (join_words ?ws)" "join_words ?ws \<noteq> []" by simp_all
  have p': "pending (rd_buff s) = join_words ?ws @ [13, 10] @ rest" using p line by simp
  let ?s0 = "line_state (join_words ?ws) s"
  have tok: "tokenize_command (join_words ?ws) MAX_TOKENS = word_tokens ?ws @ [(None, 0)]"
    using tok_words [of ?ws "[]" MAX_TOKENS] k by (auto simp: tokenize_command_def MAX_TOKENS_def word_ok_def bytes_def)
  have run: "process_command os pid (join_words ?ws) ?s0 = process_get_command (word_tokens ?ws @ [(None, 0)]) ?s0"
    unfolding process_command_def tok Let_def by (simp add: word_tokens_def)
  have t1: "(word_tokens ?ws @ [(None, 0)]) ! 1 = (Some k, length k)" by (simp add: word_tokens_def)
  have ok0: "mc_ok (cch ?s0) M xs" using ok by simp
  have r0: "\<forall>a it. M k = Some a \<and> mem (cch ?s0) a = Some it \<longrightarrow> refcount it \<noteq> - 1" using r by simp
  note spec = get_command_spec [OF ok0 t1 r0]
  have cmd: "try_read_command os pid s = Option.bind (process_get_command (word_tokens ?ws @ [(None, 0)]) ?s0)
      (\<lambda>s2. Some (True, s2\<lparr>rd_buff := (rd_buff s2)\<lparr>curr_ofs := curr_ofs (rd_buff s) + (length (join_words ?ws) + 2)\<rparr>\<rparr>))"
    unfolding command_line [OF p' l] run ..
  show ?thesis
  proof (cases "room (length reply) s")
    case True
    then obtain s1 where s1: "process_get_command (word_tokens ?ws @ [(None, 0)]) ?s0 = Some s1" "written s1 = written s @ reply"
      "mc_ok (cch s1) M xs" "value_at (cch s1) M = value_at (cch s) M" "con s1 = con s" "ev_wr s1" "rd_buff s1 = rd_buff ?s0"
      using spec by (auto simp: reply)
    let ?s1 = "s1\<lparr>rd_buff := (rd_buff s1)\<lparr>curr_ofs := curr_ofs (rd_buff s) + (length (join_words ?ws) + 2)\<rparr>\<rparr>"
    have "mc_read (Suc fuel) os pid s = Some (Inr ?s1)" using st cmd s1(1,6) by simp
    moreover have "pending (rd_buff ?s1) = rest" using command_rest [OF p' s1(7)] by simp
    moreover have "written ?s1 = written s1" by (simp add: written_def)
    ultimately show ?thesis using True s1 by (intro conjI impI exI [of _ ?s1]) simp_all
  next
    case False
    then have "process_get_command (word_tokens ?ws @ [(None, 0)]) ?s0 = None" using spec by (auto simp: reply)
    then show ?thesis using st cmd False by simp
  qed
qed

theorem get_request_witness:
  "\<exists>s'. mc_read 1 os2 1 (mcs_with (bytes ''get x'' @ [13, 10, 103])) = Some (Inr s') \<and> written s' = bytes ''END'' @ [13, 10] \<and>
     pending (rd_buff s') = [103]"
proof -
  let ?s = "mcs_with (bytes ''get x'' @ [13, 10, 103])"
  have p: "pending (rd_buff ?s) = bytes ''get '' @ bytes ''x'' @ [13, 10] @ [103]" by (simp add: bytes_def)
  have ok: "mc_ok (cch ?s) Map.empty []" and c: "cstate (con ?s) = conn_read" and w: "word_ok (bytes ''x'')"
    using cache1_mc_ok by (simp_all add: word_ok_def bytes_def)
  have r: "bytes ''END'' @ [13, 10] = get_reply (bytes ''x'') (value_at (cch ?s) Map.empty (bytes ''x''))"
    by (simp add: get_reply_def value_at_def)
  have "room (length (bytes ''END'' @ [13, 10])) ?s" by (simp add: bytes_def)
  then show ?thesis using get_request [OF ok c p w _ r, of 0 os2 1] by (auto simp: bytes_def)
qed

end
