(* ===== verification/Memcached_Faults.thy ===== *)
theory Memcached_Faults
  imports Memcached_Requests
begin

text \<open>
  What the connection's loops do with requests that arrive in pieces, that are too long or that are followed by another one:
  an incomplete command makes \<open>mc_read\<close> spin, a line longer than the buffer ends the server, data that come in a later packet
  than the command never reach the item, and sending an answer drops the requests that were already received.
\<close>

section \<open>Incomplete commands\<close>

lemma no_command: "10 \<notin> set (pending (rd_buff s)) \<Longrightarrow> try_read_command os pid s = Some (False, s)"
  by (simp add: try_read_command_def)

lemma network_idle:
  assumes "net s = []" and "0 < buffer_remain_write (rd_buff s)"
  shows "try_read_network (Suc fuel) s = Some (Inr (s\<lparr>errno := EAGAIN\<rparr>))"
  using assms by (simp add: read_bytes_def recv_def)

text \<open>C15: with an incomplete command in the buffer and nothing more to receive \<open>mc_read\<close> never returns: \<open>try_read_network\<close>
  reports success when \<open>recv\<close> fails with \<open>EAGAIN\<close>, so the loop goes round without end, whatever the fuel, and the server's
  only thread serves nobody else.\<close>

theorem partial_request_spins:
  assumes "cstate (con s) = conn_read" and "10 \<notin> set (pending (rd_buff s))" and "net s = []"
    and "0 < buffer_remain_write (rd_buff s)"
  shows "mc_read fuel os pid s = None"
  using assms
proof (induction fuel arbitrary: s)
  case (Suc fuel)
  show ?case
  proof (cases fuel)
    case (Suc n)
    have "mc_read fuel os pid (s\<lparr>errno := EAGAIN\<rparr>) = None" using Suc.prems by (intro Suc.IH) simp_all
    then show ?thesis
      using Suc.prems no_command [OF Suc.prems(2)] network_idle [OF Suc.prems(3,4), of n] Suc by simp
  qed (use Suc.prems in \<open>simp add: no_command\<close>)
qed simp

text \<open>A connection that got five bytes without a line end into its block of nine, with \<open>n\<close> still to come.\<close>

definition part_read :: "recv_res list \<Rightarrow> mcs" where
  "part_read n = (mcs_with [])\<lparr>rd_buff := \<lparr>buff = replicate 9 120, r_ofs = 5, curr_ofs = 0, total = 9\<rparr>, net := n\<rparr>"

lemma part_read_fields [simp]:
  "con (part_read n) = con1" "10 \<notin> set (pending (rd_buff (part_read n)))" "net (part_read n) = n"
  "buffer_remain_write (rd_buff (part_read n)) = 4" "buffer_ok (rd_buff (part_read n))"
  by (simp_all add: part_read_def pending_def buffer_remain_write_def buffer_ok_def)

theorem partial_request_spins_witness: "mc_read 1000 os2 1 (part_read []) = None"
  by (rule partial_request_spins) simp_all

text \<open>Receiving as many bytes as the buffer has room for.\<close>

lemma network_fills:
  assumes net: "net s = Data d # rest" and ok: "buffer_ok (rd_buff s)" and len: "buffer_remain_write (rd_buff s) \<le> int (length d)"
    and pos: "0 < buffer_remain_write (rd_buff s)"
  shows "try_read_network (Suc (Suc fuel)) s = Some (Inl Exit)"
proof -
  let ?n = "nat (buffer_remain_write (rd_buff s))"
  have l: "length (take ?n d) = ?n" "r_ofs (rd_buff s) + ?n = total (rd_buff s)" "length (buff (rd_buff s)) = total (rd_buff s)"
    using len pos ok by (auto simp: buffer_remain_write_def buffer_ok_def)
  then obtain bl where "Buffers.store (r_ofs (rd_buff s)) (take ?n d) (buff (rd_buff s)) = Some bl"
    by (simp add: Buffers.store_def)
  then show ?thesis
    using net l pos by (simp add: read_bytes_def recv_def add_read_def set_stat_def buffer_remain_write_def)
qed

text \<open>C23: a client ends the whole server: when what was received has no line end and the next packet fills the buffer,
  the loop asks \<open>read_bytes\<close> for the 0 bytes that are left, which calls \<open>log_fatal\<close>.\<close>

theorem long_line_exits:
  assumes "cstate (con s) = conn_read" and "10 \<notin> set (pending (rd_buff s))" and "buffer_ok (rd_buff s)"
    and "net s = Data d # rest" and "0 < buffer_remain_write (rd_buff s)" and "buffer_remain_write (rd_buff s) \<le> int (length d)"
  shows "mc_read (fuel + 3) os pid s = Some (Inl Exit)"
  using assms(1) no_command [OF assms(2)] network_fills [OF assms(4,3,6,5)] by (simp add: numeral_3_eq_3)

theorem long_line_exits_witness: "mc_read 3 os2 1 (part_read [Data [1, 2, 3, 4, 5]]) = Some (Inl Exit)"
  using long_line_exits [of "part_read [Data [1, 2, 3, 4, 5]]" _ "[]" 0] by simp

section \<open>Data in a packet of their own\<close>

text \<open>When the data of a storage command come in a later packet than its line, they are received into the read buffer and
  counted, but not copied into the item (\<open>mc_read\<close> advances \<open>ritem\<close> only). The command is completed on the bytes that
  \<open>malloc\<close> left in the item: unless these happen to end in CR LF the client is told that its data are bad, whatever it sent,
  and what it sent stays in the buffer, where the next round takes it for commands.\<close>

theorem network_data_not_stored:
  assumes ok: "mc_ok (cch s) M xs" and st: "cstate (con s) = conn_nread" "citem (con s) = a" "mem (cch s) a = Some it"
    and raw: "drop (nat (nbytes it) - 2) (ITEM_data it) \<noteq> [13, 10]"
    and b: "buffer_ok (rd_buff s)" "pending (rd_buff s) = []" "net s = Data d # rest"
    and len: "rlbytes (con s) = int (length d)" "0 < length d" "int (length d) \<le> buffer_remain_write (rd_buff s)"
    and rm: "room 32 s"
  shows "\<exists>s' xs'. mc_read (fuel + 2) os pid s = Some (Inr s') \<and> mc_ok (cch s') M xs' \<and> value_at (cch s') M = value_at (cch s) M \<and>
    written s' = written s @ bytes ''CLIENT_ERROR bad data chunk'' @ [13, 10] \<and> pending (rd_buff s') = d"
proof -
  let ?r = "rd_buff s" and ?n = "length d"
  have buf: "curr_ofs ?r = r_ofs ?r" "r_ofs ?r + ?n \<le> length (buff ?r)"
    using b(1,2) len(3) by (auto simp: buffer_ok_def pending_def buffer_remain_write_def)
  define bl where "bl = take (r_ofs ?r) (buff ?r) @ d @ drop (r_ofs ?r + ?n) (buff ?r)"
  have st1: "Buffers.store (r_ofs ?r) d (buff ?r) = Some bl" using buf by (simp add: Buffers.store_def bl_def)
  define s1 where "s1 = (add_read (int ?n) (s\<lparr>net := rest, rd_buff := ?r\<lparr>buff := bl, r_ofs := r_ofs ?r + ?n\<rparr>\<rparr>))
    \<lparr>con := (con s)\<lparr>ritem := ritem (con s) + ?n, rlbytes := 0\<rparr>\<rparr>"
  have run1: "nread_step os s = Inr (False, s1)"
    using buf(1) st1 b(3) len by (simp add: nread_step_def Let_def buffer_remain_read_def read_bytes_def recv_def s1_def)
  have s1: "mem (cch s1) a = Some it" "citem (con s1) = a" "rlbytes (con s1) = 0" "cstate (con s1) = conn_nread" "room 32 s1"
    "written s1 = written s" "value_at (cch s1) M = value_at (cch s) M" "mc_ok (cch s1) M xs" "pending (rd_buff s1) = d"
    using st rm ok buf by (simp_all add: s1_def add_read_def set_stat_def room_def written_def mc_ok_stat pending_def bl_def)
  from complete_nread_bad [OF s1(8,2,1) raw s1(5)] obtain s2 where s2: "complete_nread os s1 = Some s2" "mc_ok (cch s2) M xs"
    "value_at (cch s2) M = value_at (cch s1) M" "ev_wr s2" "rd_buff s2 = rd_buff s1"
    "written s2 = written s1 @ bytes ''CLIENT_ERROR bad data chunk'' @ [13, 10]" by blast
  have "mc_read (fuel + 2) os pid s = Some (Inr s2)"
    using st(1) run1 s1(3,4) s2(1,4) by (simp add: numeral_2_eq_2 nread_step_def [of os s1] opt_fault_def)
  then show ?thesis using s2 s1 by metis
qed

text \<open>A connection whose command was read and that awaits the data of \<open>item_def\<close>, four bytes.\<close>

definition item_raw :: item where
  "item_raw = item_abc\<lparr>end_bytes := [97, 98, 99, 0, 32, 48, 32, 50, 13, 10, 0, 0, 0, 0]\<rparr>"

definition await_read :: mcs where
  "await_read = (mcs_with [])\<lparr>cch := cache1\<lparr>mem := [8 \<mapsto> item_raw]\<rparr>, con := con1\<lparr>cstate := conn_nread, citem := 8, ritem := 10, rlbytes := 4\<rparr>,
     rd_buff := buffer_init (replicate 9 0) 9, net := [Data [104, 105, 13, 10]]\<rparr>"

theorem network_data_not_stored_witness:
  "\<exists>s'. mc_read 2 os2 1 await_read = Some (Inr s') \<and> written s' = bytes ''CLIENT_ERROR bad data chunk'' @ [13, 10] \<and>
     pending (rd_buff s') = [104, 105, 13, 10]"
proof -
  have "cache_ok (cache1\<lparr>mem := [8 \<mapsto> item_raw]\<rparr>) Map.empty []"
    using table2_rel
    by (simp add: cache_ok_def cache1_def items_ok_def item_raw_def item_abc_def item_ok_def stats0_def bytes_at_def)
  then have ok: "mc_ok (cch await_read) Map.empty []"
    by (simp add: mc_ok_def await_read_def) (simp add: cache1_def item_raw_def item_abc_def)
  have f: "cstate (con await_read) = conn_nread" "citem (con await_read) = 8" "mem (cch await_read) 8 = Some item_raw"
    "drop (nat (nbytes item_raw) - 2) (ITEM_data item_raw) \<noteq> [13, 10]" "buffer_ok (rd_buff await_read)" "pending (rd_buff await_read) = []"
    "net await_read = Data [104, 105, 13, 10] # []" "rlbytes (con await_read) = int (length [104, 105, 13, 10 :: u8])"
    "0 < length [104, 105, 13, 10 :: u8]" "int (length [104, 105, 13, 10 :: u8]) \<le> buffer_remain_write (rd_buff await_read)"
    "room 32 await_read" and w: "written await_read = []"
    by (simp_all add: await_read_def pending_def buffer_ok_def buffer_init_def buffer_remain_write_def room_def mcs_with_def written_def
        item_raw_def item_abc_def ITEM_data_def)
  show ?thesis using network_data_not_stored [OF ok f, of 0 os2 1] unfolding w add_0 append_Nil by blast
qed

section \<open>Pipelined requests\<close>

text \<open>When the last byte of an answer was sent the read buffer is reset: requests that were received with the one
  answered and wait in the buffer are lost.\<close>

theorem reply_drops_pipelined:
  assumes "n = buffer_remain_read (wr_buff s)" and "0 < n"
  shows "\<exists>s'. mc_write n s = Some s' \<and> pending (rd_buff s') = [] \<and> written s' = [] \<and> cstate (con s') = conn_read \<and> ev_rd s' \<and>
    \<not> ev_wr s' \<and> cch s' = (cch s)\<lparr>stat := (stat (cch s))\<lparr>bytes_written := bytes_written (stat (cch s)) + of_int n\<rparr>\<rparr>"
proof -
  have "r_ofs (wr_buff s) = curr_ofs (wr_buff s) + nat n" using assms by (simp add: buffer_remain_read_def)
  then show ?thesis
    using assms(2) by (simp add: mc_write_def set_stat_def buffer_empty_def buffer_reset_def pending_def written_def
      conn_set_state_def Let_def)
qed

theorem reply_drops_pipelined_witness:
  "\<exists>s'. mc_write 5 (emit (bytes ''END'' @ [13, 10]) (mcs_with (bytes ''get b'' @ [13, 10]))) = Some s' \<and> pending (rd_buff s') = []"
proof -
  let ?s = "emit (bytes ''END'' @ [13, 10]) (mcs_with (bytes ''get b'' @ [13, 10]))"
  have "5 = buffer_remain_read (wr_buff ?s)"
    by (simp add: buffer_remain_read_def emit_def set_wr_def mcs_with_def buffer_init_def bytes_def)
  then show ?thesis using reply_drops_pipelined [of 5 ?s] by auto
qed

section \<open>Errors that stay\<close>

lemma strto_err [simp]: "snd (strtoul t ERANGE) = ERANGE" "snd (strtol t ERANGE) = ERANGE"
  by (simp_all add: strtoul_def strtol_def split_beta Let_def)

text \<open>\<open>errno\<close> is tested without being cleared first: once a number was out of range, or if \<open>errno\<close> is \<open>ERANGE\<close> for any
  other reason, every storage command is refused as badly formatted, whatever its numbers.\<close>

theorem erange_sticks:
  assumes "errno s = ERANGE" and "snd (tokens ! 1) \<le> KEY_MAX_LENGTH"
    and "\<forall>i \<in> {1, 2, 3, 4}. fst (tokens ! i) \<noteq> None" and "room (length bad_format + 2) s"
  shows "\<exists>s'. process_update_command os tokens comm s = Some s' \<and> written s' = written s @ bad_format @ [13, 10] \<and>
    errno s' = ERANGE \<and> mem (cch s') = mem (cch s) \<and> con s' = con s"
proof -
  from assms(3) obtain t1 t2 t3 t4 where t: "fst (tokens ! 1) = Some t1" "fst (tokens ! 2) = Some t2" "fst (tokens ! 3) = Some t3"
    "fst (tokens ! 4) = Some t4" by auto
  let ?s1 = "set_stat (\<lambda>st. st\<lparr>set_cmds := set_cmds st + 1\<rparr>) s"
  let ?s2 = "?s1\<lparr>errno := ERANGE\<rparr>"
  have "process_update_command os tokens comm s = out_string bad_format ?s2"
    using assms(1,2) t by (simp add: process_update_command_def set_stat_def Let_def split_beta)
  also have "\<dots> = Some (emit (bad_format @ [13, 10]) ?s2)"
    using assms(4) by (intro out_string_emit) (simp add: room_def set_stat_def)
  finally show ?thesis
    using assms(4) by (auto simp: written_def room_def emit_def set_wr_def set_stat_def)
qed

theorem erange_sticks_witness:
  "\<exists>s'. process_update_command os2 [(Some (bytes ''set''), 3), (Some (bytes ''k''), 1), (Some [48], 1), (Some [48], 1), (Some [49], 1), (None, 0)]
     NREAD_SET ((mcs_with [])\<lparr>errno := ERANGE\<rparr>) = Some s' \<and> written s' = bad_format @ [13, 10]"
proof -
  have "room (length bad_format + 2) ((mcs_with [])\<lparr>errno := ERANGE\<rparr>)"
    by (simp add: room_def mcs_with_def buffer_init_def bad_format_def bytes_def)
  then show ?thesis
    using erange_sticks [of "(mcs_with [])\<lparr>errno := ERANGE\<rparr>"
      "[(Some (bytes ''set''), 3), (Some (bytes ''k''), 1), (Some [48], 1), (Some [48], 1), (Some [49], 1), (None, 0)]" os2 NREAD_SET]
    by (simp add: KEY_MAX_LENGTH_def written_def) (auto simp: mcs_with_def buffer_init_def)
qed

end
