(* ===== verification/Pubsub.thy ===== *)
theory Pubsub
  imports Vectors Buffers
begin

text \<open>
  The publish/subscribe service: accounts (\<open>src/src/handler/pubsub/account.c\<close>), topics (\<open>topic.c\<close>), the numbering of
  accounts (\<open>idzen.c\<close>), the commands (\<open>model.c\<close>) and the plain-text front end (\<open>src/src/handler/pubsub.c\<close>).

  Accounts and topics are structs in the heap, reached by address; the vectors of members, of subscribed descriptors and
  of an account's topics hold addresses or descriptors. The lists \<open>accounts\<close> and \<open>topics\<close> (of \<open>common/mini-clist.h\<close>) are
  lists of addresses, the hash table of \<open>idzen.c\<close> (of \<open>common/uthash.h\<close>) is a map. \<open>wrb\<close> and \<open>rdb\<close> are the buffers of
  the descriptors, where \<open>None\<close> is NULL. The dates \<open>created_time\<close> and \<open>last_active\<close>, always 0, and the \<open>id\<close> of a topic, never set,
  are left out. A bad pointer, a failed assertion and an access outside a block give \<open>None\<close>.
  What \<open>malloc\<close> and \<open>realloc\<close> return is the parameter \<open>penv\<close>: addresses, and the contents of a new block of \<open>n\<close> slots.
\<close>

section \<open>State\<close>

type_synonym name = "u8 list"

record account =
  acc_id :: nat
  acc_name :: name
  acc_auth :: name
  sub_lists :: vector
  acc_fds :: vector

record topic =
  top_name :: name
  top_count :: int
  members :: vector
  top_fds :: vector

text \<open>The last fields are used by the HTTP front end only: \<open>fdtab[fd].context\<close>, the parsers (a number stands for a parser's state), the
  packet received last, the cookies with the accounts they belong to, and the state of \<open>rand ()\<close>.\<close>

record session =
  s_url :: "u8 list option"
  s_cookie :: "u8 list option"

record psub =
  acc_heap :: "nat \<rightharpoonup> account"
  accounts :: "nat list"
  top_heap :: "nat \<rightharpoonup> topic"
  topics :: "nat list"
  id_list :: "name \<rightharpoonup> nat"
  wrb :: "nat \<rightharpoonup> buffer"
  rdb :: "nat \<rightharpoonup> buffer"
  wr_enabled :: "nat set"
  p_conn :: int
  p_max_conn :: int
  rd_enabled :: "nat set"
  sessions :: "nat \<rightharpoonup> session"
  parsers :: "nat \<rightharpoonup> nat"
  req_buf :: "u8 list"
  cookie_list :: "(name \<times> nat) list"
  rand_state :: nat

record penv =
  new_account :: "psub \<Rightarrow> nat"
  new_topic :: "psub \<Rightarrow> nat"
  junk :: "nat \<Rightarrow> nat list"

section \<open>Numbering\<close>

definition id_get :: "name \<Rightarrow> psub \<Rightarrow> nat option" where
  "id_get name s = id_list s name"

definition id_zen :: "name \<Rightarrow> psub \<Rightarrow> nat \<times> psub" where
  "id_zen name s =
     (let s1 = (if id_get name s = None then s\<lparr>id_list := (id_list s)(name \<mapsto> 0)\<rparr> else s);
          n = the (id_list s1 name) + 1
      in (n, s1\<lparr>id_list := (id_list s1)(name \<mapsto> n)\<rparr>))"

section \<open>Accounts\<close>

text \<open>The loops over the list; 0 is NULL.\<close>

fun account_by_name :: "(nat \<rightharpoonup> account) \<Rightarrow> name \<Rightarrow> nat list \<Rightarrow> nat option" where
  "account_by_name h name [] = Some 0"
| "account_by_name h name (a # as) = do {
     x \<leftarrow> h a;
     if acc_name x = name then Some a else account_by_name h name as
   }"

definition account_get :: "name \<Rightarrow> psub \<Rightarrow> nat option" where
  "account_get name s = account_by_name (acc_heap s) name (accounts s)"

fun account_by_fd :: "(nat \<rightharpoonup> account) \<Rightarrow> nat \<Rightarrow> nat list \<Rightarrow> nat option" where
  "account_by_fd h fd [] = Some 0"
| "account_by_fd h fd (a # as) = do {
     x \<leftarrow> h a;
     e \<leftarrow> vector_is_exist (acc_fds x) fd;
     if e then Some a else account_by_fd h fd as
   }"

definition account_get_by_fd :: "nat \<Rightarrow> psub \<Rightarrow> nat option" where
  "account_get_by_fd fd s = account_by_fd (acc_heap s) fd (accounts s)"

definition account_create :: "penv \<Rightarrow> name \<Rightarrow> name \<Rightarrow> psub \<Rightarrow> (int \<times> psub) option" where
  "account_create os name auth s = do {
     a \<leftarrow> account_get name s;
     if a \<noteq> 0 then Some (- 1, s)
     else do {
       let n = new_account os s;
       let (i, s1) = id_zen (bytes ''account'') s;
       v1 \<leftarrow> vector_create (junk os 20) 20 2;
       v2 \<leftarrow> vector_create (junk os 20) 20 2;
       Some (int i, s1\<lparr>acc_heap := (acc_heap s1)(n \<mapsto> \<lparr>acc_id = i, acc_name = name, acc_auth = auth, sub_lists = v1, acc_fds = v2\<rparr>),
                       accounts := accounts s1 @ [n]\<rparr>)
     }
   }"

text \<open>\<open>strncmp (acc->auth, auth, strlen (acc->auth))\<close> is 0 exactly when the stored password is a prefix of the one given.\<close>

definition auth_prefix :: "name \<Rightarrow> name \<Rightarrow> bool" where
  "auth_prefix stored given \<longleftrightarrow> take (length stored) given = stored"

definition account_auth :: "name \<Rightarrow> name \<Rightarrow> psub \<Rightarrow> bool option" where
  "account_auth name auth s = do {
     a \<leftarrow> account_get name s;
     if a = 0 then Some False else do { x \<leftarrow> acc_heap s a; Some (auth_prefix (acc_auth x) auth) }
   }"

section \<open>Topics\<close>

fun topic_by_name :: "(nat \<rightharpoonup> topic) \<Rightarrow> name \<Rightarrow> nat list \<Rightarrow> nat option" where
  "topic_by_name h name [] = Some 0"
| "topic_by_name h name (t # ts) = do {
     x \<leftarrow> h t;
     if top_name x = name then Some t else topic_by_name h name ts
   }"

definition topic_get :: "name \<Rightarrow> psub \<Rightarrow> nat option" where
  "topic_get name s = topic_by_name (top_heap s) name (topics s)"

definition topic_create :: "penv \<Rightarrow> name \<Rightarrow> psub \<Rightarrow> (nat \<times> psub) option" where
  "topic_create os name s = do {
     t \<leftarrow> topic_get name s;
     if t \<noteq> 0 then Some (t, s)
     else do {
       let n = new_topic os s;
       v1 \<leftarrow> vector_create (junk os 20) 20 2;
       v2 \<leftarrow> vector_create (junk os 20) 20 2;
       Some (n, s\<lparr>top_heap := (top_heap s)(n \<mapsto> \<lparr>top_name = name, top_count = 0, members = v1, top_fds = v2\<rparr>),
                  topics := topics s @ [n]\<rparr>)
     }
   }"

text \<open>Inserting into and removing from the vectors of a struct; \<open>realloc\<close> gives room for the grown capacity.\<close>

definition vpush :: "penv \<Rightarrow> vector \<Rightarrow> nat \<Rightarrow> vector option" where
  "vpush os v x = vector_insert (junk os (capacity v * growth_factor v + 1)) v x"

definition topic_left :: "nat \<Rightarrow> nat \<Rightarrow> psub \<Rightarrow> psub option" where
  "topic_left t a s = do {
     x \<leftarrow> top_heap s t;
     (_, m) \<leftarrow> vector_remove (members x) a;
     let s1 = s\<lparr>top_heap := (top_heap s)(t \<mapsto> x\<lparr>members := m\<rparr>)\<rparr>;
     y \<leftarrow> acc_heap s1 a;
     (_, l) \<leftarrow> vector_remove (sub_lists y) t;
     Some (s1\<lparr>acc_heap := (acc_heap s1)(a \<mapsto> y\<lparr>sub_lists := l\<rparr>)\<rparr>)
   }"

definition topic_join :: "penv \<Rightarrow> nat \<Rightarrow> nat \<Rightarrow> psub \<Rightarrow> psub option" where
  "topic_join os t a s = do {
     x \<leftarrow> top_heap s t;
     e \<leftarrow> vector_is_exist (members x) a;
     if e then Some s
     else do {
       m \<leftarrow> vpush os (members x) a;
       y \<leftarrow> acc_heap s a;
       l \<leftarrow> vpush os (sub_lists y) t;
       Some (s\<lparr>top_heap := (top_heap s)(t \<mapsto> x\<lparr>members := m\<rparr>), acc_heap := (acc_heap s)(a \<mapsto> y\<lparr>sub_lists := l\<rparr>)\<rparr>)
     }
   }"

definition topic_sub :: "penv \<Rightarrow> nat \<Rightarrow> nat \<Rightarrow> psub \<Rightarrow> psub option" where
  "topic_sub os t fd s = do {
     x \<leftarrow> top_heap s t;
     e \<leftarrow> vector_is_exist (top_fds x) fd;
     if e then Some s
     else do { v \<leftarrow> vpush os (top_fds x) fd; Some (s\<lparr>top_heap := (top_heap s)(t \<mapsto> x\<lparr>top_fds := v\<rparr>)\<rparr>) }
   }"

definition topic_unsub :: "nat \<Rightarrow> nat \<Rightarrow> psub \<Rightarrow> psub option" where
  "topic_unsub t fd s = do {
     x \<leftarrow> top_heap s t;
     (_, v) \<leftarrow> vector_remove (top_fds x) fd;
     Some (s\<lparr>top_heap := (top_heap s)(t \<mapsto> x\<lparr>top_fds := v\<rparr>)\<rparr>)
   }"

text \<open>The loop of \<open>topic_delete\<close>; it tests the size again in each round. The number of rounds is at most the size at its
  start, which is the fuel.\<close>

fun delete_loop :: "nat \<Rightarrow> nat \<Rightarrow> nat \<Rightarrow> psub \<Rightarrow> psub option" where
  "delete_loop 0 t i s = None"
| "delete_loop (Suc fuel) t i s = do {
     x \<leftarrow> top_heap s t;
     if i < vsize (members x) then do {
       a \<leftarrow> vector_access (members x) i;
       if a = 0 then None
       else do { s1 \<leftarrow> topic_left t a s; delete_loop fuel t (i + 1) s1 }
     }
     else Some s
   }"

definition topic_delete :: "name \<Rightarrow> psub \<Rightarrow> (int \<times> psub) option" where
  "topic_delete name s = do {
     t \<leftarrow> topic_get name s;
     if t = 0 then Some (- 1, s)
     else do {
       x \<leftarrow> top_heap s t;
       s1 \<leftarrow> delete_loop (vsize (members x) + 1) t 0 s;
       Some (0, s1\<lparr>topics := remove1 t (topics s1), top_heap := (top_heap s1)(t := None)\<rparr>)
     }
   }"

fun push_all :: "penv \<Rightarrow> nat list \<Rightarrow> vector \<Rightarrow> vector option" where
  "push_all os [] v = Some v"
| "push_all os (x # xs) v = Option.bind (vpush os v x) (push_all os xs)"

definition topic_list :: "penv \<Rightarrow> psub \<Rightarrow> vector option" where
  "topic_list os s = Option.bind (vector_create (junk os 20) 20 2) (push_all os (topics s))"

text \<open>The loop reads the members one by one; NULL among them fails the assertion.\<close>

definition topic_list_user :: "penv \<Rightarrow> name \<Rightarrow> psub \<Rightarrow> vector option" where
  "topic_list_user os name s = do {
     v \<leftarrow> vector_create (junk os 10) 10 2;
     t \<leftarrow> topic_get name s;
     if t = 0 then Some v
     else do {
       x \<leftarrow> top_heap s t;
       if vsize (members x) > length (data (members x)) \<or> 0 \<in> set (contents (members x)) then None
       else push_all os (contents (members x)) v
     }
   }"

end
