(* ===== verification/Pubsub_Commands.thy ===== *)
theory Pubsub_Commands
  imports Pubsub Poller
begin

text \<open>
  The commands of the publish/subscribe service (\<open>src/src/handler/pubsub/model.c\<close>) and its plain-text connections
  (\<open>src/src/handler/pubsub.c\<close>). The commands call \<open>on_response\<close> of a descriptor's
  listener, which is \<open>psub_on_response\<close> in the plain-text service. A command is read from memory: the bytes from the cursor to the end of the block, of which a C
  string is the part before the first NUL; without a NUL the code reads past the block (\<open>None\<close>). What \<open>recv\<close> and \<open>send\<close>
  return are arguments.
\<close>

section \<open>Connections\<close>

definition HTTP_BUFFER_SIZE :: nat where "HTTP_BUFFER_SIZE = 1024"

definition psub_request_accept :: "psub \<Rightarrow> u32" where
  "psub_request_accept s = (if p_conn s \<ge> p_max_conn s then ZB_FAIL else ZB_NOP)"

definition psub_accept :: "u8 list \<Rightarrow> u8 list \<Rightarrow> nat \<Rightarrow> psub \<Rightarrow> u32 \<times> psub" where
  "psub_accept ibl obl nfd s =
     (let s1 = s\<lparr>wrb := (wrb s)(nfd \<mapsto> buffer_init ibl HTTP_BUFFER_SIZE), rdb := (rdb s)(nfd \<mapsto> buffer_init obl HTTP_BUFFER_SIZE)\<rparr>
      in if p_conn s1 \<ge> p_max_conn s1 then (ZB_FAIL, s1) else (ZB_NOP, s1\<lparr>p_conn := p_conn s1 + 1\<rparr>))"

section \<open>Answers\<close>

datatype action =
  ACT_NONE | ACT_ACK | ACT_CREATE | ACT_DELETE | ACT_LIST_TOPIC | ACT_LIST_USER | ACT_SUB | ACT_UNSUB | ACT_PUB
  | ACT_LOGIN | ACT_LOGUP | ACT_REP_SUB | ACT_DBG_COOKIE

datatype ECODE = C_SUCCESS | C_FAIL

text \<open>What \<open>content\<close> points to: a text and its length, or a vector of topics or accounts.\<close>

datatype content = Text "u8 list" | Vec vector

fun psub_lines :: "(nat \<Rightarrow> u8 list option) \<Rightarrow> nat list \<Rightarrow> buffer \<Rightarrow> buffer option" where
  "psub_lines line [] ob = Some ob"
| "psub_lines line (x # xs) ob = do {
     l \<leftarrow> line x;
     (_, ob1) \<leftarrow> buffer_sprintf ob l;
     psub_lines line xs ob1
   }"

definition topic_line :: "psub \<Rightarrow> nat \<Rightarrow> u8 list option" where
  "topic_line s t = do {
     x \<leftarrow> top_heap s t;
     Some (bytes ''> '' @ top_name x @ bytes '' : '' @ digits (vector_size (members x)) @ bytes '' members'' @ [10])
   }"

definition account_line :: "psub \<Rightarrow> nat \<Rightarrow> u8 list option" where
  "account_line s a = do {
     x \<leftarrow> acc_heap s a;
     Some (bytes ''> '' @ acc_name x @ bytes '' : '' @ (if vector_size (acc_fds x) \<noteq> 0 then bytes ''Online'' else bytes ''Offline'') @ [10])
   }"

definition psub_list :: "u8 list \<Rightarrow> (nat \<Rightarrow> u8 list option) \<Rightarrow> vector \<Rightarrow> buffer \<Rightarrow> buffer option" where
  "psub_list hd_line line v ob = do {
     (_, ob1) \<leftarrow> buffer_sprintf ob hd_line;
     if vsize v > length (data v) then None else psub_lines line (contents v) ob1
   }"

definition psub_on_response :: "nat \<Rightarrow> action \<Rightarrow> content \<Rightarrow> psub \<Rightarrow> psub option" where
  "psub_on_response fd act c s = do {
     ob \<leftarrow> wrb s fd;
     ob' \<leftarrow> (case c of
         Vec v \<Rightarrow>
           if act = ACT_LIST_TOPIC
           then psub_list (bytes ''--- List: '' @ digits (vector_size v) @ bytes '' topic'' @ [10]) (topic_line s) v ob
           else psub_list (bytes ''--- Members: '' @ digits (vector_size v) @ bytes '' user'' @ [10]) (account_line s) v ob
       | Text t \<Rightarrow> do { (_, ob1) \<leftarrow> buffer_write ob t; (_, ob2) \<leftarrow> buffer_write ob1 [10]; Some ob2 });
     Some (s\<lparr>wrb := (wrb s)(fd \<mapsto> ob'), wr_enabled := insert fd (wr_enabled s)\<rparr>)
   }"

text \<open>The \<open>on_response\<close> of the handler that owns a descriptor, which the commands call; \<open>psub_on_response\<close> for the descriptors of a
  plain-text listener.\<close>

type_synonym responder = "nat \<Rightarrow> action \<Rightarrow> content \<Rightarrow> psub \<Rightarrow> psub option"

section \<open>Accounts, subscriptions and publication\<close>

definition model_acc_create :: "penv \<Rightarrow> name \<Rightarrow> name \<Rightarrow> psub \<Rightarrow> (ECODE \<times> psub) option" where
  "model_acc_create os user auth s = do {
     (r, s1) \<leftarrow> account_create os user auth s;
     Some (if r < 0 then C_FAIL else C_SUCCESS, s1)
   }"

definition model_acc_auth :: "penv \<Rightarrow> nat \<Rightarrow> name \<Rightarrow> name \<Rightarrow> psub \<Rightarrow> (ECODE \<times> psub) option" where
  "model_acc_auth os fd user auth s = do {
     a \<leftarrow> account_get user s;
     if a = 0 then Some (C_FAIL, s)
     else do {
       x \<leftarrow> acc_heap s a;
       if auth_prefix (acc_auth x) auth
       then do { v \<leftarrow> vpush os (acc_fds x) fd; Some (C_SUCCESS, s\<lparr>acc_heap := (acc_heap s)(a \<mapsto> x\<lparr>acc_fds := v\<rparr>)\<rparr>) }
       else Some (C_FAIL, s)
     }
   }"

definition model_acc_offline :: "nat \<Rightarrow> psub \<Rightarrow> psub option" where
  "model_acc_offline fd s = do {
     a \<leftarrow> account_get_by_fd fd s;
     if a = 0 then Some s
     else do {
       x \<leftarrow> acc_heap s a;
       (_, v) \<leftarrow> vector_remove (acc_fds x) fd;
       Some (s\<lparr>acc_heap := (acc_heap s)(a \<mapsto> x\<lparr>acc_fds := v\<rparr>)\<rparr>)
     }
   }"

definition model_sub :: "penv \<Rightarrow> nat \<Rightarrow> name \<Rightarrow> psub \<Rightarrow> (ECODE \<times> psub) option" where
  "model_sub os fd tn s = do {
     t \<leftarrow> topic_get tn s;
     a \<leftarrow> account_get_by_fd fd s;
     if t \<noteq> 0 \<and> a \<noteq> 0 then do { s1 \<leftarrow> topic_join os t a s; s2 \<leftarrow> topic_sub os t fd s1; Some (C_SUCCESS, s2) }
     else Some (C_FAIL, s)
   }"

definition model_unsub :: "nat \<Rightarrow> name \<Rightarrow> psub \<Rightarrow> (ECODE \<times> psub) option" where
  "model_unsub fd tn s = do {
     t \<leftarrow> topic_get tn s;
     a \<leftarrow> account_get_by_fd fd s;
     if t \<noteq> 0 \<and> a \<noteq> 0 then do { s1 \<leftarrow> topic_left t a s; s2 \<leftarrow> topic_unsub t fd s1; Some (C_SUCCESS, s2) }
     else Some (C_FAIL, s)
   }"

text \<open>The text sent is built in a block of 4096 bytes with \<open>snprintf\<close>; its length is that of the whole text.\<close>

definition pub_text :: "name \<Rightarrow> u8 list \<Rightarrow> u8 list option" where
  "pub_text who msg =
     (let t = who @ bytes '': '' @ msg
      in if length t > 4096 then None else Some (take (length t) (take 4095 t @ [0])))"

text \<open>The loop of \<open>model_pub\<close>, from the last descriptor to the first.\<close>

fun pub_loop :: "responder \<Rightarrow> nat \<Rightarrow> nat \<Rightarrow> nat \<Rightarrow> u8 list \<Rightarrow> psub \<Rightarrow> psub option" where
  "pub_loop on 0 t a msg s = Some s"
| "pub_loop on (Suc i) t a msg s = do {
     x \<leftarrow> top_heap s t;
     cfd \<leftarrow> vector_access (top_fds x) i;
     if wrb s cfd = None
     then do {
       (_, v) \<leftarrow> vector_remove (top_fds x) cfd;
       pub_loop on i t a msg (s\<lparr>top_heap := (top_heap s)(t \<mapsto> x\<lparr>top_fds := v\<rparr>)\<rparr>)
     }
     else do {
       y \<leftarrow> acc_heap s a;
       d \<leftarrow> pub_text (acc_name y) msg;
       s1 \<leftarrow> on cfd ACT_REP_SUB (Text d) s;
       pub_loop on i t a msg s1
     }
   }"

definition model_pub :: "responder \<Rightarrow> nat \<Rightarrow> name \<Rightarrow> u8 list \<Rightarrow> psub \<Rightarrow> (ECODE \<times> psub) option" where
  "model_pub on fd tn msg s = do {
     t \<leftarrow> topic_get tn s;
     a \<leftarrow> account_get_by_fd fd s;
     if t = 0 \<or> a = 0 then Some (C_FAIL, s)
     else do {
       x \<leftarrow> top_heap s t;
       s1 \<leftarrow> pub_loop on (vector_size (top_fds x)) t a msg s;
       Some (C_SUCCESS, s1)
     }
   }"

definition model_topic_create :: "penv \<Rightarrow> nat \<Rightarrow> name \<Rightarrow> psub \<Rightarrow> (ECODE \<times> psub) option" where
  "model_topic_create os fd tn s = do {
     (t, s1) \<leftarrow> topic_create os tn s;
     a \<leftarrow> account_get_by_fd fd s1;
     if t \<noteq> 0 then do { s2 \<leftarrow> topic_sub os t fd s1; Some (C_SUCCESS, s2) } else Some (C_FAIL, s1)
   }"

definition model_topic_delete :: "name \<Rightarrow> psub \<Rightarrow> (ECODE \<times> psub) option" where
  "model_topic_delete tn s = do { (r, s1) \<leftarrow> topic_delete tn s; Some (if r = 0 then C_SUCCESS else C_FAIL, s1) }"

section \<open>The command interpreter\<close>

definition cstr :: "u8 list \<Rightarrow> nat \<Rightarrow> u8 list option" where
  "cstr m ofs = (if 0 \<in> set (drop ofs m) then Some (takeWhile (\<lambda>c. c \<noteq> 0) (drop ofs m)) else None)"

text \<open>\<open>strchr\<close> of the delimiter in the parameter at \<open>ofs\<close>, which a NUL then overwrites: the two parts and the new memory,
  or nothing when the parameter has no delimiter.\<close>

definition split_param :: "u8 list \<Rightarrow> nat \<Rightarrow> u8 \<Rightarrow> (u8 list \<times> u8 list \<times> u8 list) option option" where
  "split_param m ofs delim = do {
     p \<leftarrow> cstr m ofs;
     if delim \<in> set p then do {
       let u = takeWhile (\<lambda>c. c \<noteq> delim) p;
       let m1 = m[ofs + length u := 0];
       v \<leftarrow> cstr m1 (ofs + length u + 1);
       Some (Some (u, v, m1))
     }
     else Some None
   }"

definition COMPARE :: "u8 list \<Rightarrow> string \<Rightarrow> bool" where
  "COMPARE cmd str \<longleftrightarrow> take (length str) cmd = bytes str"

text \<open>The first part of \<open>model_process\<close>: the tests exclude each other, so their sequence is a choice. The result is the
  state flag, the code, the action, the list of a list command, the memory and the service.\<close>

type_synonym outcome = "u32 \<times> ECODE \<times> action \<times> vector option \<times> u8 list \<times> psub"

definition simple :: "action \<Rightarrow> u32 \<Rightarrow> u8 list \<Rightarrow> (ECODE \<times> psub) option \<Rightarrow> outcome option" where
  "simple act st m r = map_option (\<lambda>(ret, s1). (st, ret, act, None, m, s1)) r"

definition model_execute :: "responder \<Rightarrow> penv \<Rightarrow> nat \<Rightarrow> u8 list \<Rightarrow> u8 \<Rightarrow> psub \<Rightarrow> outcome option" where
  "model_execute on os fd m delim s = do {
     cmd \<leftarrow> cstr m 0;
     if COMPARE cmd ''ack'' then Some (ZB_SET_WR, C_SUCCESS, ACT_ACK, None, m, s)
     else if COMPARE cmd ''create'' then Option.bind (cstr m 7) (\<lambda>p. simple ACT_CREATE ZB_SET_WR m (model_topic_create os fd p s))
     else if COMPARE cmd ''delete'' then Option.bind (cstr m 7) (\<lambda>p. simple ACT_DELETE ZB_SET_WR m (model_topic_delete p s))
     else if COMPARE cmd ''list_user'' then do {
       p \<leftarrow> cstr m 10;
       v \<leftarrow> topic_list_user os p s;
       Some (ZB_SET_WR, C_SUCCESS, ACT_LIST_USER, Some v, m, s)
     }
     else if COMPARE cmd ''list'' then do {
       v \<leftarrow> topic_list os s;
       Some (ZB_SET_WR, C_SUCCESS, ACT_LIST_TOPIC, Some v, m, s)
     }
     else if COMPARE cmd ''sub'' then Option.bind (cstr m 4) (\<lambda>p. simple ACT_SUB ZB_NOP m (model_sub os fd p s))
     else if COMPARE cmd ''unsub'' then Option.bind (cstr m 6) (\<lambda>p. simple ACT_UNSUB ZB_SET_WR m (model_unsub fd p s))
     else if COMPARE cmd ''pub'' then do {
       sp \<leftarrow> split_param m 4 delim;
       case sp of
         Some (t, msg, m1) \<Rightarrow> simple ACT_PUB ZB_SET_WR m1 (model_pub on fd t msg s)
       | None \<Rightarrow> Some (ZB_SET_WR, C_SUCCESS, ACT_PUB, None, m, s)
     }
     else if COMPARE cmd ''login'' then do {
       sp \<leftarrow> split_param m 6 delim;
       case sp of
         Some (user, auth, m1) \<Rightarrow> simple ACT_LOGIN ZB_SET_WR m1 (model_acc_auth os fd user auth s)
       | None \<Rightarrow> Some (ZB_CLOSE, C_SUCCESS, ACT_LOGIN, None, m, s)
     }
     else if COMPARE cmd ''logup'' then do {
       sp \<leftarrow> split_param m 6 delim;
       case sp of
         Some (user, auth, m1) \<Rightarrow> simple ACT_LOGUP ZB_SET_WR m1 (model_acc_create os user auth s)
       | None \<Rightarrow> Some (ZB_CLOSE, C_SUCCESS, ACT_LOGUP, None, m, s)
     }
     else if COMPARE cmd ''cookie'' then Some (ZB_SET_WR, C_SUCCESS, ACT_DBG_COOKIE, None, m, s)
     else Some (ZB_SET_WR, C_SUCCESS, ACT_NONE, None, m, s)
   }"

text \<open>The answer; \<open>error_incorrect\<close> has 1024 bytes, into which \<open>sprintf\<close> writes the command, 18 other characters and a NUL.\<close>

definition model_process :: "responder \<Rightarrow> penv \<Rightarrow> nat \<Rightarrow> u8 list \<Rightarrow> u8 \<Rightarrow> psub \<Rightarrow> (u32 \<times> u8 list \<times> psub) option" where
  "model_process on os fd m delim s = do {
     (st, ret, act, rep, m1, s1) \<leftarrow> model_execute on os fd m delim s;
     if act = ACT_SUB \<and> ret = C_SUCCESS then Some (st, m1, s1)
     else do {
       cmd \<leftarrow> cstr m1 0;
       c \<leftarrow> (case rep of
           Some v \<Rightarrow> Some (Vec v)
         | None \<Rightarrow>
             if act = ACT_NONE
             then (if length cmd + 19 > 1024 then None else Some (Text (bytes ''incorrect param: '' @ cmd @ [10])))
             else Some (Text (if ret = C_SUCCESS then bytes ''success'' else bytes ''error'')));
       s2 \<leftarrow> on fd act c s1;
       Some (st, m1, s2)
     }
   }"

section \<open>Reading and writing\<close>

definition psub_disconnect :: "nat \<Rightarrow> psub \<Rightarrow> (u32 \<times> psub) option" where
  "psub_disconnect fd s = map_option (Pair ZB_NOP)
     (model_acc_offline fd (s\<lparr>rdb := (rdb s)(fd := None), p_conn := p_conn s - 1\<rparr>))"

definition format_msg :: "u8 list \<Rightarrow> u8 list" where
  "format_msg = map (\<lambda>c. if c = 10 \<or> c = 13 then 0 else c)"

text \<open>The loop of \<open>process_plain_text\<close>, where \<open>left\<close> is \<open>len - count\<close>.\<close>

function plain_loop :: "penv \<Rightarrow> nat \<Rightarrow> nat \<Rightarrow> u32 \<Rightarrow> psub \<Rightarrow> (u32 \<times> psub) option" where
  "plain_loop os fd left ret s =
     (if left = 0 then Some (ret, s)
      else do {
        ib \<leftarrow> rdb s fd;
        let m = drop (curr_ofs ib) (buff ib);
        req \<leftarrow> cstr m 0;
        (ret1, m1, s1) \<leftarrow> model_process psub_on_response os fd m 32 s;
        let inc = (if length req + 2 \<le> left then length req + 2 else left);
        plain_loop os fd (left - inc) ret1
          (s1\<lparr>rdb := (rdb s1)(fd \<mapsto> ib\<lparr>buff := take (curr_ofs ib) (buff ib) @ m1, curr_ofs := curr_ofs ib + inc\<rparr>)\<rparr>)
      })"
  by auto

termination
  by (relation "measure (\<lambda>(os, fd, left, ret, s). left)") auto

declare plain_loop.simps [simp del]

definition process_plain_text :: "penv \<Rightarrow> nat \<Rightarrow> psub \<Rightarrow> (u32 \<times> psub) option" where
  "process_plain_text os fd s = do {
     ib \<leftarrow> rdb s fd;
     let len = r_ofs ib - curr_ofs ib;
     let bl = take (curr_ofs ib) (buff ib) @ format_msg (take len (drop (curr_ofs ib) (buff ib))) @ drop (curr_ofs ib + len) (buff ib);
     (ret, s1) \<leftarrow> plain_loop os fd len ZB_NOP (s\<lparr>rdb := (rdb s)(fd \<mapsto> ib\<lparr>buff := bl\<rparr>)\<rparr>);
     ib1 \<leftarrow> rdb s1 fd;
     Some (ret, if buffer_empty ib1 then s1\<lparr>rdb := (rdb s1)(fd \<mapsto> buffer_reset ib1)\<rparr> else s1)
   }"

definition psub_read :: "penv \<Rightarrow> nat \<Rightarrow> (nat \<Rightarrow> u8 list option) \<Rightarrow> psub \<Rightarrow> (u32 \<times> psub) option" where
  "psub_read os fd recv s = do {
     ib \<leftarrow> rdb s fd;
     case recv (nat (buffer_remain_write ib)) of
       Some d \<Rightarrow>
         (if d = [] then Some (ZB_CLOSE, s)
          else do {
            bl \<leftarrow> Buffers.store (r_ofs ib) d (buff ib);
            process_plain_text os fd (s\<lparr>rdb := (rdb s)(fd \<mapsto> ib\<lparr>buff := bl, r_ofs := r_ofs ib + length d\<rparr>)\<rparr>)
          })
     | None \<Rightarrow> Some (ZB_CLOSE, s)
   }"

definition psub_write :: "nat \<Rightarrow> (u8 list \<Rightarrow> int) \<Rightarrow> psub \<Rightarrow> (u32 \<times> psub) option" where
  "psub_write fd send s = do {
     ob \<leftarrow> wrb s fd;
     let n = send (pending ob);
     if n > 0
     then let ob1 = ob\<lparr>curr_ofs := curr_ofs ob + nat n\<rparr>
          in if buffer_empty ob1 then Some (ZB_CLOSE_WR, s\<lparr>wrb := (wrb s)(fd \<mapsto> buffer_reset ob1)\<rparr>)
             else Some (ZB_SET_WR, s\<lparr>wrb := (wrb s)(fd \<mapsto> ob1)\<rparr>)
     else Some (ZB_CLOSE, s)
   }"

end
