(* ===== verification/Pubsub_Spec.thy ===== *)
theory Pubsub_Spec
  imports Pubsub_Commands
begin

text \<open>
  Theorems on the commands of the publish/subscribe service: what answers and publications write into the buffers, which
  descriptors a publication serves and drops, what happens when a descriptor is reused, and which passwords log in.
\<close>

definition env_ok :: "penv \<Rightarrow> bool" where
  "env_ok os \<longleftrightarrow> (\<forall>n. length (junk os n) = n)"

lemma vpush_ok:
  assumes "env_ok os" and "vector_ok v" and "x \<noteq> 0"
  shows "\<exists>v'. vpush os v x = Some v' \<and> vector_ok v' \<and> contents v' = contents v @ [x]"
  using assms unfolding vpush_def env_ok_def by (intro vector_insert_ok) auto

section \<open>Publication\<close>

text \<open>The line a subscriber gets, and what writing it does to a buffer with room for it.\<close>

definition takes :: "buffer \<Rightarrow> u8 list \<Rightarrow> bool" where
  "takes b t \<longleftrightarrow> buffer_ok b \<and> int (length t) + 1 < buffer_remain_write b"

text \<open>The buffer \<open>b'\<close> holds the line \<open>t\<close> after what \<open>b\<close> held.\<close>

definition got :: "buffer \<Rightarrow> u8 list \<Rightarrow> buffer \<Rightarrow> bool" where
  "got b t b' \<longleftrightarrow> buffer_ok b' \<and> pending b' = pending b @ t @ [10] \<and>
     buffer_remain_write b' = buffer_remain_write b - int (length t) - 1"

lemma answer_fits:
  assumes "wrb s fd = Some b" and "takes b t" and "act \<noteq> ACT_LIST_TOPIC"
  shows "\<exists>b'. psub_on_response fd act (Text t) s = Some (s\<lparr>wrb := (wrb s)(fd \<mapsto> b'), wr_enabled := insert fd (wr_enabled s)\<rparr>) \<and>
    got b t b'"
proof -
  from buffer_write_spec [of b t] assms(2) obtain r1 b1 where b1: "buffer_write b t = Some (r1, b1)" "buffer_ok b1"
    "pending b1 = pending b @ t" "buffer_remain_write b1 = buffer_remain_write b - int (length t)"
    by (auto simp: takes_def split: if_splits)
  moreover from buffer_write_spec [OF b1(2), of "[10]"] obtain r2 b2 where "buffer_write b1 [10] = Some (r2, b2)" "buffer_ok b2"
    "pending b2 = pending b1 @ [10]" "buffer_remain_write b2 = buffer_remain_write b1 - 1"
    using b1(4) assms(2) by (auto simp: takes_def split: if_splits)
  ultimately show ?thesis using assms(1) by (intro exI [of _ b2]) (simp add: psub_on_response_def got_def)
qed

text \<open>The state after the loop has served the descriptors \<open>F\<close>: each got the line, no other buffer changed.\<close>

definition served :: "nat set \<Rightarrow> u8 list \<Rightarrow> psub \<Rightarrow> psub \<Rightarrow> bool" where
  "served F t s s' \<longleftrightarrow>
     (\<forall>f. case wrb s f of
        None \<Rightarrow> wrb s' f = None
      | Some b \<Rightarrow> if f \<in> F then \<exists>b'. wrb s' f = Some b' \<and> got b t b' else wrb s' f = Some b) \<and>
     wr_enabled s' = wr_enabled s \<union> {f \<in> F. wrb s f \<noteq> None} \<and> acc_heap s' = acc_heap s \<and> accounts s' = accounts s \<and>
     topics s' = topics s \<and> rdb s' = rdb s"

lemma served_at:
  assumes "served F t s s'" and "wrb s f = Some b" and "f \<in> F"
  shows "\<exists>b'. wrb s' f = Some b' \<and> got b t b'"
  using assms unfolding served_def by (auto dest: spec [of _ f])

lemma served_other:
  assumes "served F t s s'" and "wrb s f = None \<or> f \<notin> F"
  shows "wrb s' f = wrb s f"
  using assms unfolding served_def by (auto split: option.splits dest: spec [of _ f])

lemma served_deliver:
  assumes "wrb s g = Some b" and "got b t b'" and "g \<notin> G"
    and "served G t (s\<lparr>wrb := (wrb s)(g \<mapsto> b'), wr_enabled := insert g (wr_enabled s)\<rparr>) s'"
  shows "served (insert g G) t s s'"
proof -
  have f: "case wrb s f of
        None \<Rightarrow> wrb s' f = None
      | Some b \<Rightarrow> if f \<in> insert g G then \<exists>b'. wrb s' f = Some b' \<and> got b t b' else wrb s' f = Some b" for f
    using assms unfolding served_def by (cases "f = g") (auto split: option.splits dest: spec [of _ f])
  have "wr_enabled s' = wr_enabled s \<union> {f \<in> insert g G. wrb s f \<noteq> None}"
    using assms unfolding served_def by auto
  then show ?thesis using f assms(4) unfolding served_def by simp
qed

lemma served_closed:
  assumes "wrb s g = None" and "served G t (s\<lparr>top_heap := h\<rparr>) s'"
  shows "served (insert g G) t s s'"
proof -
  have "case wrb s f of
        None \<Rightarrow> wrb s' f = None
      | Some b \<Rightarrow> if f \<in> insert g G then \<exists>b'. wrb s' f = Some b' \<and> got b t b' else wrb s' f = Some b" for f
    using assms unfolding served_def by (cases "f = g") (auto split: option.splits dest: spec [of _ f])
  moreover have "{f \<in> insert g G. wrb s f \<noteq> None} = {f \<in> G. wrb s f \<noteq> None}" using assms(1) by auto
  ultimately show ?thesis using assms(2) unfolding served_def by simp
qed

definition fds_of :: "psub \<Rightarrow> nat \<Rightarrow> nat list" where
  "fds_of s t = contents (top_fds (the (top_heap s t)))"

text \<open>A topic whose vector of descriptors is in order, with the slot that a removal reads.\<close>

definition topic_fds_ok :: "psub \<Rightarrow> nat \<Rightarrow> bool" where
  "topic_fds_ok s t \<longleftrightarrow> (\<exists>x. top_heap s t = Some x \<and> vector_ok (top_fds x) \<and> distinct (contents (top_fds x)) \<and>
     vsize (top_fds x) < capacity (top_fds x))"

lemma pub_text_short: "length who + length msg + 2 \<le> 4095 \<Longrightarrow> pub_text who msg = Some (who @ bytes '': '' @ msg)"
  by (simp add: pub_text_def bytes_def)

lemma pub_loop_ok:
  assumes "topic_fds_ok s t" and "i \<le> vsize (top_fds (the (top_heap s t)))" and "acc_heap s a = Some y"
    and "length (acc_name y) + length msg + 2 \<le> 4095" and "d = acc_name y @ bytes '': '' @ msg"
    and "\<forall>f \<in> set (take i (fds_of s t)). \<forall>b. wrb s f = Some b \<longrightarrow> takes b d"
  shows "\<exists>s'. pub_loop psub_on_response i t a msg s = Some s' \<and> topic_fds_ok s' t \<and> served (set (take i (fds_of s t))) d s s' \<and>
    fds_of s' t = filter (\<lambda>f. wrb s f \<noteq> None) (take i (fds_of s t)) @ drop i (fds_of s t)"
  using assms
proof (induction i arbitrary: s)
  case 0
  then show ?case by (auto simp: served_def split: option.splits)
next
  case (Suc i)
  from Suc.prems(1) obtain x where x: "top_heap s t = Some x" "vector_ok (top_fds x)" "distinct (contents (top_fds x))"
    "vsize (top_fds x) < capacity (top_fds x)" by (auto simp: topic_fds_ok_def)
  let ?F = "contents (top_fds x)"
  have F: "fds_of s t = ?F" using x(1) by (simp add: fds_of_def)
  have i: "i < length ?F" using Suc.prems(2) x(1) length_contents [OF x(2)] by simp
  then have t1: "take (Suc i) ?F = take i ?F @ [?F ! i]" and d1: "drop i ?F = ?F ! i # drop (Suc i) ?F"
    by (simp_all add: take_Suc_conv_app_nth Cons_nth_drop_Suc)
  have out: "?F ! i \<notin> set (take i ?F)" using x(3) i by (metis t1 distinct_take distinct_append disjoint_iff list.set_intros(1))
  have acc: "vector_access (top_fds x) i = Some (?F ! i)" using vector_access_ok [OF x(2)] i length_contents [OF x(2)] by simp
  show ?case
  proof (cases "wrb s (?F ! i)")
    case None
    from vector_remove_ok [OF x(2) _ x(4)] i obtain v where v: "vector_remove (top_fds x) (?F ! i) = Some (0, v)" "vector_ok v"
      "contents v = remove1 (?F ! i) ?F" by force
    let ?s = "s\<lparr>top_heap := (top_heap s)(t \<mapsto> x\<lparr>top_fds := v\<rparr>)\<rparr>"
    have cv: "contents v = take i ?F @ drop (Suc i) ?F" using remove1_first [OF i refl out] v(3) by simp
    have lv: "vsize v = vsize (top_fds x) - 1" using arg_cong [OF cv, of length] i length_contents [OF v(2)] length_contents [OF x(2)] by simp
    have ok: "topic_fds_ok ?s t"
      using v x(3,4) vector_remove_capacity [OF v(1)] lv by (auto simp: topic_fds_ok_def)
    have F': "fds_of ?s t = take i ?F @ drop (Suc i) ?F" using cv by (simp add: fds_of_def)
    then have tk: "take i (fds_of ?s t) = take i ?F" "drop i (fds_of ?s t) = drop (Suc i) ?F" using i by simp_all
    have le: "i \<le> vsize (top_fds (the (top_heap ?s t)))" using lv i length_contents [OF x(2)] by simp
    obtain s' where s': "pub_loop psub_on_response i t a msg ?s = Some s'" "topic_fds_ok s' t" "served (set (take i ?F)) d ?s s'"
      "fds_of s' t = filter (\<lambda>f. wrb ?s f \<noteq> None) (take i ?F) @ drop (Suc i) ?F"
      using Suc.IH [OF ok le] Suc.prems(3-6) unfolding tk F t1 by auto
    have "pub_loop psub_on_response (Suc i) t a msg s = Some s'" using x(1) acc None v(1) s'(1) by simp
    moreover have "served (set (take (Suc i) ?F)) d s s'"
      using served_closed [OF None s'(3)] unfolding t1 by simp
    ultimately show ?thesis using s'(2,4) None unfolding F t1 by auto
  next
    case (Some b)
    have "takes b d" using Suc.prems(6) Some unfolding F t1 by simp
    from answer_fits [of s "?F ! i" b d ACT_REP_SUB, OF Some this] obtain b' where
      b': "psub_on_response (?F ! i) ACT_REP_SUB (Text d) s =
        Some (s\<lparr>wrb := (wrb s)(?F ! i \<mapsto> b'), wr_enabled := insert (?F ! i) (wr_enabled s)\<rparr>)" "got b d b'"
      by auto
    let ?s = "s\<lparr>wrb := (wrb s)(?F ! i \<mapsto> b'), wr_enabled := insert (?F ! i) (wr_enabled s)\<rparr>"
    have ok: "topic_fds_ok ?s t" and F': "fds_of ?s t = ?F" using x by (simp_all add: topic_fds_ok_def fds_of_def)
    have "\<forall>f \<in> set (take i (fds_of ?s t)). \<forall>b. wrb ?s f = Some b \<longrightarrow> takes b d"
      using Suc.prems(6) out unfolding F' F t1 by auto
    from Suc.IH [OF ok _ _ Suc.prems(4,5) this] obtain s' where s': "pub_loop psub_on_response i t a msg ?s = Some s'" "topic_fds_ok s' t"
      "served (set (take i ?F)) d ?s s'" "fds_of s' t = filter (\<lambda>f. wrb ?s f \<noteq> None) (take i ?F) @ drop i ?F"
      using Suc.prems(2,3) unfolding F' by auto
    have run: "pub_loop psub_on_response (Suc i) t a msg s = Some s'"
      using x(1) acc Some Suc.prems(3) pub_text_short [OF Suc.prems(4)] Suc.prems(5) b'(1) s'(1) by simp
    have "served (insert (?F ! i) (set (take i ?F))) d s s'" by (rule served_deliver [OF Some b'(2) out s'(3)])
    moreover have "filter (\<lambda>f. wrb ?s f \<noteq> None) (take i ?F) = filter (\<lambda>f. wrb s f \<noteq> None) (take i ?F)"
      using out by (intro filter_cong) auto
    ultimately show ?thesis using run s'(2,4) Some unfolding F t1 d1 by auto
  qed
qed

text \<open>A publication by a logged-in client reaches every descriptor that is subscribed to the topic and has an output
  buffer exactly once, as the line \<open>account: text\<close>, and enables writing to it; no other buffer changes; descriptors without a
  buffer are dropped from the topic, the others stay in their order. This holds when the line has at most 4095 bytes, the buffers
  have room for it and the vector of descriptors has a free slot.\<close>

lemma publish_delivers:
  assumes g: "topic_get tn s = Some t" "t \<noteq> 0" "account_get_by_fd fd s = Some a" "a \<noteq> 0" "acc_heap s a = Some y"
    and t: "topic_fds_ok s t" and d: "d = acc_name y @ bytes '': '' @ msg" "length d \<le> 4095"
    and b: "\<forall>f \<in> set (fds_of s t). \<forall>b. wrb s f = Some b \<longrightarrow> takes b d"
  shows "\<exists>s'. model_pub psub_on_response fd tn msg s = Some (C_SUCCESS, s') \<and> served (set (fds_of s t)) d s s' \<and>
    fds_of s' t = filter (\<lambda>f. wrb s f \<noteq> None) (fds_of s t)"
proof -
  obtain x where x: "top_heap s t = Some x" "vector_ok (top_fds x)" using t by (auto simp: topic_fds_ok_def)
  have all: "take (vsize (top_fds x)) (fds_of s t) = fds_of s t" "drop (vsize (top_fds x)) (fds_of s t) = []"
    using x length_contents [OF x(2)] by (simp_all add: fds_of_def)
  have "length (acc_name y) + length msg + 2 \<le> 4095" using d by (simp add: bytes_def)
  with pub_loop_ok [OF t _ g(5) this d(1), of "vsize (top_fds x)"] b x(1) all
  obtain s' where "pub_loop psub_on_response (vsize (top_fds x)) t a msg s = Some s'" "served (set (fds_of s t)) d s s'"
    "fds_of s' t = filter (\<lambda>f. wrb s f \<noteq> None) (fds_of s t)" by auto
  then show ?thesis using g x(1) by (simp add: model_pub_def vector_size_def)
qed

section \<open>Example\<close>

definition vec :: "nat list \<Rightarrow> vector" where
  "vec xs = \<lparr>data = xs @ [0], growth_factor = 2, vsize = length xs, capacity = length xs + 1\<rparr>"

lemma vec_ok [simp]: "vector_ok (vec xs)" "contents (vec xs) = xs" "vsize (vec xs) < capacity (vec xs)"
  by (simp_all add: vec_def vector_ok_def contents_def)

text \<open>The account \<open>u\<close> is logged in on the descriptor 5; the topic \<open>t\<close> has the descriptors 5, 6 and 7, of which 6 has no buffer.\<close>

definition psub1 :: psub where
  "psub1 = \<lparr>acc_heap = [100 \<mapsto> \<lparr>acc_id = 1, acc_name = bytes ''u'', acc_auth = bytes ''pw'', sub_lists = vec [200], acc_fds = vec [5]\<rparr>],
     accounts = [100], top_heap = [200 \<mapsto> \<lparr>top_name = bytes ''t'', top_count = 0, members = vec [100], top_fds = vec [5, 6, 7]\<rparr>],
     topics = [200], id_list = [bytes ''account'' \<mapsto> 1],
     wrb = [5 \<mapsto> buffer_init (replicate 16 0) 16, 7 \<mapsto> buffer_init (replicate 16 0) 16], rdb = Map.empty, wr_enabled = {},
     p_conn = 2, p_max_conn = 9, rd_enabled = {}, sessions = Map.empty, parsers = Map.empty,
     req_buf = [], cookie_list = [], rand_state = 0\<rparr>"

lemma psub1_fields [simp]:
  "topic_get (bytes ''t'') psub1 = Some 200" "account_get_by_fd 5 psub1 = Some 100" "fds_of psub1 200 = [5, 6, 7]" "topic_fds_ok psub1 200"
  by (simp_all add: psub1_def topic_get_def account_get_by_fd_def vector_exist_ok fds_of_def topic_fds_ok_def)

section \<open>Descriptors used again\<close>

lemma disconnect_keeps:
  assumes "psub_disconnect fd s = Some (r, s1)"
  shows "top_heap s1 = top_heap s" "topics s1 = topics s" "wrb s1 = wrb s"
  using assms by (auto simp: psub_disconnect_def model_acc_offline_def bind_eq_Some_conv split: if_splits)



section \<open>Login\<close>

text \<open>A login succeeds exactly when the password given begins with the stored one, so any text that starts with the password
  logs in and an account with an empty password admits everyone; on success the descriptor is added to those of the account,
  a second time when it was there already, otherwise nothing changes.\<close>

theorem login_prefix:
  assumes "env_ok os" and "account_get user s = Some a" "a \<noteq> 0" "acc_heap s a = Some y" "vector_ok (acc_fds y)" and "fd \<noteq> 0"
  shows "\<exists>s'. model_acc_auth os fd user auth s = Some (if \<exists>rest. auth = acc_auth y @ rest then C_SUCCESS else C_FAIL, s') \<and>
    (if \<exists>rest. auth = acc_auth y @ rest
     then \<exists>y'. acc_heap s' = (acc_heap s)(a \<mapsto> y') \<and> contents (acc_fds y') = contents (acc_fds y) @ [fd] \<and> vector_ok (acc_fds y')
     else s' = s)"
proof -
  have p: "auth_prefix (acc_auth y) auth \<longleftrightarrow> (\<exists>rest. auth = acc_auth y @ rest)"
    unfolding auth_prefix_def by (metis append_eq_conv_conj)
  obtain v where "vpush os (acc_fds y) fd = Some v" "vector_ok v" "contents v = contents (acc_fds y) @ [fd]"
    using vpush_ok [OF assms(1,5,6)] by blast
  then show ?thesis using assms(2-4) unfolding p [symmetric]
    by (cases "auth_prefix (acc_auth y) auth") (auto simp: model_acc_auth_def)
qed

theorem login_prefix_witness:
  "\<exists>s'. model_acc_auth \<lparr>new_account = (\<lambda>_. 0), new_topic = (\<lambda>_. 0), junk = (\<lambda>n. replicate n 0)\<rparr> 7 (bytes ''u'') (bytes ''pwned'') psub1 = Some (C_SUCCESS, s')"
proof -
  let ?os = "\<lparr>new_account = (\<lambda>_. 0), new_topic = (\<lambda>_. 0), junk = (\<lambda>n. replicate n 0)\<rparr>"
  let ?y = "\<lparr>acc_id = 1, acc_name = bytes ''u'', acc_auth = bytes ''pw'', sub_lists = vec [200], acc_fds = vec [5]\<rparr>"
  have "env_ok ?os" by (simp add: env_ok_def)
  moreover have "account_get (bytes ''u'') psub1 = Some 100" "acc_heap psub1 100 = Some ?y"
    by (simp_all add: account_get_def psub1_def)
  moreover have "\<exists>rest. bytes ''pwned'' = bytes ''pw'' @ rest" by (simp add: bytes_def)
  ultimately show ?thesis using login_prefix [of ?os "bytes ''u''" psub1 100 ?y 7 "bytes ''pwned''"] by auto
qed

end
