(* ===== verification/Pubsub_Topics.thy ===== *)
theory Pubsub_Topics
  imports Pubsub_Spec
begin

text \<open>
  Topics and their members: the invariant that ties the members of the topics to the topics of the accounts, the operations that
  keep it, and the deletion of a topic, which does not.
\<close>

section \<open>Vectors with a free slot\<close>

definition vec_room :: "vector \<Rightarrow> bool" where
  "vec_room v \<longleftrightarrow> vector_ok v \<and> vsize v < capacity v"

lemma vec_room_remove:
  assumes "vec_room v"
  shows "\<exists>r v'. vector_remove v x = Some (r, v') \<and> vec_room v' \<and> contents v' = remove1 x (contents v)"
proof (cases "x \<in> set (contents v)")
  case True
  then obtain v' where v': "vector_remove v x = Some (0, v')" "vector_ok v'" "contents v' = remove1 x (contents v)"
    using vector_remove_ok [of v x] assms by (auto simp: vec_room_def)
  have "vsize v' \<le> vsize v"
    using arg_cong [OF v'(3), of length] length_contents [OF v'(2)] length_contents [of v] assms
    by (simp add: length_remove1 vec_room_def)
  then show ?thesis using v' vector_remove_capacity [OF v'(1)] assms by (auto simp: vec_room_def)
next
  case False
  then show ?thesis using vector_remove_missing [of v x] assms by (auto simp: vec_room_def remove1_idem)
qed

section \<open>Members and subscriptions\<close>

definition mem_of :: "psub \<Rightarrow> nat \<Rightarrow> nat list" where
  "mem_of s t = contents (members (the (top_heap s t)))"

definition subs_of :: "psub \<Rightarrow> nat \<Rightarrow> nat list" where
  "subs_of s a = contents (sub_lists (the (acc_heap s a)))"

definition topic_ok :: "psub \<Rightarrow> nat \<Rightarrow> bool" where
  "topic_ok s t \<longleftrightarrow> t \<noteq> 0 \<and> (\<exists>x. top_heap s t = Some x \<and> vector_ok (members x) \<and> vector_ok (top_fds x)) \<and>
     distinct (mem_of s t) \<and> set (mem_of s t) \<subseteq> set (accounts s)"

definition account_ok :: "psub \<Rightarrow> nat \<Rightarrow> bool" where
  "account_ok s a \<longleftrightarrow> a \<noteq> 0 \<and> (\<exists>y. acc_heap s a = Some y \<and> vector_ok (sub_lists y) \<and> vector_ok (acc_fds y)) \<and>
     distinct (subs_of s a) \<and> set (subs_of s a) \<subseteq> set (topics s)"

definition topic_name :: "psub \<Rightarrow> nat \<Rightarrow> name" where
  "topic_name s t = top_name (the (top_heap s t))"

definition account_name :: "psub \<Rightarrow> nat \<Rightarrow> name" where
  "account_name s a = acc_name (the (acc_heap s a))"

text \<open>The invariant: the lists hold distinct, well-formed structs with distinct names, and an account is a member of a topic
  exactly when the topic is among the account's.\<close>

definition psub_inv :: "psub \<Rightarrow> bool" where
  "psub_inv s \<longleftrightarrow>
     (\<forall>t \<in> set (topics s). topic_ok s t) \<and> (\<forall>a \<in> set (accounts s). account_ok s a) \<and>
     distinct (topics s) \<and> distinct (accounts s) \<and>
     inj_on (topic_name s) (set (topics s)) \<and> inj_on (account_name s) (set (accounts s)) \<and>
     (\<forall>t \<in> set (topics s). \<forall>a \<in> set (accounts s). a \<in> set (mem_of s t) \<longleftrightarrow> t \<in> set (subs_of s a))"

lemma topic_by_name_ok:
  "\<forall>t \<in> set ts. t \<noteq> 0 \<and> (\<exists>x. h t = Some x) \<Longrightarrow> \<exists>t. topic_by_name h n ts = Some t \<and>
    (if t = 0 then \<forall>u \<in> set ts. top_name (the (h u)) \<noteq> n else t \<in> set ts \<and> top_name (the (h t)) = n)"
proof (induction ts)
  case (Cons t ts)
  then obtain x where "h t = Some x" by auto
  then show ?case using Cons by (cases "top_name x = n") fastforce+
qed simp

lemma account_by_name_ok:
  "\<forall>a \<in> set as. a \<noteq> 0 \<and> (\<exists>x. h a = Some x) \<Longrightarrow> \<exists>a. account_by_name h n as = Some a \<and>
    (if a = 0 then \<forall>u \<in> set as. acc_name (the (h u)) \<noteq> n else a \<in> set as \<and> acc_name (the (h a)) = n)"
proof (induction as)
  case (Cons a as)
  then obtain x where "h a = Some x" by auto
  then show ?case using Cons by (cases "acc_name x = n") fastforce+
qed simp

lemma topic_get_ok:
  assumes "psub_inv s"
  shows "\<exists>t. topic_get n s = Some t \<and> (if t = 0 then n \<notin> topic_name s ` set (topics s) else t \<in> set (topics s) \<and> topic_name s t = n)"
proof -
  have "\<forall>t \<in> set (topics s). t \<noteq> 0 \<and> (\<exists>x. top_heap s t = Some x)"
    using assms by (auto simp: psub_inv_def topic_ok_def)
  from topic_by_name_ok [OF this, of n] show ?thesis unfolding topic_get_def topic_name_def image_iff by metis
qed

lemma account_get_ok:
  assumes "psub_inv s"
  shows "\<exists>a. account_get n s = Some a \<and> (if a = 0 then n \<notin> account_name s ` set (accounts s) else a \<in> set (accounts s) \<and> account_name s a = n)"
proof -
  have "\<forall>a \<in> set (accounts s). a \<noteq> 0 \<and> (\<exists>x. acc_heap s a = Some x)"
    using assms by (auto simp: psub_inv_def account_ok_def)
  from account_by_name_ok [OF this, of n] show ?thesis unfolding account_get_def account_name_def image_iff by metis
qed

section \<open>Joining and leaving\<close>

text \<open>Changing the members of one topic and the topics of one account together.\<close>

definition relink :: "nat \<Rightarrow> topic \<Rightarrow> vector \<Rightarrow> nat \<Rightarrow> account \<Rightarrow> vector \<Rightarrow> psub \<Rightarrow> psub" where
  "relink t x m a y l s =
     s\<lparr>top_heap := (top_heap s)(t \<mapsto> x\<lparr>members := m\<rparr>), acc_heap := (acc_heap s)(a \<mapsto> y\<lparr>sub_lists := l\<rparr>)\<rparr>"

lemma relink_of [simp]:
  "mem_of (relink t x m a y l s) u = (if u = t then contents m else mem_of s u)"
  "subs_of (relink t x m a y l s) b = (if b = a then contents l else subs_of s b)"
  "topics (relink t x m a y l s) = topics s" "accounts (relink t x m a y l s) = accounts s"
  by (simp_all add: relink_def mem_of_def subs_of_def)

lemma psub_inv_relink:
  assumes inv: "psub_inv s" and x: "top_heap s t = Some x" "t \<in> set (topics s)" and y: "acc_heap s a = Some y" "a \<in> set (accounts s)"
    and m: "vector_ok m" "distinct (contents m)" and l: "vector_ok l" "distinct (contents l)"
    and others: "\<And>b. b \<noteq> a \<Longrightarrow> b \<in> set (contents m) \<longleftrightarrow> b \<in> set (mem_of s t)"
      "\<And>u. u \<noteq> t \<Longrightarrow> u \<in> set (contents l) \<longleftrightarrow> u \<in> set (subs_of s a)"
    and both: "a \<in> set (contents m) \<longleftrightarrow> t \<in> set (contents l)"
  shows "psub_inv (relink t x m a y l s)"
proof -
  let ?s = "relink t x m a y l s"
  have names: "topic_name ?s = topic_name s" "account_name ?s = account_name s"
    using x(1) y(1) by (auto simp: topic_name_def account_name_def relink_def)
  have "topic_ok s t" "account_ok s a" using inv x(2) y(2) unfolding psub_inv_def by blast+
  then have in_s: "set (mem_of s t) \<subseteq> set (accounts s)" "set (subs_of s a) \<subseteq> set (topics s)"
    unfolding topic_ok_def account_ok_def by blast+
  have sub: "set (contents m) \<subseteq> set (accounts s)" "set (contents l) \<subseteq> set (topics s)"
    using in_s y(2) x(2) others by (metis subsetI subsetD)+
  have "topic_ok ?s u" if "u \<in> set (topics s)" for u
  proof -
    have "topic_ok s u" using inv that unfolding psub_inv_def by blast
    then show ?thesis using x(1) m sub(1) unfolding topic_ok_def by (cases "u = t") (simp_all, simp_all add: relink_def)
  qed
  moreover have "account_ok ?s b" if "b \<in> set (accounts s)" for b
  proof -
    have "account_ok s b" using inv that unfolding psub_inv_def by blast
    then show ?thesis using y(1) l sub(2) unfolding account_ok_def by (cases "b = a") (simp_all, simp_all add: relink_def)
  qed
  moreover have "b \<in> set (mem_of ?s u) \<longleftrightarrow> u \<in> set (subs_of ?s b)" if "u \<in> set (topics s)" "b \<in> set (accounts s)" for u b
  proof -
    have "b \<in> set (mem_of s u) \<longleftrightarrow> u \<in> set (subs_of s b)" using inv that unfolding psub_inv_def by blast
    then show ?thesis using others(1) [of b] others(2) [of u] both by (cases "u = t"; cases "b = a") simp_all
  qed
  ultimately show ?thesis using inv names by (simp add: psub_inv_def)
qed

lemma psub_invD:
  assumes "psub_inv s" and "t \<in> set (topics s)" and "a \<in> set (accounts s)"
  obtains x y where "top_heap s t = Some x" "vector_ok (members x)" "contents (members x) = mem_of s t" "t \<noteq> 0" "distinct (mem_of s t)"
    "acc_heap s a = Some y" "vector_ok (sub_lists y)" "contents (sub_lists y) = subs_of s a" "a \<noteq> 0" "distinct (subs_of s a)"
    "a \<in> set (mem_of s t) \<longleftrightarrow> t \<in> set (subs_of s a)"
proof -
  have "topic_ok s t" "account_ok s a" "a \<in> set (mem_of s t) \<longleftrightarrow> t \<in> set (subs_of s a)"
    using assms unfolding psub_inv_def by blast+
  then show thesis using that unfolding topic_ok_def account_ok_def by (auto simp: mem_of_def subs_of_def)
qed

lemma topic_join_ok:
  assumes inv: "psub_inv s" and t: "t \<in> set (topics s)" and a: "a \<in> set (accounts s)" and os: "env_ok os"
  shows "\<exists>s'. topic_join os t a s = Some s' \<and> psub_inv s' \<and>
    (\<forall>u. set (mem_of s' u) = (if u = t then insert a (set (mem_of s t)) else set (mem_of s u)))"
proof -
  from psub_invD [OF inv t a] obtain x y where x: "top_heap s t = Some x" "vector_ok (members x)" "contents (members x) = mem_of s t"
    "t \<noteq> 0" "distinct (mem_of s t)" and y: "acc_heap s a = Some y" "vector_ok (sub_lists y)" "contents (sub_lists y) = subs_of s a"
    "a \<noteq> 0" "distinct (subs_of s a)" and both: "a \<in> set (mem_of s t) \<longleftrightarrow> t \<in> set (subs_of s a)" by metis
  show ?thesis
  proof (cases "a \<in> set (mem_of s t)")
    case True
    then show ?thesis using inv x by (auto simp: topic_join_def vector_exist_ok)
  next
    case False
    obtain m where m: "vpush os (members x) a = Some m" "vector_ok m" "contents m = mem_of s t @ [a]"
      using vpush_ok [OF os x(2) y(4)] x(3) by auto
    obtain l where l: "vpush os (sub_lists y) t = Some l" "vector_ok l" "contents l = subs_of s a @ [t]"
      using vpush_ok [OF os y(2) x(4)] y(3) by auto
    have "topic_join os t a s = Some (relink t x m a y l s)"
      using x(1-3) y(1) False m(1) l(1) by (simp add: topic_join_def vector_exist_ok relink_def)
    moreover have "psub_inv (relink t x m a y l s)"
      using False both m l x(5) y(5) by (intro psub_inv_relink [OF inv x(1) t y(1) a]) auto
    ultimately show ?thesis using m(3) by auto
  qed
qed

lemma topic_left_ok:
  assumes x: "top_heap s t = Some x" "vec_room (members x)" and y: "acc_heap s a = Some y" "vec_room (sub_lists y)"
  shows "\<exists>s' m l. topic_left t a s = Some s' \<and>
    s' = relink t x m a y l s \<and>
    vec_room m \<and> contents m = remove1 a (contents (members x)) \<and> vec_room l \<and> contents l = remove1 t (contents (sub_lists y))"
proof -
  obtain r m where m: "vector_remove (members x) a = Some (r, m)" "vec_room m" "contents m = remove1 a (contents (members x))"
    using vec_room_remove [OF x(2)] by blast
  obtain r' l where l: "vector_remove (sub_lists y) t = Some (r', l)" "vec_room l" "contents l = remove1 t (contents (sub_lists y))"
    using vec_room_remove [OF y(2)] by blast
  show ?thesis using x y m l by (auto simp: topic_left_def relink_def)
qed

lemma topic_left_inv:
  assumes inv: "psub_inv s" and t: "t \<in> set (topics s)" and a: "a \<in> set (accounts s)"
    and room: "vec_room (members (the (top_heap s t)))" "vec_room (sub_lists (the (acc_heap s a)))"
  shows "\<exists>s'. topic_left t a s = Some s' \<and> psub_inv s' \<and>
    (\<forall>u. set (mem_of s' u) = (if u = t then set (mem_of s t) - {a} else set (mem_of s u)))"
proof -
  from psub_invD [OF inv t a] obtain x y where x: "top_heap s t = Some x" "contents (members x) = mem_of s t" "distinct (mem_of s t)"
    and y: "acc_heap s a = Some y" "contents (sub_lists y) = subs_of s a" "distinct (subs_of s a)"
    and both: "a \<in> set (mem_of s t) \<longleftrightarrow> t \<in> set (subs_of s a)" by metis
  from topic_left_ok [OF x(1) _ y(1)] room x(1) y(1) obtain m l where
    r: "topic_left t a s = Some (relink t x m a y l s)" "vec_room m" "contents m = remove1 a (mem_of s t)"
      "vec_room l" "contents l = remove1 t (subs_of s a)" unfolding x(2) y(2) by auto
  have "psub_inv (relink t x m a y l s)"
    using r x(3) y(3) by (intro psub_inv_relink [OF inv x(1) t y(1) a]) (auto simp: vec_room_def)
  then show ?thesis using r x(3) by auto
qed

section \<open>New topics and accounts\<close>

definition fresh_env :: "penv \<Rightarrow> psub \<Rightarrow> bool" where
  "fresh_env os s \<longleftrightarrow> env_ok os \<and> new_topic os s \<noteq> 0 \<and> new_topic os s \<notin> set (topics s) \<and>
     new_account os s \<noteq> 0 \<and> new_account os s \<notin> set (accounts s)"

lemma psub_inv_new_topic:
  assumes inv: "psub_inv s" and n: "t \<noteq> 0" "t \<notin> set (topics s)" "top_name x \<notin> topic_name s ` set (topics s)"
    and x: "vector_ok (members x)" "contents (members x) = []" "vector_ok (top_fds x)"
  shows "psub_inv (s\<lparr>top_heap := (top_heap s)(t \<mapsto> x), topics := topics s @ [t]\<rparr>)"
proof -
  let ?s = "s\<lparr>top_heap := (top_heap s)(t \<mapsto> x), topics := topics s @ [t]\<rparr>"
  have old: "\<forall>u \<in> set (topics s). topic_ok s u" "\<forall>a \<in> set (accounts s). account_ok s a" "inj_on (topic_name s) (set (topics s))"
    "inj_on (account_name s) (set (accounts s))" "distinct (topics s)" "distinct (accounts s)"
    "\<forall>u \<in> set (topics s). \<forall>a \<in> set (accounts s). a \<in> set (mem_of s u) \<longleftrightarrow> u \<in> set (subs_of s a)"
    using inv unfolding psub_inv_def by blast+
  have of: "mem_of ?s u = (if u = t then [] else mem_of s u)" "topic_name ?s u = (if u = t then top_name x else topic_name s u)"
    "subs_of ?s a = subs_of s a" "account_name ?s a = account_name s a" for u a
    using x(2) by (simp_all add: mem_of_def topic_name_def subs_of_def account_name_def)
  have "topic_ok ?s u" if "u \<in> set (topics ?s)" for u
    using old(1) that n(1) x unfolding topic_ok_def of by auto
  moreover have "account_ok ?s a" if "a \<in> set (accounts s)" for a
    using old(2) that unfolding account_ok_def of by auto
  moreover have "inj_on (topic_name ?s) (set (topics ?s))"
    using old(3) n(2,3) by (auto simp: inj_on_def of image_iff)
  moreover have "inj_on (account_name ?s) (set (accounts s))" using old(4) by (simp add: inj_on_def of)
  moreover have "a \<in> set (mem_of ?s u) \<longleftrightarrow> u \<in> set (subs_of ?s a)" if "u \<in> set (topics ?s)" "a \<in> set (accounts s)" for u a
  proof (cases "u = t")
    case True
    have "set (subs_of s a) \<subseteq> set (topics s)" using old(2) that(2) unfolding account_ok_def by blast
    then show ?thesis using True n(2) by (auto simp: of)
  next
    case False
    then show ?thesis using old(7) that by (simp add: of)
  qed
  ultimately show ?thesis using old(5,6) n(2) by (simp add: psub_inv_def)
qed

lemma psub_inv_new_account:
  assumes inv: "psub_inv s" and n: "a \<noteq> 0" "a \<notin> set (accounts s)" "acc_name y \<notin> account_name s ` set (accounts s)"
    and y: "vector_ok (sub_lists y)" "contents (sub_lists y) = []" "vector_ok (acc_fds y)"
  shows "psub_inv (s\<lparr>id_list := ids, acc_heap := (acc_heap s)(a \<mapsto> y), accounts := accounts s @ [a]\<rparr>)"
proof -
  let ?s = "s\<lparr>id_list := ids, acc_heap := (acc_heap s)(a \<mapsto> y), accounts := accounts s @ [a]\<rparr>"
  have old: "\<forall>u \<in> set (topics s). topic_ok s u" "\<forall>b \<in> set (accounts s). account_ok s b" "inj_on (topic_name s) (set (topics s))"
    "inj_on (account_name s) (set (accounts s))" "distinct (topics s)" "distinct (accounts s)"
    "\<forall>u \<in> set (topics s). \<forall>b \<in> set (accounts s). b \<in> set (mem_of s u) \<longleftrightarrow> u \<in> set (subs_of s b)"
    using inv unfolding psub_inv_def by blast+
  have of: "subs_of ?s b = (if b = a then [] else subs_of s b)" "account_name ?s b = (if b = a then acc_name y else account_name s b)"
    "mem_of ?s u = mem_of s u" "topic_name ?s u = topic_name s u" for u b
    using y(2) by (simp_all add: mem_of_def topic_name_def subs_of_def account_name_def)
  have "account_ok ?s b" if "b \<in> set (accounts ?s)" for b
    using old(2) that n(1) y unfolding account_ok_def of by auto
  moreover have "topic_ok ?s u" if "u \<in> set (topics s)" for u
    using old(1) that unfolding topic_ok_def of by auto
  moreover have "inj_on (account_name ?s) (set (accounts ?s))"
    using old(4) n(2,3) by (auto simp: inj_on_def of image_iff)
  moreover have "inj_on (topic_name ?s) (set (topics s))" using old(3) by (simp add: inj_on_def of)
  moreover have "b \<in> set (mem_of ?s u) \<longleftrightarrow> u \<in> set (subs_of ?s b)" if "u \<in> set (topics s)" "b \<in> set (accounts ?s)" for u b
  proof (cases "b = a")
    case True
    have "set (mem_of s u) \<subseteq> set (accounts s)" using old(1) that(1) unfolding topic_ok_def by blast
    then show ?thesis using True n(2) by (auto simp: of)
  next
    case False
    then show ?thesis using old(7) that by (simp add: of)
  qed
  ultimately show ?thesis using old(5,6) n(2) by (simp add: psub_inv_def)
qed

lemma topic_create_ok:
  assumes inv: "psub_inv s" and os: "fresh_env os s"
  shows "\<exists>t s'. topic_create os n s = Some (t, s') \<and> psub_inv s' \<and> t \<in> set (topics s') \<and> topic_name s' t = n \<and>
    (n \<in> topic_name s ` set (topics s) \<longrightarrow> s' = s)"
proof -
  from topic_get_ok [OF inv, of n] obtain t where t: "topic_get n s = Some t"
    "if t = 0 then n \<notin> topic_name s ` set (topics s) else t \<in> set (topics s) \<and> topic_name s t = n" by blast
  show ?thesis
  proof (cases "t = 0")
    case False
    then show ?thesis using t inv by (simp add: topic_create_def)
  next
    case True
    have j: "length (junk os 20) = 20" using os by (simp add: fresh_env_def env_ok_def)
    obtain v where v: "vector_create (junk os 20) 20 2 = Some v" "vector_ok v" "contents v = []"
      using vector_create_ok [OF j, of 2] by auto
    let ?x = "\<lparr>top_name = n, top_count = 0, members = v, top_fds = v\<rparr>"
    let ?s = "s\<lparr>top_heap := (top_heap s)(new_topic os s \<mapsto> ?x), topics := topics s @ [new_topic os s]\<rparr>"
    have "psub_inv ?s" using t(2) True os v by (intro psub_inv_new_topic [OF inv]) (simp_all add: fresh_env_def)
    moreover have "topic_create os n s = Some (new_topic os s, ?s)" using t(1) True v(1) by (simp add: topic_create_def Let_def)
    moreover have "topic_name ?s (new_topic os s) = n" by (simp add: topic_name_def)
    ultimately show ?thesis using t(2) True by auto
  qed
qed

lemma account_create_ok:
  assumes inv: "psub_inv s" and os: "fresh_env os s"
  shows "\<exists>r s'. account_create os n p s = Some (r, s') \<and> psub_inv s' \<and> n \<in> account_name s' ` set (accounts s') \<and>
    (r < 0 \<longleftrightarrow> n \<in> account_name s ` set (accounts s)) \<and> (r < 0 \<longrightarrow> s' = s)"
proof -
  from account_get_ok [OF inv, of n] obtain a where a: "account_get n s = Some a"
    "if a = 0 then n \<notin> account_name s ` set (accounts s) else a \<in> set (accounts s) \<and> account_name s a = n" by blast
  show ?thesis
  proof (cases "a = 0")
    case False
    then show ?thesis using a inv by (auto simp: account_create_def)
  next
    case True
    have j: "length (junk os 20) = 20" using os by (simp add: fresh_env_def env_ok_def)
    obtain v where v: "vector_create (junk os 20) 20 2 = Some v" "vector_ok v" "contents v = []"
      using vector_create_ok [OF j, of 2] by auto
    obtain i ids where z: "id_zen (bytes ''account'') s = (i, s\<lparr>id_list := ids\<rparr>)"
      by (cases "id_get (bytes ''account'') s") (auto simp: id_zen_def Let_def)
    let ?y = "\<lparr>acc_id = i, acc_name = n, acc_auth = p, sub_lists = v, acc_fds = v\<rparr>"
    let ?s = "s\<lparr>id_list := ids, acc_heap := (acc_heap s)(new_account os s \<mapsto> ?y), accounts := accounts s @ [new_account os s]\<rparr>"
    have "psub_inv ?s" using a(2) True os v by (intro psub_inv_new_account [OF inv]) (simp_all add: fresh_env_def)
    moreover have "account_create os n p s = Some (int i, ?s)" using a(1) True v(1) z by (simp add: account_create_def Let_def)
    moreover have "account_name ?s (new_account os s) = n" by (simp add: account_name_def)
    ultimately show ?thesis using a(2) True by (auto simp: image_iff)
  qed
qed


section \<open>Deleting a topic\<close>

text \<open>The elements that a loop over the indices passes over when it removes the element at each index.\<close>

fun skipped :: "'a list \<Rightarrow> 'a list" where
  "skipped (x # y # zs) = y # skipped zs"
| "skipped _ = []"

definition can_leave :: "psub \<Rightarrow> nat \<Rightarrow> bool" where
  "can_leave s a \<longleftrightarrow> a \<noteq> 0 \<and> (\<exists>y. acc_heap s a = Some y \<and> vec_room (sub_lists y))"

lemma delete_loop_ok:
  assumes "mem_of s t = p @ q" and "length p = i" and "length q < fuel" and "distinct (p @ q)"
    and "\<exists>x. top_heap s t = Some x \<and> vec_room (members x)" and "\<forall>a \<in> set q. can_leave s a"
  shows "\<exists>s'. delete_loop fuel t i s = Some s' \<and> topics s' = topics s \<and>
    (\<forall>a. subs_of s' a = (if a \<in> set q \<and> a \<notin> set (skipped q) then remove1 t (subs_of s a) else subs_of s a))"
  using assms
proof (induction q arbitrary: p i fuel s rule: length_induct)
  case (1 q)
  from "1.prems"(3) obtain k where k: "fuel = Suc k" by (cases fuel) auto
  from "1.prems"(5) obtain x where x: "top_heap s t = Some x" "vec_room (members x)" by blast
  have c: "contents (members x) = p @ q" "vector_ok (members x)" using "1.prems"(1) x by (simp_all add: mem_of_def vec_room_def)
  have sz: "vsize (members x) = i + length q" using length_contents [OF c(2)] c(1) "1.prems"(2) by simp
  show ?case
  proof (cases q)
    case Nil
    then show ?thesis using k x(1) sz by auto
  next
    case (Cons a r)
    from "1.prems"(6) Cons obtain y where y: "a \<noteq> 0" "acc_heap s a = Some y" "vec_room (sub_lists y)" by (auto simp: can_leave_def)
    have "vector_access (members x) i = Some a"
      using vector_access_ok [OF c(2), of i] sz c(1) Cons "1.prems"(2) by (simp add: nth_append)
    moreover obtain m l where m: "topic_left t a s = Some (relink t x m a y l s)" "vec_room m" "contents m = remove1 a (p @ q)"
      "contents l = remove1 t (subs_of s a)" "vec_room l"
      using topic_left_ok [OF x y(2,3)] c(1) y(2) by (auto simp: subs_of_def)
    ultimately have step: "delete_loop fuel t i s = delete_loop k t (i + 1) (relink t x m a y l s)"
      using k x(1) sz Cons y(1) by simp
    let ?s = "relink t x m a y l s"
    have cm: "contents m = p @ r" using m(3) Cons "1.prems"(4) by (simp add: remove1_append)
    have room: "\<exists>x. top_heap ?s t = Some x \<and> vec_room (members x)" using m(2) by (simp add: relink_def)
    show ?thesis
    proof (cases r)
      case Nil
      then obtain k' where "k = Suc k'" using k "1.prems"(3) Cons by (cases k) auto
      moreover have "vsize m = i" using length_contents [of m] m(2) cm Nil "1.prems"(2) by (simp add: vec_room_def)
      ultimately have "delete_loop k t (i + 1) ?s = Some ?s" by (simp add: relink_def)
      then show ?thesis using step Cons Nil m(4) by auto
    next
      case (Cons b r')
      then have q: "q = a # b # r'" using \<open>q = a # r\<close> by simp
      have dist: "distinct ((p @ [b]) @ r')" "a \<notin> set r'" "a \<noteq> b" "b \<notin> set r'" using "1.prems"(4) q by auto
      have leave: "\<forall>d \<in> set r'. can_leave ?s d"
        using "1.prems"(6) q dist(2) by (auto simp: can_leave_def relink_def)
      have "mem_of ?s t = (p @ [b]) @ r'" using cm Cons by simp
      moreover have "length r' < length q" "length (p @ [b]) = i + 1" "length r' < k" using q "1.prems"(2,3) k by auto
      ultimately obtain s' where s': "delete_loop k t (i + 1) ?s = Some s'" "topics s' = topics ?s"
        "\<forall>d. subs_of s' d = (if d \<in> set r' \<and> d \<notin> set (skipped r') then remove1 t (subs_of ?s d) else subs_of ?s d)"
        using "1.IH" dist(1) room leave by blast
      have sk: "set (skipped r') \<subseteq> set r'" by (induction r' rule: skipped.induct) auto
      have "subs_of s' d = (if d \<in> set q \<and> d \<notin> set (skipped q) then remove1 t (subs_of s d) else subs_of s d)" for d
        using s'(3) q dist sk m(4) by auto
      then show ?thesis using step s'(1,2) by simp
    qed
  qed
qed

text \<open>C24: deleting a topic frees its struct but removes it from the topics of every second member only, because the loop over
  the members skips one each time it removes one: the others keep the address of the freed struct among their topics.\<close>

theorem topic_delete_dangles:
  assumes inv: "psub_inv s" and t: "topic_get n s = Some t" "t \<noteq> 0"
    and room: "vec_room (members (the (top_heap s t)))" "\<forall>a \<in> set (mem_of s t). vec_room (sub_lists (the (acc_heap s a)))"
  shows "\<exists>s'. topic_delete n s = Some (0, s') \<and> topics s' = remove1 t (topics s) \<and> top_heap s' t = None \<and>
    (\<forall>a \<in> set (mem_of s t). t \<in> set (subs_of s' a) \<longleftrightarrow> a \<in> set (skipped (mem_of s t)))"
proof -
  have tt: "t \<in> set (topics s)" using topic_get_ok [OF inv, of n] t by auto
  then have ok: "topic_ok s t" using inv unfolding psub_inv_def by blast
  then obtain x where x: "top_heap s t = Some x" "vector_ok (members x)" "distinct (mem_of s t)" "set (mem_of s t) \<subseteq> set (accounts s)"
    unfolding topic_ok_def by blast
  have acc: "account_ok s a" "t \<in> set (subs_of s a)" if "a \<in> set (mem_of s t)" for a
    using inv tt x(4) that unfolding psub_inv_def by blast+
  have leave: "\<forall>a \<in> set (mem_of s t). can_leave s a"
  proof
    fix a assume a: "a \<in> set (mem_of s t)"
    from acc(1) [OF a] obtain y where "a \<noteq> 0" "acc_heap s a = Some y" unfolding account_ok_def by blast
    then show "can_leave s a" using room(2) a by (auto simp: can_leave_def)
  qed
  have "length (mem_of s t) < vsize (members x) + 1" using length_contents [OF x(2)] x(1) by (simp add: mem_of_def)
  from delete_loop_ok [of s t "[]" "mem_of s t" 0, OF _ _ this _ _ leave] x(1,3) room(1)
  obtain s1 where s1: "delete_loop (vsize (members x) + 1) t 0 s = Some s1" "topics s1 = topics s"
    "\<forall>a. subs_of s1 a = (if a \<in> set (mem_of s t) \<and> a \<notin> set (skipped (mem_of s t)) then remove1 t (subs_of s a) else subs_of s a)" by auto
  let ?s = "s1\<lparr>topics := remove1 t (topics s1), top_heap := (top_heap s1)(t := None)\<rparr>"
  have "topic_delete n s = Some (0, ?s)" using t x(1) s1(1) by (simp add: topic_delete_def)
  moreover have "t \<in> set (subs_of ?s a) \<longleftrightarrow> a \<in> set (skipped (mem_of s t))" if "a \<in> set (mem_of s t)" for a
  proof -
    have "subs_of ?s a = subs_of s1 a" by (simp add: subs_of_def)
    moreover have "distinct (subs_of s a)" using acc(1) [OF that] unfolding account_ok_def by blast
    ultimately show ?thesis using s1(3) that acc(2) [OF that] by simp
  qed
  ultimately show ?thesis using s1(2) by auto
qed

definition penv1 :: penv where
  "penv1 = \<lparr>new_account = (\<lambda>s. if 100 \<in> set (accounts s) then 102 else 100), new_topic = (\<lambda>s. 300), junk = (\<lambda>n. replicate n 0)\<rparr>"

text \<open>A topic with two members.\<close>

definition psub2 :: psub where
  "psub2 = psub1\<lparr>acc_heap := (acc_heap psub1)(101 \<mapsto> \<lparr>acc_id = 2, acc_name = bytes ''x'', acc_auth = [], sub_lists = vec [200], acc_fds = vec []\<rparr>),
     accounts := [100, 101],
     top_heap := [200 \<mapsto> \<lparr>top_name = bytes ''t'', top_count = 0, members = vec [100, 101], top_fds = vec [5]\<rparr>]\<rparr>"

lemma psub2_inv: "psub_inv psub2"
proof -
  have "topic_ok psub2 200" "account_ok psub2 100" "account_ok psub2 101"
    by (simp_all add: psub2_def psub1_def topic_ok_def account_ok_def mem_of_def subs_of_def)
  moreover have "account_name psub2 100 \<noteq> account_name psub2 101" by (simp add: psub2_def psub1_def account_name_def bytes_def)
  moreover have "mem_of psub2 200 = [100, 101]" "subs_of psub2 100 = [200]" "subs_of psub2 101 = [200]" "topics psub2 = [200]"
    "accounts psub2 = [100, 101]"
    by (simp_all add: psub2_def psub1_def mem_of_def subs_of_def)
  ultimately show ?thesis by (simp add: psub_inv_def)
qed


theorem topic_delete_dangles_witness:
  "\<exists>s'. topic_delete (bytes ''t'') psub2 = Some (0, s') \<and> top_heap s' 200 = None \<and> 200 \<in> set (subs_of s' 101)"
proof -
  have "topic_get (bytes ''t'') psub2 = Some 200" and m: "mem_of psub2 200 = [100, 101]"
    and "vec_room (members (the (top_heap psub2 200)))" "\<forall>a \<in> set (mem_of psub2 200). vec_room (sub_lists (the (acc_heap psub2 a)))"
    by (simp_all add: psub2_def psub1_def topic_get_def vec_room_def mem_of_def)
  with topic_delete_dangles [OF psub2_inv, of "bytes ''t''" 200] show ?thesis by auto
qed

end
