(* ===== verification/Pubsub_Requests.thy ===== *)
theory Pubsub_Requests
  imports Pubsub_Spec
begin

text \<open>
  The publish/subscribe service from the bytes of a request to the bytes of its answers: \<open>psub_read\<close> of one line that
  arrives in one packet, composed of \<open>process_plain_text\<close>, \<open>model_process\<close> and the commands.
\<close>

section \<open>One line in one packet\<close>

text \<open>The read buffer of the descriptor is empty, and \<open>recv\<close> returns a line that ends in CR LF.\<close>

definition line_ready :: "nat \<Rightarrow> (nat \<Rightarrow> u8 list option) \<Rightarrow> u8 list \<Rightarrow> psub \<Rightarrow> buffer \<Rightarrow> bool" where
  "line_ready fd recv cmd s ib \<longleftrightarrow> rdb s fd = Some ib \<and> r_ofs ib = 0 \<and> curr_ofs ib = 0 \<and> total ib = HTTP_BUFFER_SIZE \<and>
     length (buff ib) = HTTP_BUFFER_SIZE \<and> recv HTTP_BUFFER_SIZE = Some (cmd @ [13, 10]) \<and> length cmd + 2 \<le> HTTP_BUFFER_SIZE \<and>
     set cmd \<inter> {0, 10, 13} = {}"

text \<open>The memory the interpreter sees, and the state it starts in.\<close>

definition line_mem :: "u8 list \<Rightarrow> buffer \<Rightarrow> u8 list" where
  "line_mem cmd ib = cmd @ 0 # 0 # drop (length cmd + 2) (buff ib)"

definition sent_line_state :: "nat \<Rightarrow> u8 list \<Rightarrow> psub \<Rightarrow> buffer \<Rightarrow> psub" where
  "sent_line_state fd cmd s ib = s\<lparr>rdb := (rdb s)(fd \<mapsto> ib\<lparr>buff := line_mem cmd ib, r_ofs := length cmd + 2\<rparr>)\<rparr>"

lemma sent_line_fields [simp]:
  "wrb (sent_line_state fd cmd s ib) = wrb s" "top_heap (sent_line_state fd cmd s ib) = top_heap s" "topics (sent_line_state fd cmd s ib) = topics s"
  "acc_heap (sent_line_state fd cmd s ib) = acc_heap s" "accounts (sent_line_state fd cmd s ib) = accounts s"
  "wr_enabled (sent_line_state fd cmd s ib) = wr_enabled s"
  by (simp_all add: sent_line_state_def)

lemma takeWhile_stop: "x \<notin> set xs \<Longrightarrow> takeWhile (\<lambda>c. c \<noteq> x) (xs @ x # ys) = xs"
  by (induction xs) auto

lemma cstr_line: "0 \<notin> set xs \<Longrightarrow> cstr (ys @ xs @ 0 # zs) (length ys) = Some xs"
  by (simp add: cstr_def takeWhile_stop)

lemma upd_order: "(b :: buffer)\<lparr>r_ofs := n, buff := x\<rparr> = b\<lparr>buff := x, r_ofs := n\<rparr>"
  by simp

lemma psub_read_line:
  assumes "line_ready fd recv cmd s ib"
  shows "psub_read os fd recv s = map_option
    (\<lambda>(ret, m, s2). (ret, s2\<lparr>rdb := (rdb s2)(fd \<mapsto> ib\<lparr>buff := m, r_ofs := 0, curr_ofs := 0\<rparr>)\<rparr>))
    (model_process psub_on_response os fd (line_mem cmd ib) 32 (sent_line_state fd cmd s ib))"
proof -
  let ?n = "length cmd + 2"
  have ib: "rdb s fd = Some ib" "r_ofs ib = 0" "curr_ofs ib = 0" "nat (buffer_remain_write ib) = HTTP_BUFFER_SIZE" "?n \<le> length (buff ib)"
    "recv HTTP_BUFFER_SIZE = Some (cmd @ [13, 10])"
    using assms by (simp_all add: line_ready_def buffer_remain_write_def)
  have "map (\<lambda>c. if c = 10 \<or> c = 13 then 0 else c) cmd = cmd"
    using assms by (intro map_idI) (auto simp: line_ready_def)
  then have fmt: "format_msg (cmd @ [13, 10]) = cmd @ [0, 0]" by (simp add: format_msg_def)
  have str: "Buffers.store 0 (cmd @ [13, 10]) (buff ib) = Some (cmd @ [13, 10] @ drop ?n (buff ib))"
    using ib(5) by (simp add: store_def)
  have read: "psub_read os fd recv s = process_plain_text os fd
      (s\<lparr>rdb := (rdb s)(fd \<mapsto> ib\<lparr>buff := cmd @ [13, 10] @ drop ?n (buff ib), r_ofs := ?n\<rparr>)\<rparr>)"
    using ib(1,2,4,6) str by (simp add: psub_read_def)
  have tk: "take ?n (cmd @ [13, 10] @ drop ?n (buff ib)) = cmd @ [13, 10]"
    "drop ?n (cmd @ [13, 10] @ drop ?n (buff ib)) = drop ?n (buff ib)" by simp_all
  have plain: "process_plain_text os fd (s\<lparr>rdb := (rdb s)(fd \<mapsto> ib\<lparr>buff := cmd @ [13, 10] @ drop ?n (buff ib), r_ofs := ?n\<rparr>)\<rparr>) =
      Option.bind (plain_loop os fd ?n ZB_NOP (sent_line_state fd cmd s ib))
        (\<lambda>(ret, s1). Option.bind (rdb s1 fd) (\<lambda>ib1.
          Some (ret, if buffer_empty ib1 then s1\<lparr>rdb := (rdb s1)(fd \<mapsto> buffer_reset ib1)\<rparr> else s1)))"
    using fmt by (simp add: process_plain_text_def ib(2,3) Let_def sent_line_state_def line_mem_def upd_order)
  have c: "cstr (line_mem cmd ib) 0 = Some cmd"
    using assms cstr_line [of cmd "[]"] by (simp add: line_mem_def line_ready_def)
  have l: "rdb (sent_line_state fd cmd s ib) fd = Some (ib\<lparr>buff := line_mem cmd ib, r_ofs := ?n\<rparr>)" by (simp add: sent_line_state_def)
  have "plain_loop os fd ?n ZB_NOP (sent_line_state fd cmd s ib) = map_option
      (\<lambda>(ret, m, s2). (ret, s2\<lparr>rdb := (rdb s2)(fd \<mapsto> ib\<lparr>buff := m, r_ofs := ?n, curr_ofs := ?n\<rparr>)\<rparr>))
      (model_process psub_on_response os fd (line_mem cmd ib) 32 (sent_line_state fd cmd s ib))"
    using ib(3) by (subst plain_loop.simps) (cases "model_process psub_on_response os fd (line_mem cmd ib) 32 (sent_line_state fd cmd s ib)",
      auto simp: l c plain_loop.simps [of os fd 0] upd_order)
  then show ?thesis unfolding read plain
    by (cases "model_process psub_on_response os fd (line_mem cmd ib) 32 (sent_line_state fd cmd s ib)") (auto simp: buffer_empty_def buffer_reset_def)
qed

section \<open>Unknown commands\<close>

definition command_words :: "string list" where
  "command_words = [''ack'', ''create'', ''delete'', ''list_user'', ''list'', ''sub'', ''unsub'', ''pub'', ''login'', ''logup'', ''cookie'']"

lemma execute_unknown:
  assumes "cstr m 0 = Some cmd" and "\<forall>k \<in> set command_words. \<not> COMPARE cmd k"
  shows "model_execute psub_on_response os fd m delim s = Some (ZB_SET_WR, C_SUCCESS, ACT_NONE, None, m, s)"
  using assms by (simp add: model_execute_def command_words_def)

text \<open>An unknown command that arrives as one line is answered with \<open>incorrect param:\<close> and its text, and the read buffer is
  emptied, when it has at most 1005 bytes; a longer one, up to the 1022 bytes that fit the read buffer with the line end,
  is written past the end of the 1024 bytes \<open>error_incorrect\<close> has on the stack.\<close>

theorem unknown_command_answer:
  assumes r: "line_ready fd recv cmd s ib" and k: "\<forall>k \<in> set command_words. \<not> COMPARE cmd k" and w: "wrb s fd = Some ob"
  shows "if length cmd \<le> 1005
    then takes ob (bytes ''incorrect param: '' @ cmd @ [10]) \<longrightarrow>
      (\<exists>s' ob' ib'. psub_read os fd recv s = Some (ZB_SET_WR, s') \<and> wrb s' = (wrb s)(fd \<mapsto> ob') \<and>
        pending ob' = pending ob @ bytes ''incorrect param: '' @ cmd @ [10, 10] \<and> rdb s' = (rdb s)(fd \<mapsto> ib') \<and>
        r_ofs ib' = 0 \<and> curr_ofs ib' = 0)
    else psub_read os fd recv s = None"
proof -
  have c: "cstr (line_mem cmd ib) 0 = Some cmd"
    using r cstr_line [of cmd "[]"] by (simp add: line_mem_def line_ready_def)
  note e = execute_unknown [OF c k]
  show ?thesis
  proof (cases "length cmd \<le> 1005 \<and> takes ob (bytes ''incorrect param: '' @ cmd @ [10])")
    case True
    then have l: "length cmd \<le> 1005" and t: "takes ob (bytes ''incorrect param: '' @ cmd @ [10])" by simp_all
    have w': "wrb (sent_line_state fd cmd s ib) fd = Some ob" using w by simp
    from answer_fits [OF w' t, of ACT_NONE] obtain ob' where ob': "psub_on_response fd ACT_NONE (Text (bytes ''incorrect param: '' @ cmd @ [10]))
        (sent_line_state fd cmd s ib) = Some (sent_line_state fd cmd s ib\<lparr>wrb := (wrb s)(fd \<mapsto> ob'), wr_enabled := insert fd (wr_enabled s)\<rparr>)"
      "got ob (bytes ''incorrect param: '' @ cmd @ [10]) ob'" by auto
    define s2 where "s2 = sent_line_state fd cmd s ib\<lparr>wrb := (wrb s)(fd \<mapsto> ob'), wr_enabled := insert fd (wr_enabled s)\<rparr>"
    define ib2 where "ib2 = ib\<lparr>buff := line_mem cmd ib, r_ofs := 0, curr_ofs := 0\<rparr>"
    have "model_process psub_on_response os fd (line_mem cmd ib) 32 (sent_line_state fd cmd s ib) = Some (ZB_SET_WR, line_mem cmd ib, s2)"
      using l by (simp add: model_process_def e c ob'(1) s2_def)
    then have "psub_read os fd recv s = Some (ZB_SET_WR, s2\<lparr>rdb := (rdb s2)(fd \<mapsto> ib2)\<rparr>)"
      by (simp add: psub_read_line [OF r] ib2_def)
    moreover have "wrb s2 = (wrb s)(fd \<mapsto> ob')" "(rdb s2)(fd \<mapsto> ib2) = (rdb s)(fd \<mapsto> ib2)" "r_ofs ib2 = 0" "curr_ofs ib2 = 0"
      by (simp_all add: s2_def ib2_def sent_line_state_def)
    moreover have "pending ob' = pending ob @ bytes ''incorrect param: '' @ cmd @ [10, 10]" using ob'(2) by (simp add: got_def)
    ultimately show ?thesis using l by auto
  next
    case False
    have "psub_read os fd recv s = None" if "\<not> length cmd \<le> 1005"
      using that by (simp add: psub_read_line [OF r] model_process_def e c)
    then show ?thesis using False by auto
  qed
qed

text \<open>Both cases on a fresh connection.\<close>

definition penv0 :: penv where
  "penv0 = \<lparr>new_account = (\<lambda>_. 0), new_topic = (\<lambda>_. 0), junk = (\<lambda>n. replicate n 0)\<rparr>"

definition fresh_conn :: "nat \<Rightarrow> psub \<Rightarrow> psub" where
  "fresh_conn fd s = snd (psub_accept (replicate 1024 0) (replicate 1024 0) fd s)"

lemma fresh_line_ready:
  assumes "set cmd \<inter> {0, 10, 13} = {}" and "length cmd \<le> 1022"
  shows "line_ready fd (\<lambda>_. Some (cmd @ [13, 10])) cmd (fresh_conn fd s) (buffer_init (replicate 1024 0) HTTP_BUFFER_SIZE)"
  using assms by (simp add: line_ready_def fresh_conn_def psub_accept_def Let_def buffer_init_def HTTP_BUFFER_SIZE_def)

theorem unknown_command_answer_witness:
  "(\<exists>s' ob'. psub_read penv0 9 (\<lambda>_. Some (bytes ''help'' @ [13, 10])) (fresh_conn 9 psub1) = Some (ZB_SET_WR, s') \<and>
      wrb s' 9 = Some ob' \<and> pending ob' = bytes ''incorrect param: help'' @ [10, 10]) \<and>
   psub_read penv0 9 (\<lambda>_. Some (replicate 1006 120 @ [13, 10])) (fresh_conn 9 psub1) = None"
proof -
  have r: "line_ready 9 (\<lambda>_. Some (bytes ''help'' @ [13, 10])) (bytes ''help'') (fresh_conn 9 psub1) (buffer_init (replicate 1024 0) HTTP_BUFFER_SIZE)"
    by (rule fresh_line_ready) (simp_all add: bytes_def)
  have k: "\<forall>k \<in> set command_words. \<not> COMPARE (bytes ''help'') k" by (simp add: command_words_def COMPARE_def bytes_def)
  have w: "wrb (fresh_conn 9 psub1) 9 = Some (buffer_init (replicate 1024 0) HTTP_BUFFER_SIZE)"
    by (simp add: fresh_conn_def psub_accept_def Let_def)
  have t: "takes (buffer_init (replicate 1024 0) HTTP_BUFFER_SIZE) (bytes ''incorrect param: '' @ bytes ''help'' @ [10])"
    by (simp add: takes_def buffer_ok_def buffer_init_def buffer_remain_write_def HTTP_BUFFER_SIZE_def bytes_def)
  have l: "length (bytes ''help'') \<le> 1005" by (simp add: bytes_def)
  have "line_ready 9 (\<lambda>_. Some (replicate 1006 120 @ [13, 10])) (replicate 1006 120) (fresh_conn 9 psub1) (buffer_init (replicate 1024 0) HTTP_BUFFER_SIZE)"
    by (rule fresh_line_ready) simp_all
  from unknown_command_answer [OF this _ w, of penv0]
  have "psub_read penv0 9 (\<lambda>_. Some (replicate 1006 120 @ [13, 10])) (fresh_conn 9 psub1) = None"
    by (simp add: command_words_def COMPARE_def bytes_def)
  moreover from unknown_command_answer [OF r k w, of penv0] l t
  have "\<exists>s' ob'. psub_read penv0 9 (\<lambda>_. Some (bytes ''help'' @ [13, 10])) (fresh_conn 9 psub1) = Some (ZB_SET_WR, s') \<and>
      wrb s' 9 = Some ob' \<and> pending ob' = pending (buffer_init (replicate 1024 0) HTTP_BUFFER_SIZE) @ bytes ''incorrect param: '' @ bytes ''help'' @ [10, 10]"
    by fastforce
  ultimately show ?thesis by (simp add: bytes_def buffer_init_def pending_def)
qed

section \<open>Publications\<close>

lemma list_update_at: "(xs @ y # ys)[length xs := z] = xs @ z # ys"
  by (induction xs) auto

lemma split_param_line:
  assumes "delim \<notin> set u" and "0 \<notin> set u" and "0 \<notin> set v" and "delim \<noteq> 0"
  shows "split_param (w @ u @ delim # v @ 0 # zs) (length w) delim = Some (Some (u, v, w @ u @ 0 # v @ 0 # zs))"
proof -
  have "cstr (w @ u @ delim # v @ 0 # zs) (length w) = Some (u @ delim # v)"
    using cstr_line [of "u @ delim # v" w zs] assms by simp
  moreover have "(w @ u @ delim # v @ 0 # zs)[length w + length u := 0] = w @ u @ 0 # v @ 0 # zs"
    using list_update_at [of "w @ u" delim "v @ 0 # zs" 0] by simp
  moreover have "cstr (w @ u @ 0 # v @ 0 # zs) (length w + length u + 1) = Some v"
    using cstr_line [of v "w @ u @ [0]" zs] assms(3) by simp
  ultimately show ?thesis using takeWhile_stop [OF assms(1)] by (simp add: split_param_def)
qed

text \<open>The command that publishes \<open>msg\<close> on the topic \<open>tn\<close>.\<close>

definition pub_cmd :: "name \<Rightarrow> u8 list \<Rightarrow> u8 list" where
  "pub_cmd tn msg = bytes ''pub '' @ tn @ 32 # msg"

lemma pub_prefix:
  "COMPARE (bytes ''pub '' @ cs) ''pub''"
  "k \<in> set command_words \<Longrightarrow> k \<noteq> ''pub'' \<Longrightarrow> \<not> COMPARE (bytes ''pub '' @ cs) k"
  by (auto simp: COMPARE_def bytes_def command_words_def)

lemma execute_pub:
  assumes "32 \<notin> set tn" and "0 \<notin> set tn" and "0 \<notin> set msg" and "model_pub psub_on_response fd tn msg s = Some (C_SUCCESS, s1)"
    and "psub_on_response fd ACT_PUB (Text (bytes ''success'')) s1 = Some s2"
  shows "\<exists>m. model_process psub_on_response os fd (pub_cmd tn msg @ 0 # zs) 32 s = Some (ZB_SET_WR, m, s2)"
proof -
  let ?m = "bytes ''pub '' @ tn @ 32 # msg @ 0 # zs"
  have b: "0 \<notin> set (bytes ''pub '')" "length (bytes ''pub '') = 4" by (simp_all add: bytes_def)
  have m: "pub_cmd tn msg @ 0 # zs = ?m" by (simp add: pub_cmd_def)
  have c: "cstr ?m 0 = Some (bytes ''pub '' @ tn @ 32 # msg)"
    using cstr_line [of "bytes ''pub '' @ tn @ 32 # msg" "[]" zs] b assms by simp
  have sp: "split_param ?m 4 32 = Some (Some (tn, msg, bytes ''pub '' @ tn @ 0 # msg @ 0 # zs))"
    using split_param_line [of 32 tn msg "bytes ''pub ''" zs] assms b by simp
  have "model_execute psub_on_response os fd ?m 32 s = Some (ZB_SET_WR, C_SUCCESS, ACT_PUB, None, bytes ''pub '' @ tn @ 0 # msg @ 0 # zs, s1)"
    unfolding model_execute_def c by (simp add: sp simple_def assms(4) pub_prefix command_words_def)
  moreover have "cstr (bytes ''pub '' @ tn @ 0 # msg @ 0 # zs) 0 = Some (bytes ''pub '' @ tn)"
    using cstr_line [of "bytes ''pub '' @ tn" "[]" "msg @ 0 # zs"] b assms by simp
  ultimately show ?thesis unfolding m by (simp add: model_process_def assms(5))
qed

definition psub3 :: psub where
  "psub3 = psub1\<lparr>wrb := [5 \<mapsto> buffer_init (replicate 1024 0) HTTP_BUFFER_SIZE, 7 \<mapsto> buffer_init (replicate 1024 0) HTTP_BUFFER_SIZE],
     rdb := [5 \<mapsto> buffer_init (replicate 1024 0) HTTP_BUFFER_SIZE]\<rparr>"

text \<open>The buffers after the publication of the line \<open>d\<close> to the descriptors \<open>F\<close>, with the answer to \<open>fd\<close>.\<close>

definition heard :: "nat set \<Rightarrow> u8 list \<Rightarrow> nat \<Rightarrow> (nat \<rightharpoonup> buffer) \<Rightarrow> (nat \<rightharpoonup> buffer) \<Rightarrow> bool" where
  "heard F d fd w w' \<longleftrightarrow> (\<forall>f. case w f of
     None \<Rightarrow> w' f = None
   | Some b \<Rightarrow> \<exists>b'. w' f = Some b' \<and> buffer_ok b' = buffer_ok b \<and>
       pending b' = pending b @ (if f \<in> F then d @ [10] else []) @ (if f = fd then bytes ''success'' @ [10] else []))"

lemma heard_at:
  assumes "heard F d fd w w'" and "w f = Some b"
  shows "\<exists>b'. w' f = Some b' \<and> pending b' = pending b @ (if f \<in> F then d @ [10] else []) @ (if f = fd then bytes ''success'' @ [10] else [])"
  using spec [OF assms(1) [unfolded heard_def], of f] assms(2) by auto

lemma heard_none: "heard F d fd w w' \<Longrightarrow> w f = None \<Longrightarrow> w' f = None"
  unfolding heard_def by (drule spec [of _ f]) simp

lemma answer_publisher:
  assumes v: "served F d s s1" and b: "\<forall>f \<in> F. \<forall>b. wrb s f = Some b \<longrightarrow> takes b d"
    and w: "wrb s fd = Some ob" "takes ob (d @ [10] @ bytes ''success'')"
  shows "\<exists>b2. psub_on_response fd ACT_PUB (Text (bytes ''success'')) s1 =
      Some (s1\<lparr>wrb := (wrb s1)(fd \<mapsto> b2), wr_enabled := insert fd (wr_enabled s1)\<rparr>) \<and>
    heard F d fd (wrb s) ((wrb s1)(fd \<mapsto> b2))"
proof -
  obtain b1 where b1: "wrb s1 fd = Some b1" "takes b1 (bytes ''success'')" "pending b1 = pending ob @ (if fd \<in> F then d @ [10] else [])"
  proof (cases "fd \<in> F")
    case True
    with served_at [OF v w(1)] obtain b' where "wrb s1 fd = Some b'" "got ob d b'" by auto
    then show ?thesis using that [of b'] True w(2) by (auto simp: got_def takes_def)
  next
    case False
    with served_other [OF v, of fd] w(1) have "wrb s1 fd = Some ob" by simp
    then show ?thesis using that [of ob] False w(2) by (auto simp: takes_def)
  qed
  from answer_fits [OF b1(1,2), of ACT_PUB] obtain b2 where
    b2: "psub_on_response fd ACT_PUB (Text (bytes ''success'')) s1 = Some (s1\<lparr>wrb := (wrb s1)(fd \<mapsto> b2), wr_enabled := insert fd (wr_enabled s1)\<rparr>)"
      "got b1 (bytes ''success'') b2" by auto
  have "case wrb s f of None \<Rightarrow> ((wrb s1)(fd \<mapsto> b2)) f = None
       | Some b \<Rightarrow> \<exists>b'. ((wrb s1)(fd \<mapsto> b2)) f = Some b' \<and> buffer_ok b' = buffer_ok b \<and>
           pending b' = pending b @ (if f \<in> F then d @ [10] else []) @ (if f = fd then bytes ''success'' @ [10] else [])" for f
  proof (cases "f = fd \<or> f \<notin> F \<or> wrb s f = None")
    case True
    then show ?thesis using w b1(3) b2(2) served_other [OF v, of f] by (auto simp: got_def takes_def split: option.split)
  next
    case False
    then obtain b where "wrb s f = Some b" by auto
    then show ?thesis using served_at [OF v, of f b] b False by (auto simp: got_def takes_def)
  qed
  then have "heard F d fd (wrb s) ((wrb s1)(fd \<mapsto> b2))" unfolding heard_def by blast
  then show ?thesis using b2(1) by blast
qed

text \<open>C13: the line \<open>pub topic text\<close>, received from a client that is logged in, is delivered as \<open>account: text\<close> exactly once to
  every descriptor that is subscribed to the topic and has an output buffer, in addition to what it held; the publisher is answered
  \<open>success\<close>, no other buffer changes, writing is enabled, the descriptors without a buffer are dropped from the topic
  and the read buffer is emptied. This holds when the line delivered has at most 4095 bytes, the buffers have room for it (the
  publisher's for both lines) and the vector of descriptors has a free slot.\<close>

theorem publish_request:
  assumes r: "line_ready fd recv (pub_cmd tn msg) s ib" and tn: "32 \<notin> set tn"
    and g: "topic_get tn s = Some t" "t \<noteq> 0" "account_get_by_fd fd s = Some a" "a \<noteq> 0" "acc_heap s a = Some y"
    and t: "topic_fds_ok s t" and d: "d = acc_name y @ bytes '': '' @ msg" "length d \<le> 4095"
    and b: "\<forall>f \<in> set (fds_of s t). \<forall>b. wrb s f = Some b \<longrightarrow> takes b d"
    and w: "wrb s fd = Some ob" "takes ob (d @ [10] @ bytes ''success'')"
  shows "\<exists>s'. psub_read os fd recv s = Some (ZB_SET_WR, s') \<and> heard (set (fds_of s t)) d fd (wrb s) (wrb s') \<and>
    fds_of s' t = filter (\<lambda>f. wrb s f \<noteq> None) (fds_of s t) \<and>
    wr_enabled s' = wr_enabled s \<union> {f \<in> set (fds_of s t). wrb s f \<noteq> None} \<union> {fd} \<and>
    (\<exists>ib'. rdb s' = (rdb s)(fd \<mapsto> ib') \<and> r_ofs ib' = 0 \<and> curr_ofs ib' = 0)"
proof -
  let ?s = "sent_line_state fd (pub_cmd tn msg) s ib"
  have z: "0 \<notin> set tn" "0 \<notin> set msg" using r by (auto simp: line_ready_def pub_cmd_def)
  have g': "topic_get tn ?s = Some t" "account_get_by_fd fd ?s = Some a" "acc_heap ?s a = Some y" "topic_fds_ok ?s t" "fds_of ?s t = fds_of s t"
    "\<forall>f \<in> set (fds_of ?s t). \<forall>b. wrb ?s f = Some b \<longrightarrow> takes b d"
    using g t b by (simp_all add: topic_get_def account_get_by_fd_def topic_fds_ok_def fds_of_def)
  from publish_delivers [OF g'(1) g(2) g'(2) g(4) g'(3,4) d g'(6)] obtain s1 where
    s1: "model_pub psub_on_response fd tn msg ?s = Some (C_SUCCESS, s1)" "served (set (fds_of s t)) d ?s s1" "fds_of s1 t = filter (\<lambda>f. wrb s f \<noteq> None) (fds_of s t)"
    unfolding g'(5) by auto
  from answer_publisher [OF s1(2) _ _ w(2), of fd] b w(1) obtain b2 s2 where
    s2: "s2 = s1\<lparr>wrb := (wrb s1)(fd \<mapsto> b2), wr_enabled := insert fd (wr_enabled s1)\<rparr>"
      "psub_on_response fd ACT_PUB (Text (bytes ''success'')) s1 = Some s2" "heard (set (fds_of s t)) d fd (wrb s) (wrb s2)" by auto
  obtain m where m: "model_process psub_on_response os fd (line_mem (pub_cmd tn msg) ib) 32 ?s = Some (ZB_SET_WR, m, s2)"
    using execute_pub [OF tn z s1(1) s2(2), of os "0 # drop (length (pub_cmd tn msg) + 2) (buff ib)"] by (auto simp: line_mem_def)
  define ib3 where "ib3 = ib\<lparr>buff := m, r_ofs := 0, curr_ofs := 0\<rparr>"
  define s3 where "s3 = s2\<lparr>rdb := (rdb s2)(fd \<mapsto> ib3)\<rparr>"
  have "psub_read os fd recv s = Some (ZB_SET_WR, s3)" using m by (simp add: psub_read_line [OF r] s3_def ib3_def)
  moreover have "rdb s2 = rdb ?s" "wr_enabled s2 = wr_enabled s \<union> {f \<in> set (fds_of s t). wrb s f \<noteq> None} \<union> {fd}" "top_heap s2 = top_heap s1"
    using s1(2) s2(1) by (auto simp: served_def)
  then have "rdb s3 = (rdb s)(fd \<mapsto> ib3)" "wr_enabled s3 = wr_enabled s \<union> {f \<in> set (fds_of s t). wrb s f \<noteq> None} \<union> {fd}"
      "fds_of s3 t = fds_of s1 t"
    by (simp_all add: s3_def sent_line_state_def fds_of_def)
  moreover have "heard (set (fds_of s t)) d fd (wrb s) (wrb s3)" using s2(3) by (simp add: s3_def)
  moreover have "r_ofs ib3 = 0" "curr_ofs ib3 = 0" by (simp_all add: ib3_def)
  ultimately show ?thesis using s1(3) by auto
qed

text \<open>The account \<open>u\<close> publishes on the topic of the example, from the descriptor 5.\<close>

theorem publish_request_witness:
  "\<exists>s' b5 b7. psub_read penv0 5 (\<lambda>_. Some (bytes ''pub t hi'' @ [13, 10])) psub3 = Some (ZB_SET_WR, s') \<and> fds_of s' 200 = [5, 7] \<and>
     wrb s' 5 = Some b5 \<and> pending b5 = bytes ''u: hi'' @ [10] @ bytes ''success'' @ [10] \<and>
     wrb s' 7 = Some b7 \<and> pending b7 = bytes ''u: hi'' @ [10] \<and> wrb s' 6 = None"
proof -
  let ?b = "buffer_init (replicate 1024 0) HTTP_BUFFER_SIZE"
  let ?y = "\<lparr>acc_id = 1, acc_name = bytes ''u'', acc_auth = bytes ''pw'', sub_lists = vec [200], acc_fds = vec [5]\<rparr>"
  let ?d = "bytes ''u'' @ bytes '': '' @ bytes ''hi''"
  have c: "pub_cmd (bytes ''t'') (bytes ''hi'') = bytes ''pub t hi''" by (simp add: pub_cmd_def bytes_def)
  have r: "line_ready 5 (\<lambda>_. Some (bytes ''pub t hi'' @ [13, 10])) (pub_cmd (bytes ''t'') (bytes ''hi'')) psub3 ?b"
    unfolding c by (simp add: line_ready_def psub3_def buffer_init_def HTTP_BUFFER_SIZE_def bytes_def)
  have g: "topic_get (bytes ''t'') psub3 = Some 200" "account_get_by_fd 5 psub3 = Some 100" "acc_heap psub3 100 = Some ?y"
      "topic_fds_ok psub3 200" "fds_of psub3 200 = [5, 6, 7]"
      "wrb psub3 = [5 \<mapsto> ?b, 7 \<mapsto> ?b]"
    by (simp_all add: psub3_def psub1_def topic_get_def account_get_by_fd_def vector_exist_ok fds_of_def topic_fds_ok_def)
  have k: "takes ?b ?d" "takes ?b (?d @ [10] @ bytes ''success'')" "32 \<notin> set (bytes ''t'')"
    by (simp_all add: takes_def buffer_ok_def buffer_init_def buffer_remain_write_def HTTP_BUFFER_SIZE_def bytes_def)
  have d: "?d = acc_name ?y @ bytes '': '' @ bytes ''hi''" "length ?d \<le> 4095" by (simp_all add: bytes_def)
  have b: "\<forall>f \<in> set (fds_of psub3 200). \<forall>b. wrb psub3 f = Some b \<longrightarrow> takes b ?d" using k(1) by (simp add: g)
  have w: "wrb psub3 5 = Some ?b" by (simp add: g)
  from publish_request [OF r k(3) g(1) _ g(2) _ g(3,4) d b w k(2), of penv0] obtain s' where
    s': "psub_read penv0 5 (\<lambda>_. Some (bytes ''pub t hi'' @ [13, 10])) psub3 = Some (ZB_SET_WR, s')" "heard {5, 6, 7} ?d 5 (wrb psub3) (wrb s')"
      "fds_of s' 200 = filter (\<lambda>f. wrb psub3 f \<noteq> None) [5, 6, 7]" unfolding g(5) by auto
  have p: "pending ?b = []" by (simp add: pending_def buffer_init_def)
  have w7: "wrb psub3 7 = Some ?b" and w6: "wrb psub3 6 = None" by (simp_all add: g)
  from heard_at [OF s'(2) w] heard_at [OF s'(2) w7] heard_none [OF s'(2) w6] s'(1,3) show ?thesis
    by (auto simp: g(6) p bytes_def)
qed

end
