(* ===== verification/Connections.thy ===== *)
theory Connections
  imports Poller
begin

text \<open>
  Connections: the callbacks of the descriptor table (\<open>src/src/type/fd.h\<close>), the services behind them (\<open>struct handler\<close> of
  \<open>src/src/type/proto_handler.h\<close>), the acceptor of \<open>src/src/client.c\<close> and the listeners of \<open>src/src/proto_tcp.c\<close>, on top of
  the poller. The state of the poller's kernel is a record: the callbacks and owners of \<open>fdtab\<close>, the state of the service,
  and the state of the system. \<open>halted\<close> says that the process has ended, by \<open>exit\<close>, a call through NULL or an access outside a block.

  A callback is a name for the function stored in the table. A function of a service takes the descriptor, the state of the
  service and of the system, and returns its flags, the descriptors it enabled for writing, and the new states; \<open>None\<close> is an
  access outside a block. The locale \<open>connection_service\<close> is the contract of a service; under it the event loop, in any order of
  events, keeps the service consistent with the descriptors that are connected.
\<close>

section \<open>State and environment\<close>

text \<open>The functions stored in \<open>fdtab[fd].cb[dir].f\<close>; those of a service are the ones of the listener's handler.\<close>

datatype callback = Null | Event_accept | Read_of nat | Write_of nat | Disconnect_of nat

record ('s, 'k) handler =
  h_init :: "(nat \<Rightarrow> 's \<Rightarrow> 'k \<Rightarrow> (u32 \<times> nat list \<times> 's \<times> 'k) option) option"     \<comment> \<open>of the listener; \<open>None\<close> is NULL\<close>
  h_accept :: "nat \<Rightarrow> 's \<Rightarrow> 'k \<Rightarrow> (u32 \<times> nat list \<times> 's \<times> 'k) option"
  h_disconnect :: "nat \<Rightarrow> 's \<Rightarrow> 'k \<Rightarrow> (u32 \<times> nat list \<times> 's \<times> 'k) option"
  h_read :: "nat \<Rightarrow> 's \<Rightarrow> 'k \<Rightarrow> (u32 \<times> nat list \<times> 's \<times> 'k) option"
  h_write :: "nat \<Rightarrow> 's \<Rightarrow> 'k \<Rightarrow> (u32 \<times> nat list \<times> 's \<times> 'k) option"

record ('s, 'k) net =
  cb_f :: "nat \<Rightarrow> nat \<Rightarrow> callback"
  fd_owner :: "nat \<Rightarrow> nat"
  svc :: 's
  os_state :: 'k
  halted :: bool

type_synonym ('s, 'k) server = "('s, 'k) net poller"

text \<open>The parameters: the kernel, \<open>accept ()\<close>, the size of \<open>fdtab\<close>, the handler of each listener, and what the caller
  of \<open>event_accept\<close> finds as its result when it returns without a value.\<close>

record ('s, 'k) env =
  esys :: "'k sys"
  do_accept :: "nat \<Rightarrow> 'k \<Rightarrow> int \<times> 'k"
  maxconn :: nat
  handler_of :: "nat \<Rightarrow> ('s, 'k) handler"
  no_value :: u32

definition lift_sys :: "'k sys \<Rightarrow> ('s, 'k) net sys" where
  "lift_sys sys = \<lparr>epoll_ctl = (\<lambda>op fd ev n. n\<lparr>os_state := epoll_ctl sys op fd ev (os_state n)\<rparr>),
     close_fd = (\<lambda>fd n. n\<lparr>os_state := close_fd sys fd (os_state n)\<rparr>),
     epoll_wait = (\<lambda>w n. epoll_wait sys w (os_state n))\<rparr>"

section \<open>Callbacks\<close>

definition halt :: "('s, 'k) server \<Rightarrow> ('s, 'k) server" where
  "halt p = p\<lparr>kern := (kern p)\<lparr>halted := True\<rparr>\<rparr>"

text \<open>A call of a function of the service.\<close>

definition call :: "(nat \<Rightarrow> 's \<Rightarrow> 'k \<Rightarrow> (u32 \<times> nat list \<times> 's \<times> 'k) option) \<Rightarrow> nat \<Rightarrow> ('s, 'k) server \<Rightarrow> u32 \<times> ('s, 'k) server" where
  "call f fd p =
     (case f fd (svc (kern p)) (os_state (kern p)) of
        None \<Rightarrow> (ZB_NOP, halt p)
      | Some (r, ws, s, k) \<Rightarrow>
          (r, fold (\<lambda>w p. snd (fd_set w DIR_WR p)) ws (p\<lparr>kern := (kern p)\<lparr>svc := s, os_state := k\<rparr>\<rparr>)))"

text \<open>A descriptor beyond the table makes \<open>event_accept\<close> and the service write outside \<open>fdtab\<close>.\<close>

definition event_accept :: "('s, 'k) env \<Rightarrow> nat \<Rightarrow> ('s, 'k) server \<Rightarrow> u32 \<times> ('s, 'k) server" where
  "event_accept e fd p =
     (let l = fd_owner (kern p) fd;
          (n, k) = do_accept e fd (os_state (kern p));
          p1 = p\<lparr>kern := (kern p)\<lparr>os_state := k\<rparr>\<rparr>;
          nfd = nat n
      in if n < 0 then (no_value e, p1)
         else if maxconn e \<le> nfd then (ZB_NOP, halt p1)
         else let (r, p2) = call (h_accept (handler_of e l)) nfd p1
              in if halted (kern p2) then (ZB_NOP, p2)
                 else if r = ZB_NOP then
                   let p3 = fd_insert nfd p2;
                       p4 = p3\<lparr>kern := (kern p3)\<lparr>
                              cb_f := (cb_f (kern p3))(nfd := (cb_f (kern p3) nfd)(DIR_RD := Read_of l, DIR_WR := Write_of l, DIR_CLO := Disconnect_of l)),
                              fd_owner := (fd_owner (kern p3))(nfd := l)\<rparr>,
                            fd_state := (fd_state p3)(nfd := FD_STCONN)\<rparr>
                   in (ZB_NOP, snd (fd_set nfd DIR_RD p4))
                 else (ZB_NOP, p2\<lparr>kern := close_fd (lift_sys (esys e)) nfd (kern p2)\<rparr>))"

definition server_cb :: "('s, 'k) env \<Rightarrow> ('s, 'k) net handlers" where
  "server_cb e dir fd p =
     (if halted (kern p) then (ZB_NOP, p)
      else case cb_f (kern p) fd dir of
             Null \<Rightarrow> (ZB_NOP, halt p)
           | Event_accept \<Rightarrow> event_accept e fd p
           | Read_of l \<Rightarrow> call (h_read (handler_of e l)) fd p
           | Write_of l \<Rightarrow> call (h_write (handler_of e l)) fd p
           | Disconnect_of l \<Rightarrow> call (h_disconnect (handler_of e l)) fd p)"

section \<open>Listeners\<close>

text \<open>\<open>tcp_bind\<close> of a listener \<open>l\<close>, where \<open>fd\<close> is the result of \<open>tcp_create_and_bind\<close>; every failure before the table is
  written ends the process, and the handler's \<open>init\<close> runs first. The callback \<open>DIR_CLO\<close> of a listening descriptor is not set. \<open>udp_bind\<close> gives
  a descriptor the functions of the handler themselves, and runs \<open>init\<close> last.\<close>

definition run_init :: "('s, 'k) env \<Rightarrow> nat \<Rightarrow> ('s, 'k) server \<Rightarrow> ('s, 'k) server" where
  "run_init e l p = (case h_init (handler_of e l) of None \<Rightarrow> p | Some f \<Rightarrow> snd (call f l p))"

definition tcp_bind :: "('s, 'k) env \<Rightarrow> nat \<Rightarrow> int \<Rightarrow> ('s, 'k) server \<Rightarrow> ('s, 'k) server" where
  "tcp_bind e l fd p =
     (if fd < 0 then halt p
      else let p0 = run_init e l p
           in if halted (kern p0) then p0
              else if maxconn e \<le> nat fd then halt p0
              else let n = nat fd; p1 = fd_insert n p0
                   in p1\<lparr>kern := (kern p1)\<lparr>
                           cb_f := (cb_f (kern p1))(n := (cb_f (kern p1) n)(DIR_RD := Event_accept, DIR_WR := Null)),
                           fd_owner := (fd_owner (kern p1))(n := l)\<rparr>,
                         fd_state := (fd_state p1)(n := FD_STLISTEN)\<rparr>)"

definition udp_bind :: "('s, 'k) env \<Rightarrow> nat \<Rightarrow> int \<Rightarrow> ('s, 'k) server \<Rightarrow> ('s, 'k) server" where
  "udp_bind e l fd p =
     (if fd < 0 then halt p
      else if maxconn e \<le> nat fd then halt p
      else let n = nat fd; p1 = fd_insert n p
           in run_init e l (p1\<lparr>kern := (kern p1)\<lparr>
                   cb_f := (cb_f (kern p1))(n := (cb_f (kern p1) n)(DIR_RD := Read_of l, DIR_WR := Write_of l)),
                   fd_owner := (fd_owner (kern p1))(n := l)\<rparr>,
                 fd_state := (fd_state p1)(n := FD_STLISTEN)\<rparr>))"

text \<open>Asking for reading on a list of descriptors.\<close>

definition enable_fds :: "nat list \<Rightarrow> ('s, 'k) server \<Rightarrow> ('s, 'k) server" where
  "enable_fds fds p = fold (\<lambda>fd p. snd (fd_set fd DIR_RD p)) fds p"

section \<open>The event loop\<close>

text \<open>Any number of rounds of \<open>poll_do\<close>, with any dates and time-outs.\<close>

inductive server_run :: "('s, 'k) env \<Rightarrow> ('s, 'k) server \<Rightarrow> ('s, 'k) server \<Rightarrow> bool" for e where
  start: "server_run e p p"
| round: "server_run e p p1 \<Longrightarrow> server_run e p (poll_do (lift_sys (esys e)) (server_cb e) t exp p1)"

definition conns :: "('s, 'k) server \<Rightarrow> nat set" where
  "conns p = {fd. fd_state p fd = FD_STCONN}"

text \<open>The documented behaviour of the kernel: \<open>log k fd\<close> is what passed over the connection of \<open>fd\<close>, \<open>opn k\<close> the open
  descriptors. \<open>accept ()\<close> gives a new connection a descriptor that was closed; \<open>close ()\<close> and \<open>epoll_ctl ()\<close> pass no data.\<close>

definition kernel_spec :: "('s, 'k) env \<Rightarrow> ('k \<Rightarrow> nat \<Rightarrow> 'l) \<Rightarrow> ('k \<Rightarrow> nat set) \<Rightarrow> 'l \<Rightarrow> bool" where
  "kernel_spec e log opn fresh \<longleftrightarrow>
     (\<forall>op fd ev k. log (epoll_ctl (esys e) op fd ev k) = log k \<and> opn (epoll_ctl (esys e) op fd ev k) = opn k) \<and>
     (\<forall>fd k. opn (close_fd (esys e) fd k) = opn k - {fd} \<and> (\<forall>f. f \<noteq> fd \<longrightarrow> log (close_fd (esys e) fd k) f = log k f)) \<and>
     (\<forall>fd k n k'. do_accept e fd k = (n, k') \<longrightarrow>
        (if n < 0 then opn k' = opn k \<and> log k' = log k
         else nat n \<notin> opn k \<and> opn k' = insert (nat n) (opn k) \<and> log k' = (log k)(nat n := fresh)))"

text \<open>The consistency of the server: the callbacks are those of its state, connected and listening descriptors are open.\<close>

definition table_ok :: "('k \<Rightarrow> nat set) \<Rightarrow> ('s, 'k) server \<Rightarrow> bool" where
  "table_ok opn p \<longleftrightarrow>
     (\<forall>fd. fd_state p fd \<in> {FD_STCLOSE, FD_STLISTEN, FD_STCONN}) \<and>
     (\<forall>fd. fd_state p fd = FD_STLISTEN \<longrightarrow>
        cb_f (kern p) fd DIR_RD = Event_accept \<and> cb_f (kern p) fd DIR_WR = Null \<and> cb_f (kern p) fd DIR_CLO = Null) \<and>
     (\<forall>fd. fd_state p fd = FD_STCONN \<longrightarrow> (\<exists>l. cb_f (kern p) fd DIR_RD = Read_of l) \<and>
        (\<exists>l. cb_f (kern p) fd DIR_WR = Write_of l) \<and> (\<exists>l. cb_f (kern p) fd DIR_CLO = Disconnect_of l)) \<and>
     (\<forall>fd. fd_state p fd \<noteq> FD_STCLOSE \<longrightarrow> fd \<in> opn (os_state (kern p)))"

definition server_ok :: "('s \<Rightarrow> 'k \<Rightarrow> nat set \<Rightarrow> bool) \<Rightarrow> ('k \<Rightarrow> nat set) \<Rightarrow> ('s, 'k) server \<Rightarrow> bool" where
  "server_ok I opn p \<longleftrightarrow> halted (kern p) \<or> table_ok opn p \<and> I (svc (kern p)) (os_state (kern p)) (conns p)"

text \<open>What the poller's operations leave alone.\<close>

lemma fd_set_frame [simp]:
  "kern (snd (fd_set fd dir p)) = kern p" "fd_state (snd (fd_set fd dir p)) = fd_state p"
  by (simp_all add: fd_set_def alloc_chg_list_def Let_def)

lemma fd_clr_frame [simp]:
  "kern (snd (fd_clr fd dir p)) = kern p" "fd_state (snd (fd_clr fd dir p)) = fd_state p"
  by (simp_all add: fd_clr_def alloc_chg_list_def Let_def)

lemma fd_insert_frame [simp]: "kern (fd_insert fd p) = kern p" "fd_state (fd_insert fd p) = fd_state p"
  by (simp_all add: fd_insert_def)

lemma enable_frame [simp]:
  "kern (fold (\<lambda>w p. snd (fd_set w DIR_WR p)) ws p) = kern p" "fd_state (fold (\<lambda>w p. snd (fd_set w DIR_WR p)) ws p) = fd_state p"
  by (induction ws arbitrary: p) simp_all

lemma fd_delete_frame [simp]:
  "kern (fd_delete sys fd p) = close_fd sys fd (kern p)" "fd_state (fd_delete sys fd p) = (fd_state p)(fd := FD_STCLOSE)"
  by (simp_all add: fd_delete_def fd_clo_def Let_def split: option.split)

lemma lift_sys_close [simp]: "close_fd (lift_sys sys) fd n = n\<lparr>os_state := close_fd sys fd (os_state n)\<rparr>"
  by (simp add: lift_sys_def)

lemma halted_halt [simp]: "halted (kern (halt p))" "fd_state (halt p) = fd_state p"
  by (simp_all add: halt_def)

lemma states_apart [simp]:
  "FD_STCLOSE \<noteq> FD_STLISTEN" "FD_STCLOSE \<noteq> FD_STCONN" "FD_STLISTEN \<noteq> FD_STCONN"
  "FD_STLISTEN \<noteq> FD_STCLOSE" "FD_STCONN \<noteq> FD_STCLOSE" "FD_STCONN \<noteq> FD_STLISTEN"
  by (simp_all add: FD_STCLOSE_def FD_STLISTEN_def FD_STCONN_def)

lemma dirs_apart [simp]:
  "DIR_RD \<noteq> DIR_WR" "DIR_RD \<noteq> DIR_CLO" "DIR_WR \<noteq> DIR_RD" "DIR_WR \<noteq> DIR_CLO" "DIR_CLO \<noteq> DIR_RD" "DIR_CLO \<noteq> DIR_WR"
  by (simp_all add: DIR_RD_def DIR_WR_def DIR_CLO_def)

lemma recheck_frame:
  "kern (recheck_state sys cb fd flag p) = kern (if flag = ZB_CLOSE then snd (cb DIR_CLO fd (fd_delete sys fd p)) else p)"
  "fd_state (recheck_state sys cb fd flag p) = fd_state (if flag = ZB_CLOSE then snd (cb DIR_CLO fd (fd_delete sys fd p)) else p)"
  by (simp_all add: recheck_state_def Let_def)

text \<open>A connection that the service takes, and one that it refuses.\<close>

lemma event_accept_taken:
  assumes "\<not> halted (kern p)" and "do_accept e fd (os_state (kern p)) = (n, k1)" and "\<not> n < 0" and "\<not> maxconn e \<le> nat n"
    and "h_accept (handler_of e (fd_owner (kern p) fd)) (nat n) (svc (kern p)) k1 = Some (ZB_NOP, ws, s, k2)"
  shows "os_state (kern (snd (event_accept e fd p))) = k2" "svc (kern (snd (event_accept e fd p))) = s"
    "halted (kern (snd (event_accept e fd p))) = False" "fd_state (snd (event_accept e fd p)) = (fd_state p)(nat n := FD_STCONN)"
    "cb_f (kern (snd (event_accept e fd p))) = (cb_f (kern p))(nat n := (cb_f (kern p) (nat n))
       (DIR_RD := Read_of (fd_owner (kern p) fd), DIR_WR := Write_of (fd_owner (kern p) fd), DIR_CLO := Disconnect_of (fd_owner (kern p) fd)))"
  using assms by (simp_all add: event_accept_def call_def Let_def)

lemma event_accept_refused:
  assumes "\<not> halted (kern p)" and "do_accept e fd (os_state (kern p)) = (n, k1)" and "\<not> n < 0" and "\<not> maxconn e \<le> nat n"
    and "h_accept (handler_of e (fd_owner (kern p) fd)) (nat n) (svc (kern p)) k1 = Some (r, ws, s, k2)" and "r \<noteq> ZB_NOP"
  shows "os_state (kern (snd (event_accept e fd p))) = close_fd (esys e) (nat n) k2" "svc (kern (snd (event_accept e fd p))) = s"
    "halted (kern (snd (event_accept e fd p))) = False" "fd_state (snd (event_accept e fd p)) = fd_state p"
    "cb_f (kern (snd (event_accept e fd p))) = cb_f (kern p)"
  using assms by (simp_all add: event_accept_def call_def Let_def)

text \<open>The process does not come back.\<close>

lemma call_halted: "halted (kern p) \<Longrightarrow> halted (kern (snd (call f fd p)))"
  by (auto simp: call_def split: option.splits)

lemma server_cb_halted: "halted (kern p) \<Longrightarrow> server_cb e dir fd p = (ZB_NOP, p)"
  by (simp add: server_cb_def)

lemma recheck_halted: "halted (kern p) \<Longrightarrow> halted (kern (recheck_state (lift_sys sys) (server_cb e) fd flag p))"
  by (simp add: recheck_state_def Let_def server_cb_def)

lemma poll_event_halted: "halted (kern p) \<Longrightarrow> halted (kern (poll_event (lift_sys sys) (server_cb e) ev p))"
  by (simp add: poll_event_def Let_def server_cb_def recheck_halted split: prod.split)

text \<open>No callback closes a descriptor in the table.\<close>

lemma call_state [simp]: "fd_state (snd (call f fd p)) = fd_state p"
  by (simp add: call_def split: option.split prod.split)

lemma event_accept_state: "fd_state (snd (event_accept e fd p)) g \<in> {fd_state p g, FD_STCONN}"
proof -
  have "fd_state (snd (call f c (p\<lparr>kern := n\<rparr>))) g = fd_state p g" for f c n by simp
  then show ?thesis unfolding event_accept_def Let_def
    by (auto split: prod.split) (metis call_state poller.select_convs(4) poller.surjective poller.update_convs(7) snd_conv)+
qed

lemma server_cb_state: "fd_state p g \<noteq> FD_STCLOSE \<Longrightarrow> fd_state (snd (server_cb e dir fd p)) g \<noteq> FD_STCLOSE"
  using event_accept_state [of e fd p g] by (auto simp: server_cb_def split: callback.split)

text \<open>While the listeners are bound there are no connections, and no \<open>DIR_CLO\<close> is set.\<close>

definition starting :: "('s, 'k) server \<Rightarrow> bool" where
  "starting p \<longleftrightarrow> conns p = {} \<and> (\<forall>fd. cb_f (kern p) fd DIR_CLO = Null)"

lemma run_init_none: "h_init (handler_of e l) = None \<Longrightarrow> run_init e l p = p"
  by (simp add: run_init_def)

lemma tcp_bind_ok:
  assumes "server_ok I opn p" and "starting p" and "nat fd \<in> opn (os_state (kern p))" and "h_init (handler_of e l) = None"
  shows "server_ok I opn (tcp_bind e l fd p) \<and> starting (tcp_bind e l fd p) \<and> os_state (kern (tcp_bind e l fd p)) = os_state (kern p)"
proof (cases "halted (kern p) \<or> fd < 0 \<or> maxconn e \<le> nat fd")
  case True
  then show ?thesis using assms(1,2) by (auto simp: tcp_bind_def run_init_none [OF assms(4)] server_ok_def halt_def starting_def conns_def)
next
  case False
  let ?p = "tcp_bind e l fd p"
  have f: "fd_state ?p = (fd_state p)(nat fd := FD_STLISTEN)" "fd_owner (kern ?p) = (fd_owner (kern p))(nat fd := l)" "svc (kern ?p) = svc (kern p)"
    "os_state (kern ?p) = os_state (kern p)" "halted (kern ?p) = halted (kern p)"
    "cb_f (kern ?p) = (cb_f (kern p))(nat fd := (cb_f (kern p) (nat fd))(DIR_RD := Event_accept, DIR_WR := Null))"
    using False by (simp_all add: tcp_bind_def run_init_none [OF assms(4)] Let_def)
  have c: "conns ?p = {}" using assms(2) by (auto simp: conns_def f starting_def)
  have "starting ?p" using assms(2) c by (simp add: starting_def f)
  moreover have "server_ok I opn ?p" using assms(1,2) c False \<open>starting ?p\<close>
    by (auto simp: server_ok_def table_ok_def f starting_def assms(3))
  ultimately show ?thesis using f(4) by simp
qed


text \<open>The contract of a service. \<open>I s k C\<close> says that the service is consistent with the connected descriptors \<open>C\<close>: \<open>accept\<close>
  adds a descriptor when it returns \<open>ZB_NOP\<close> and refuses it otherwise, reading and writing keep the connections, \<open>disconnect\<close>
  removes one, after its descriptor was closed; none of them opens or closes descriptors.\<close>

locale connection_service =
  fixes hd :: "('s, 'k) handler"
    and I :: "'s \<Rightarrow> 'k \<Rightarrow> nat set \<Rightarrow> bool"
    and log :: "'k \<Rightarrow> nat \<Rightarrow> 'l"
    and opn :: "'k \<Rightarrow> nat set"
    and fresh :: 'l
  assumes frame: "I s k C \<Longrightarrow> (\<And>fd. fd \<in> C \<Longrightarrow> log k' fd = log k fd) \<Longrightarrow> I s k' C"
    and accept: "I s k C \<Longrightarrow> nfd \<notin> C \<Longrightarrow> log k nfd = fresh \<Longrightarrow> h_accept hd nfd s k = Some (r, ws, s', k') \<Longrightarrow>
                 opn k' = opn k \<and> I s' k' (if r = ZB_NOP then insert nfd C else C)"
    and reading: "I s k C \<Longrightarrow> fd \<in> C \<Longrightarrow> h_read hd fd s k = Some (r, ws, s', k') \<Longrightarrow> opn k' = opn k \<and> I s' k' C"
    and writing: "I s k C \<Longrightarrow> fd \<in> C \<Longrightarrow> h_write hd fd s k = Some (r, ws, s', k') \<Longrightarrow> opn k' = opn k \<and> I s' k' C"
    and disconnect: "I s k C \<Longrightarrow> fd \<in> C \<Longrightarrow> (\<And>f. f \<in> C - {fd} \<Longrightarrow> log k1 f = log k f) \<Longrightarrow>
                     h_disconnect hd fd s k1 = Some (r, ws, s', k') \<Longrightarrow> opn k' = opn k1 \<and> I s' k' (C - {fd})"
begin

lemma server_ok_frame:
  "kern p' = kern p \<Longrightarrow> fd_state p' = fd_state p \<Longrightarrow> server_ok I opn p \<Longrightarrow> server_ok I opn p'"
  by (simp add: server_ok_def table_ok_def conns_def)

lemma call_ok:
  assumes "server_ok I opn p" and "\<not> halted (kern p)" and "fd \<in> conns p" and f: "f = h_read hd \<or> f = h_write hd"
  shows "server_ok I opn (snd (call f fd p)) \<and> (halted (kern (snd (call f fd p))) \<or> fd_state (snd (call f fd p)) = fd_state p)"
proof (cases "f fd (svc (kern p)) (os_state (kern p))")
  case None
  then show ?thesis by (simp add: call_def server_ok_def)
next
  case (Some x)
  obtain r ws s k where x: "x = (r, ws, s, k)" by (cases x)
  have i: "I (svc (kern p)) (os_state (kern p)) (conns p)" "table_ok opn p" using assms(1,2) by (simp_all add: server_ok_def)
  have "opn k = opn (os_state (kern p)) \<and> I s k (conns p)"
    using f reading [OF i(1) assms(3)] writing [OF i(1) assms(3)] Some x by auto
  then show ?thesis using i(2) Some x by (simp add: call_def server_ok_def table_ok_def conns_def)
qed

lemma fd_close_ok:
  assumes ok: "server_ok I opn p" and run: "\<not> halted (kern p)" and c: "fd \<in> conns p"
    and k: "kernel_spec e log opn fresh" "\<And>l. handler_of e l = hd"
  shows "server_ok I opn (snd (server_cb e DIR_CLO fd (fd_delete (lift_sys (esys e)) fd p)))"
proof -
  let ?p = "fd_delete (lift_sys (esys e)) fd p"
  let ?k = "close_fd (esys e) fd (os_state (kern p))"
  have i: "I (svc (kern p)) (os_state (kern p)) (conns p)" "table_ok opn p" using ok run by (simp_all add: server_ok_def)
  have kc: "opn ?k = opn (os_state (kern p)) - {fd}" "\<And>f. f \<noteq> fd \<Longrightarrow> log ?k f = log (os_state (kern p)) f"
    using k(1) by (simp_all add: kernel_spec_def)
  have C: "conns ?p = conns p - {fd}" by (auto simp: conns_def)
  obtain l where l: "cb_f (kern p) fd DIR_CLO = Disconnect_of l" using i(2) c by (auto simp: table_ok_def conns_def)
  have T: "table_ok opn ?p" using i(2) kc(1) by (auto simp: table_ok_def)
  show ?thesis
  proof (cases "h_disconnect hd fd (svc (kern p)) ?k")
    case None
    then show ?thesis using run by (simp add: server_cb_def l k(2) call_def server_ok_def)
  next
    case (Some x)
    obtain r ws s k' where x: "x = (r, ws, s, k')" by (cases x)
    have "opn k' = opn ?k \<and> I s k' (conns p - {fd})"
      using disconnect [OF i(1) c, of ?k] kc(2) Some x by auto
    then show ?thesis using T run Some x C by (simp add: server_cb_def l k(2) call_def server_ok_def table_ok_def conns_def)
  qed
qed

lemma recheck_ok:
  assumes ok: "server_ok I opn p" and st: "fd_state p fd \<noteq> FD_STCLOSE"
    and k: "kernel_spec e log opn fresh" "\<And>l. handler_of e l = hd"
  shows "server_ok I opn (recheck_state (lift_sys (esys e)) (server_cb e) fd flag p)"
proof (cases "halted (kern p)")
  case True
  then show ?thesis by (simp add: server_ok_def recheck_halted)
next
  case run: False
  have close: "server_ok I opn (snd (server_cb e DIR_CLO fd (fd_delete (lift_sys (esys e)) fd p)))"
  proof (cases "fd_state p fd = FD_STCONN")
    case True
    then show ?thesis using fd_close_ok [OF ok run _ k] by (simp add: conns_def)
  next
    case False
    then have "cb_f (kern p) fd DIR_CLO = Null" using ok run st by (auto simp: server_ok_def table_ok_def)
    then show ?thesis using run by (simp add: server_cb_def server_ok_def)
  qed
  show ?thesis
    using server_ok_frame [OF recheck_frame [where sys = "lift_sys (esys e)" and cb = "server_cb e"]] ok close by simp
qed

lemma event_accept_ok:
  assumes ok: "server_ok I opn p" and run: "\<not> halted (kern p)"
    and k: "kernel_spec e log opn fresh" "\<And>l. handler_of e l = hd"
  shows "server_ok I opn (snd (event_accept e fd p))"
proof -
  obtain n k1 where n: "do_accept e fd (os_state (kern p)) = (n, k1)" by (cases "do_accept e fd (os_state (kern p))")
  have i: "I (svc (kern p)) (os_state (kern p)) (conns p)" "table_ok opn p" using ok run by (simp_all add: server_ok_def)
  have a: "if n < 0 then opn k1 = opn (os_state (kern p)) \<and> log k1 = log (os_state (kern p))
      else nat n \<notin> opn (os_state (kern p)) \<and> opn k1 = insert (nat n) (opn (os_state (kern p))) \<and>
        log k1 = (log (os_state (kern p)))(nat n := fresh)"
    using k(1) n unfolding kernel_spec_def by blast
  show ?thesis
  proof (cases "n < 0 \<or> maxconn e \<le> nat n")
    case True
    show ?thesis
    proof (cases "n < 0")
      case True
      then have "I (svc (kern p)) k1 (conns p)" using frame [OF i(1)] a by simp
      then show ?thesis using True i(2) a n by (simp add: event_accept_def server_ok_def table_ok_def conns_def Let_def)
    next
      case False
      then show ?thesis using \<open>n < 0 \<or> maxconn e \<le> nat n\<close> n by (simp add: event_accept_def server_ok_def Let_def)
    qed
  next
    case False
    let ?p1 = "p\<lparr>kern := (kern p)\<lparr>os_state := k1\<rparr>\<rparr>" and ?nfd = "nat n"
    have new: "?nfd \<notin> opn (os_state (kern p))" "opn k1 = insert ?nfd (opn (os_state (kern p)))"
      "log k1 = (log (os_state (kern p)))(?nfd := fresh)" using a False by auto
    have small: "\<not> n < 0" "\<not> maxconn e \<le> ?nfd" using False by simp_all
    have closed: "fd_state p ?nfd = FD_STCLOSE" using new(1) i(2) by (auto simp: table_ok_def)
    then have out: "?nfd \<notin> conns p" by (simp add: conns_def)
    have i1: "I (svc (kern p)) k1 (conns p)" by (rule frame [OF i(1)]) (use new(3) out in auto)
    show ?thesis
    proof (cases "h_accept hd ?nfd (svc (kern p)) k1")
      case None
      then show ?thesis using False n run k(2) by (simp add: event_accept_def call_def server_ok_def Let_def)
    next
      case (Some x)
      obtain r ws s k2 where x: "x = (r, ws, s, k2)" by (cases x)
      have h: "h_accept (handler_of e (fd_owner (kern p) fd)) ?nfd (svc (kern p)) k1 = Some x" using Some k(2) by simp
      have acc: "opn k2 = opn k1" "I s k2 (if r = ZB_NOP then insert ?nfd (conns p) else conns p)"
        using accept [OF i1 out] new(3) Some x by auto
      show ?thesis
      proof (cases "r = ZB_NOP")
        case True
        let ?q = "snd (event_accept e fd p)"
        note q = event_accept_taken [OF run n small h [unfolded x True]]
        have "conns ?q = insert ?nfd (conns p)" using q(4) by (auto simp: conns_def)
        moreover have "table_ok opn ?q" using i(2) q acc(1) new(2) by (auto simp: table_ok_def)
        ultimately show ?thesis using acc(2) True q by (simp add: server_ok_def)
      next
        case refused: False
        let ?q = "snd (event_accept e fd p)"
        let ?k = "close_fd (esys e) ?nfd k2"
        note q = event_accept_refused [OF run n small h [unfolded x] refused]
        have kc: "opn ?k = opn k2 - {?nfd}" "\<And>f. f \<noteq> ?nfd \<Longrightarrow> log ?k f = log k2 f" using k(1) by (simp_all add: kernel_spec_def)
        have "I s ?k (conns p)" by (rule frame [of s k2]) (use acc(2) refused in simp, metis kc(2) out)
        moreover have "conns ?q = conns p" using q(4) by (simp add: conns_def)
        moreover have "table_ok opn ?q" using i(2) q kc(1) acc(1) new(1,2) closed by (auto simp: table_ok_def)
        ultimately show ?thesis using q by (simp add: server_ok_def)
      qed
    qed
  qed
qed

lemma server_cb_ok:
  assumes ok: "server_ok I opn p" and st: "fd_state p fd \<noteq> FD_STCLOSE" and d: "dir = DIR_RD \<or> dir = DIR_WR"
    and k: "kernel_spec e log opn fresh" "\<And>l. handler_of e l = hd"
  shows "server_ok I opn (snd (server_cb e dir fd p))"
proof (cases "halted (kern p)")
  case True
  then show ?thesis using ok by (simp add: server_cb_halted)
next
  case run: False
  then have T: "table_ok opn p" using ok by (simp add: server_ok_def)
  show ?thesis
  proof (cases "fd_state p fd = FD_STCONN")
    case True
    then obtain l l' where "cb_f (kern p) fd DIR_RD = Read_of l" "cb_f (kern p) fd DIR_WR = Write_of l'"
      using T by (auto simp: table_ok_def)
    then show ?thesis using d run k(2) call_ok [OF ok run, of fd] True by (auto simp: server_cb_def conns_def)
  next
    case False
    then have "cb_f (kern p) fd DIR_RD = Event_accept" "cb_f (kern p) fd DIR_WR = Null" using T st by (auto simp: table_ok_def)
    then show ?thesis using d run event_accept_ok [OF ok run k, of fd] by (auto simp: server_cb_def) (simp add: server_ok_def)
  qed
qed

lemma poll_event_ok:
  assumes ok: "server_ok I opn p" and k: "kernel_spec e log opn fresh" "\<And>l. handler_of e l = hd"
  shows "server_ok I opn (poll_event (lift_sys (esys e)) (server_cb e) ev p)"
proof (cases "fd_state p (fst ev) = FD_STCLOSE")
  case True
  then show ?thesis using ok by (simp add: poll_event_def Let_def)
next
  case opened: False
  let ?fd = "fst ev" and ?cb = "server_cb e" and ?sys = "lift_sys (esys e)"
  have cb: "server_ok I opn (snd (if c then ?cb dir ?fd q else (r, q))) \<and> fd_state (snd (if c then ?cb dir ?fd q else (r, q))) ?fd \<noteq> FD_STCLOSE"
    if "server_ok I opn q" "fd_state q ?fd \<noteq> FD_STCLOSE" "dir = DIR_RD \<or> dir = DIR_WR" for c dir q r
    using that server_cb_ok [OF that k] server_cb_state [OF that(2)] by simp
  obtain r1 p1 where p1: "(if snd ev AND (EPOLLIN OR EPOLLERR OR EPOLLHUP) \<noteq> 0 then ?cb DIR_RD ?fd p else (ZB_NOP, p)) = (r1, p1)" by fastforce
  then have "server_ok I opn p1" "fd_state p1 ?fd \<noteq> FD_STCLOSE" 
    using cb [OF ok opened disjI1 [OF refl], of "snd ev AND (EPOLLIN OR EPOLLERR OR EPOLLHUP) \<noteq> 0" ZB_NOP]
    unfolding p1 by simp_all
  then have p2: "server_ok I opn (recheck_state ?sys ?cb ?fd r1 p1)" by (rule recheck_ok [OF _ _ k])
  let ?p2 = "recheck_state ?sys ?cb ?fd r1 p1"
  show ?thesis
  proof (cases "fd_state ?p2 ?fd = FD_STCLOSE")
    case True
    then show ?thesis using opened p1 p2 by (simp add: poll_event_def Let_def)
  next
    case False
    obtain r2 p3 where p3: "(if snd ev AND (EPOLLOUT OR EPOLLERR OR EPOLLHUP) \<noteq> 0 then ?cb DIR_WR ?fd ?p2 else (r1, ?p2)) = (r2, p3)" by fastforce
    then have "server_ok I opn p3" "fd_state p3 ?fd \<noteq> FD_STCLOSE" 
      using cb [OF p2 False disjI2 [OF refl], of "snd ev AND (EPOLLOUT OR EPOLLERR OR EPOLLHUP) \<noteq> 0" r1]
      unfolding p3 by simp_all
    then have "server_ok I opn (recheck_state ?sys ?cb ?fd r2 p3)" by (rule recheck_ok [OF _ _ k])
    then show ?thesis using opened p1 p3 False by (simp add: poll_event_def Let_def)
  qed
qed

text \<open>Flushing the changes and waiting pass no data and change no descriptor.\<close>

lemma flush_ok:
  assumes ok: "server_ok I opn p" and k: "kernel_spec e log opn fresh"
  shows "server_ok I opn (fd_flush_changes (lift_sys (esys e)) p)"
proof -
  have one: "server_ok I opn (flush_one (lift_sys (esys e)) c q)" if "server_ok I opn q" for c q
  proof -
    have "log (epoll_ctl (esys e) op fd ev t) = log t" "opn (epoll_ctl (esys e) op fd ev t) = opn t" for op fd ev t
      using k by (simp_all add: kernel_spec_def)
    then show ?thesis using that frame [of "svc (kern q)" "os_state (kern q)" "conns q"]
      by (auto simp: flush_one_def Let_def lift_sys_def server_ok_def table_ok_def conns_def)
  qed
  have "server_ok I opn (fold (flush_one (lift_sys (esys e))) cs q)" if "server_ok I opn q" for cs q
    using that by (induction cs arbitrary: q) (simp_all add: one)
  then show ?thesis using ok by (simp add: fd_flush_changes_def server_ok_def table_ok_def conns_def)
qed

lemma poll_do_ok:
  assumes ok: "server_ok I opn p" and k: "kernel_spec e log opn fresh" "\<And>l. handler_of e l = hd"
  shows "server_ok I opn (poll_do (lift_sys (esys e)) (server_cb e) t exp p)"
proof -
  have events: "server_ok I opn (fold (poll_event (lift_sys (esys e)) (server_cb e)) evs q)" if "server_ok I opn q" for evs q
    using that by (induction evs arbitrary: q) (simp_all add: poll_event_ok [OF _ k])
  let ?p = "if chg_list p \<noteq> [] then fd_flush_changes (lift_sys (esys e)) p else p"
  have "server_ok I opn ?p" using ok flush_ok [OF ok k(1)] by simp
  then have "server_ok I opn (?p\<lparr>clk := c\<rparr>)" for c by (simp add: server_ok_def table_ok_def conns_def)
  then show ?thesis unfolding poll_do_def Let_def by (auto intro!: events split: prod.split)
qed

lemma server_run_ok:
  assumes "server_run e p p'" and "server_ok I opn p" and "kernel_spec e log opn fresh" and "\<And>l. handler_of e l = hd"
  shows "server_ok I opn p'"
  using assms by (induction rule: server_run.induct) (simp_all add: poll_do_ok)

end

end
