(* ===== verification/Echo.thy ===== *)
theory Echo
  imports Connections Buffers Task "HOL-Library.While_Combinator"
begin

text \<open>
  The echo service, \<open>src/src/handler/echo.c\<close> and \<open>echo.h\<close>, on the event loop. Each connection has one buffer, which is both its read
  and its write buffer, so the buffers are structs in the heap and the two pointers of a descriptor are addresses (0 is NULL).
  \<open>recv ()\<close>, \<open>send ()\<close> and the allocator are parameters. Shown: in every run of the event loop, whatever the events, their order and the
  sizes of the packets, the bytes sent over a connection are a prefix of the bytes received over it, the rest is in its buffer, and
  the number of connections is right; and that a packet that fills the buffer is followed by a write outside it.
\<close>

section \<open>State\<close>

definition HTTP_BUFFER_SIZE :: nat where "HTTP_BUFFER_SIZE = 4096"
definition MAINTAIN_TIME :: u32 where "MAINTAIN_TIME = 10000"

record echo =
  e_heap :: "nat \<rightharpoonup> buffer"
  rd_b :: "nat \<Rightarrow> nat"          \<comment> \<open>\<open>fdtab[fd].cb[DIR_RD].b\<close>\<close>
  wr_b :: "nat \<Rightarrow> nat"          \<comment> \<open>\<open>fdtab[fd].cb[DIR_WR].b\<close>\<close>
  e_conn :: int
  e_max_conn :: int

record 'k socks =
  recv :: "nat \<Rightarrow> nat \<Rightarrow> 'k \<Rightarrow> u8 list option \<times> 'k"
  send :: "nat \<Rightarrow> u8 list \<Rightarrow> 'k \<Rightarrow> int \<times> 'k"
  e_malloc :: "echo \<Rightarrow> nat"
  e_block :: "nat \<Rightarrow> u8 list"

section \<open>Operations\<close>

text \<open>The two tasks: one logs and sets its next date, the other ends.\<close>

definition maintain_stat :: "u32 \<Rightarrow> task \<Rightarrow> task" where
  "maintain_stat ms t = t\<lparr>expire := tick_add ms MAINTAIN_TIME\<rparr>"

definition timeout :: "task \<Rightarrow> task option" where
  "timeout t = None"

definition echo_request_accept :: "echo \<Rightarrow> u32" where
  "echo_request_accept s = (if e_conn s \<ge> e_max_conn s then ZB_FAIL else ZB_NOP)"

definition echo_accept :: "'k socks \<Rightarrow> nat \<Rightarrow> echo \<Rightarrow> 'k \<Rightarrow> (u32 \<times> nat list \<times> echo \<times> 'k) option" where
  "echo_accept os nfd s k =
     (let b = e_malloc os s;
          s1 = s\<lparr>e_heap := (e_heap s)(b \<mapsto> buffer_init (e_block os HTTP_BUFFER_SIZE) HTTP_BUFFER_SIZE),
                 wr_b := (wr_b s)(nfd := b), rd_b := (rd_b s)(nfd := b)\<rparr>
      in if e_conn s1 \<ge> e_max_conn s1 then Some (ZB_FAIL, [], s1, k)
         else Some (ZB_NOP, [], s1\<lparr>e_conn := e_conn s1 + 1\<rparr>, k))"

definition echo_disconnect :: "nat \<Rightarrow> echo \<Rightarrow> 'k \<Rightarrow> (u32 \<times> nat list \<times> echo \<times> 'k) option" where
  "echo_disconnect fd s k = do {
     b \<leftarrow> e_heap s (wr_b s fd);
     Some (ZB_NOP, [], s\<lparr>e_heap := (e_heap s)(wr_b s fd := None), wr_b := (wr_b s)(fd := 0), e_conn := e_conn s - 1\<rparr>, k)
   }"

text \<open>What \<open>recv\<close> stores; then a NUL is written after it, so that the data can be printed.\<close>

definition echo_read :: "'k socks \<Rightarrow> nat \<Rightarrow> echo \<Rightarrow> 'k \<Rightarrow> (u32 \<times> nat list \<times> echo \<times> 'k) option" where
  "echo_read os fd s k = do {
     ib \<leftarrow> e_heap s (wr_b s fd);
     let (d, k1) = recv os fd (nat (buffer_remain_write ib)) k;
     case d of
       None \<Rightarrow> Some (ZB_CLOSE, [], s, k1)
     | Some d \<Rightarrow>
         if d = [] then Some (ZB_CLOSE, [], s, k1)
         else do {
           bl \<leftarrow> Buffers.store (r_ofs ib) d (buff ib);
           let r = r_ofs ib + length d;
           bl1 \<leftarrow> Buffers.store r [0] bl;
           Some (ZB_NOP OR ZB_SET_WR, [], s\<lparr>e_heap := (e_heap s)(wr_b s fd \<mapsto> ib\<lparr>buff := bl1, r_ofs := r\<rparr>)\<rparr>, k1)
         }
   }"

definition echo_write :: "'k socks \<Rightarrow> nat \<Rightarrow> echo \<Rightarrow> 'k \<Rightarrow> (u32 \<times> nat list \<times> echo \<times> 'k) option" where
  "echo_write os fd s k = do {
     ob \<leftarrow> e_heap s (wr_b s fd);
     let (n, k1) = send os fd (pending ob) k;
     if n > 0
     then let ob1 = ob\<lparr>curr_ofs := curr_ofs ob + nat n\<rparr>
          in if buffer_empty ob1
             then Some (ZB_CLOSE_WR, [], s\<lparr>e_heap := (e_heap s)(wr_b s fd \<mapsto> buffer_reset ob1)\<rparr>, k1)
             else Some (ZB_NOP, [], s\<lparr>e_heap := (e_heap s)(wr_b s fd \<mapsto> ob1)\<rparr>, k1)
     else Some (ZB_CLOSE, [], s, k1)
   }"

definition echo_load_config :: "(string \<Rightarrow> int option) \<Rightarrow> echo \<Rightarrow> echo option" where
  "echo_load_config cfg s = (case cfg ''max_conn'' of None \<Rightarrow> None | Some n \<Rightarrow> Some (s\<lparr>e_max_conn := n\<rparr>))"

definition handler_echo :: "'k socks \<Rightarrow> (echo, 'k) handler" where
  "handler_echo os = \<lparr>h_init = None, h_accept = echo_accept os, h_disconnect = echo_disconnect, h_read = echo_read os, h_write = echo_write os\<rparr>"

section \<open>The contract\<close>

text \<open>The documented behaviour of \<open>recv\<close>, \<open>send\<close> and \<open>malloc\<close>: \<open>log k fd\<close> is the pair of the bytes received and the bytes sent
  over the connection; \<open>recv\<close> returns at most the bytes asked for, \<open>send\<close> takes a prefix.\<close>

definition socks_spec :: "'k socks \<Rightarrow> ('k \<Rightarrow> nat \<Rightarrow> u8 list \<times> u8 list) \<Rightarrow> ('k \<Rightarrow> nat set) \<Rightarrow> bool" where
  "socks_spec os log opn \<longleftrightarrow>
     (\<forall>fd n k d k'. recv os fd n k = (d, k') \<longrightarrow> opn k' = opn k \<and>
        (case d of None \<Rightarrow> log k' = log k
         | Some d \<Rightarrow> length d \<le> n \<and> log k' = (log k)(fd := (fst (log k fd) @ d, snd (log k fd))))) \<and>
     (\<forall>fd xs k n k'. send os fd xs k = (n, k') \<longrightarrow> opn k' = opn k \<and> n \<le> int (length xs) \<and>
        log k' = (log k)(fd := (fst (log k fd), snd (log k fd) @ take (nat n) xs))) \<and>
     (\<forall>s. finite (dom (e_heap s)) \<longrightarrow> e_malloc os s \<noteq> 0 \<and> e_heap s (e_malloc os s) = None) \<and> (\<forall>n. length (e_block os n) = n)"

text \<open>Each connected descriptor has a buffer of its own, which holds the bytes received and not yet sent.\<close>

definition echo_conn_ok :: "('k \<Rightarrow> nat \<Rightarrow> u8 list \<times> u8 list) \<Rightarrow> echo \<Rightarrow> 'k \<Rightarrow> nat \<Rightarrow> bool" where
  "echo_conn_ok log s k fd \<longleftrightarrow> (\<exists>b. e_heap s (wr_b s fd) = Some b \<and> buffer_ok b \<and> fst (log k fd) = snd (log k fd) @ pending b)"

definition echo_inv :: "('k \<Rightarrow> nat \<Rightarrow> u8 list \<times> u8 list) \<Rightarrow> echo \<Rightarrow> 'k \<Rightarrow> nat set \<Rightarrow> bool" where
  "echo_inv log s k C \<longleftrightarrow> finite C \<and> e_conn s = int (card C) \<and> (C \<noteq> {} \<longrightarrow> e_conn s \<le> e_max_conn s) \<and> inj_on (wr_b s) C \<and>
     finite (dom (e_heap s)) \<and>
     (\<forall>fd \<in> C. echo_conn_ok log s k fd)"

lemma socks_recv:
  assumes "socks_spec os log opn" and "recv os fd n k = (d, k')"
  shows "opn k' = opn k \<and> (case d of None \<Rightarrow> log k' = log k
    | Some d \<Rightarrow> length d \<le> n \<and> log k' = (log k)(fd := (fst (log k fd) @ d, snd (log k fd))))"
  using conjunct1 [OF assms(1) [unfolded socks_spec_def]] assms(2) by blast

lemma socks_send:
  assumes "socks_spec os log opn" and "send os fd xs k = (n, k')"
  shows "opn k' = opn k \<and> n \<le> int (length xs) \<and> log k' = (log k)(fd := (fst (log k fd), snd (log k fd) @ take (nat n) xs))"
  using conjunct1 [OF conjunct2 [OF assms(1) [unfolded socks_spec_def]]] assms(2) by blast

text \<open>A buffer that changes together with the log of its descriptor.\<close>

lemma echo_inv_upd:
  assumes i: "echo_inv log s k C" and c: "fd \<in> C" and b: "buffer_ok b'" "fst l = snd l @ pending b'" "log k' = (log k)(fd := l)"
  shows "echo_inv log (s\<lparr>e_heap := (e_heap s)(wr_b s fd \<mapsto> b')\<rparr>) k' C"
proof -
  have "echo_conn_ok log (s\<lparr>e_heap := (e_heap s)(wr_b s fd \<mapsto> b')\<rparr>) k' f" if f: "f \<in> C" for f
  proof (cases "f = fd")
    case True
    then show ?thesis using b by (simp add: echo_conn_ok_def)
  next
    case False
    then have "wr_b s f \<noteq> wr_b s fd" using i f c by (auto simp: echo_inv_def inj_on_def)
    then show ?thesis using i f b(3) False by (auto simp: echo_inv_def echo_conn_ok_def)
  qed
  then show ?thesis using i by (auto simp: echo_inv_def)
qed

lemma echo_inv_frame:
  assumes "echo_inv log s k C" and "\<And>fd. fd \<in> C \<Longrightarrow> log k' fd = log k fd"
  shows "echo_inv log s k' C"
  using assms by (auto simp: echo_inv_def echo_conn_ok_def)

text \<open>The data received, with the NUL after them: \<open>echo_read\<close> fails exactly when they fill the block.\<close>

lemma recv_stored:
  assumes b: "buffer_ok b" and d: "int (length d) \<le> buffer_remain_write b"
  shows "\<exists>bl. Buffers.store (r_ofs b) d (buff b) = Some bl \<and> length bl = total b \<and>
    (if int (length d) < buffer_remain_write b
     then \<exists>bl1. Buffers.store (r_ofs b + length d) [0] bl = Some bl1 \<and> buffer_ok (b\<lparr>buff := bl1, r_ofs := r_ofs b + length d\<rparr>) \<and>
       pending (b\<lparr>buff := bl1, r_ofs := r_ofs b + length d\<rparr>) = pending b @ d
     else Buffers.store (r_ofs b + length d) [0] bl = None)"
proof -
  have n: "r_ofs b + length d \<le> length (buff b)" "length (buff b) = total b" "curr_ofs b \<le> r_ofs b"
    using b d by (auto simp: buffer_ok_def buffer_remain_write_def)
  let ?bl = "take (r_ofs b) (buff b) @ d @ drop (r_ofs b + length d) (buff b)"
  have st: "Buffers.store (r_ofs b) d (buff b) = Some ?bl" using n by (simp add: store_def)
  have len: "length ?bl = total b" using n by simp
  show ?thesis
  proof (cases "int (length d) < buffer_remain_write b")
    case True
    then have "r_ofs b + length d < total b" by (simp add: buffer_remain_write_def)
    then show ?thesis using st len n True by (auto simp: store_def buffer_ok_def pending_def)
  next
    case False
    then have "total b \<le> r_ofs b + length d" by (simp add: buffer_remain_write_def)
    then show ?thesis using st len False by (simp add: store_def)
  qed
qed

lemma echo_read_ok:
  assumes os: "socks_spec os log opn" and i: "echo_inv log s k C" and c: "fd \<in> C"
    and r: "echo_read os fd s k = Some (r, ws, s', k')"
  shows "opn k' = opn k \<and> echo_inv log s' k' C"
proof -
  obtain b where b: "e_heap s (wr_b s fd) = Some b" "buffer_ok b" "fst (log k fd) = snd (log k fd) @ pending b"
    using i c by (auto simp: echo_inv_def echo_conn_ok_def)
  obtain d k1 where d: "recv os fd (nat (buffer_remain_write b)) k = (d, k1)" by fastforce
  have k1: "opn k1 = opn k" "case d of None \<Rightarrow> log k1 = log k
      | Some d \<Rightarrow> length d \<le> nat (buffer_remain_write b) \<and> log k1 = (log k)(fd := (fst (log k fd) @ d, snd (log k fd)))"
    by (rule conjunct1 [OF socks_recv [OF os d]], rule conjunct2 [OF socks_recv [OF os d]])
  show ?thesis
  proof (cases "d = None \<or> d = Some []")
    case True
    then have "log k1 = log k" using k1(2) by (auto split: option.splits)
    then have "echo_inv log s k1 C" using echo_inv_frame [OF i] by simp
    moreover have "s' = s \<and> k' = k1" using True
      by (elim disjE) (use r in \<open>simp_all add: echo_read_def b(1) d\<close>)
    ultimately show ?thesis using k1(1) by simp
  next
    case False
    then obtain xs where xs: "d = Some xs" "xs \<noteq> []" by auto
    have "int (length xs) \<le> buffer_remain_write b"
      using k1(2) xs(1) b(2) by (auto simp: buffer_ok_def buffer_remain_write_def)
    from recv_stored [OF b(2) this] r b(1) d xs obtain bl1 where
      bl: "buffer_ok (b\<lparr>buff := bl1, r_ofs := r_ofs b + length xs\<rparr>)" "pending (b\<lparr>buff := bl1, r_ofs := r_ofs b + length xs\<rparr>) = pending b @ xs"
      "s' = s\<lparr>e_heap := (e_heap s)(wr_b s fd \<mapsto> b\<lparr>buff := bl1, r_ofs := r_ofs b + length xs\<rparr>)\<rparr>" "k' = k1"
      by (auto simp: echo_read_def Let_def bind_eq_Some_conv split: if_splits)
    have "echo_inv log s' k1 C" unfolding bl(3)
      by (rule echo_inv_upd [OF i c bl(1)]) (use bl(2) b(3) k1(2) xs(1) in auto)
    then show ?thesis using bl(4) k1(1) by simp
  qed
qed

lemma pending_advance: "pending (b\<lparr>curr_ofs := curr_ofs b + n\<rparr>) = drop n (pending b)"
  by (simp add: pending_def add.commute)

lemma echo_write_ok:
  assumes os: "socks_spec os log opn" and i: "echo_inv log s k C" and c: "fd \<in> C"
    and r: "echo_write os fd s k = Some (r, ws, s', k')"
  shows "opn k' = opn k \<and> echo_inv log s' k' C"
proof -
  obtain b where b: "e_heap s (wr_b s fd) = Some b" "buffer_ok b" "fst (log k fd) = snd (log k fd) @ pending b"
    using i c by (auto simp: echo_inv_def echo_conn_ok_def)
  obtain n k1 where n: "send os fd (pending b) k = (n, k1)" by fastforce
  have k1: "opn k1 = opn k" "n \<le> int (length (pending b))"
      "log k1 = (log k)(fd := (fst (log k fd), snd (log k fd) @ take (nat n) (pending b)))"
    using socks_send [OF os n] by simp_all
  show ?thesis
  proof (cases "n > 0")
    case False
    then have "log k1 = log k" using k1(3) by simp
    then have "echo_inv log s k1 C" using echo_inv_frame [OF i] by simp
    moreover have "s' = s \<and> k' = k1" using r False by (simp add: echo_write_def b(1) n)
    ultimately show ?thesis using k1(1) by simp
  next
    case True
    let ?b1 = "b\<lparr>curr_ofs := curr_ofs b + nat n\<rparr>"
    let ?b2 = "if buffer_empty ?b1 then buffer_reset ?b1 else ?b1"
    have le: "nat n \<le> length (pending b)" using k1(2) by simp
    then have ok1: "buffer_ok ?b1" using b(2) by (auto simp: buffer_ok_def pending_def)
    then have ok: "buffer_ok ?b2" "pending ?b2 = pending ?b1"
      by (auto simp: buffer_ok_def buffer_reset_def buffer_empty_def pending_def)
    have s': "s' = s\<lparr>e_heap := (e_heap s)(wr_b s fd \<mapsto> ?b2)\<rparr>" "k' = k1"
      using r b(1) n True by (auto simp: echo_write_def Let_def split: if_splits)
    have "echo_inv log s' k1 C" unfolding s'(1)
      by (rule echo_inv_upd [OF i c ok(1)]) (use ok(2) b(3) k1(3) in \<open>simp_all add: pending_advance\<close>)
    then show ?thesis using s'(2) k1(1) by simp
  qed
qed

lemma echo_accept_ok:
  assumes os: "socks_spec os log opn" and i: "echo_inv log s k C" and c: "nfd \<notin> C" and f: "log k nfd = ([], [])"
    and r: "echo_accept os nfd s k = Some (r, ws, s', k')"
  shows "opn k' = opn k \<and> echo_inv log s' k' (if r = ZB_NOP then insert nfd C else C)"
proof -
  let ?b = "e_malloc os s" and ?buf = "buffer_init (e_block os HTTP_BUFFER_SIZE) HTTP_BUFFER_SIZE"
  let ?s = "s\<lparr>e_heap := (e_heap s)(?b \<mapsto> ?buf), wr_b := (wr_b s)(nfd := ?b), rd_b := (rd_b s)(nfd := ?b)\<rparr>"
  have new: "e_heap s ?b = None" and bl: "length (e_block os HTTP_BUFFER_SIZE) = HTTP_BUFFER_SIZE"
    using os i by (simp_all add: socks_spec_def echo_inv_def)
  have old: "wr_b s fd \<noteq> ?b" "fd \<noteq> nfd" if "fd \<in> C" for fd using i that new c by (auto simp: echo_inv_def echo_conn_ok_def)
  have conns: "echo_conn_ok log ?s k fd" if "fd \<in> C" for fd
    using i that old [OF that] by (auto simp: echo_inv_def echo_conn_ok_def)
  have fresh: "echo_conn_ok log ?s k nfd"
    using f bl by (simp add: echo_conn_ok_def buffer_ok_def buffer_init_def pending_def)
  have inj: "inj_on (wr_b ?s) (insert nfd C)"
  proof -
    have "?b \<notin> wr_b s ` C" using old(1) by (metis imageE)
    then show ?thesis using inj_on_fun_updI [of "wr_b s" C ?b nfd] i c by (auto simp: echo_inv_def fun_upd_image)
  qed
  have fin: "finite C" "e_conn s = int (card C)" "finite (dom (e_heap s))" using i by (simp_all add: echo_inv_def)
  show ?thesis
  proof (cases "e_conn s \<ge> e_max_conn s")
    case True
    then have "r = ZB_FAIL" "s' = ?s" "k' = k" using r by (simp_all add: echo_accept_def Let_def)
    moreover have "echo_inv log ?s k C" using i conns inj by (auto simp: echo_inv_def)
    ultimately show ?thesis by (simp add: ZB_FAIL_def ZB_NOP_def)
  next
    case False
    then have "r = ZB_NOP" "s' = ?s\<lparr>e_conn := e_conn s + 1\<rparr>" "k' = k" using r by (simp_all add: echo_accept_def Let_def)
    moreover have "echo_inv log (?s\<lparr>e_conn := e_conn s + 1\<rparr>) k (insert nfd C)"
      using False fin inj conns fresh c by (auto simp: echo_inv_def echo_conn_ok_def)
    ultimately show ?thesis by simp
  qed
qed

lemma echo_disconnect_ok:
  assumes i: "echo_inv log s k C" and c: "fd \<in> C" and l: "\<And>f. f \<in> C - {fd} \<Longrightarrow> log k1 f = log k f"
    and r: "echo_disconnect fd s k1 = Some (r, ws, s', k')"
  shows "opn k' = opn k1 \<and> echo_inv log s' k' (C - {fd})"
proof -
  let ?s = "s\<lparr>e_heap := (e_heap s)(wr_b s fd := None), wr_b := (wr_b s)(fd := 0), e_conn := e_conn s - 1\<rparr>"
  have s': "s' = ?s" "k' = k1" using r by (auto simp: echo_disconnect_def bind_eq_Some_conv)
  have conns: "echo_conn_ok log ?s k1 f" if f: "f \<in> C - {fd}" for f
  proof -
    have "wr_b s f \<noteq> wr_b s fd" using i f c by (auto simp: echo_inv_def inj_on_def)
    moreover have "echo_conn_ok log s k f" using i f by (simp add: echo_inv_def)
    ultimately show ?thesis using f l [OF f] by (simp add: echo_conn_ok_def)
  qed
  have "inj_on (wr_b ?s) (C - {fd})" using i by (auto simp: echo_inv_def inj_on_def)
  moreover have n: "finite C" "e_conn s = int (card C)" "e_conn s \<le> e_max_conn s" "finite (dom (e_heap s))"
    using i c by (auto simp: echo_inv_def)
  have "e_conn s = int (card (C - {fd})) + 1" unfolding n(2) card.remove [OF n(1) c] by linarith
  with n have "e_conn ?s = int (card (C - {fd}))" "e_conn ?s \<le> e_max_conn ?s" "finite (C - {fd})"
    by (simp_all del: card_Diff_insert)
  ultimately have "echo_inv log ?s k1 (C - {fd})" using conns n(4) by (simp add: echo_inv_def)
  then show ?thesis using s' by simp
qed

text \<open>The invariant with the documented behaviour it rests on.\<close>

definition echo_service :: "'k socks \<Rightarrow> ('k \<Rightarrow> nat \<Rightarrow> u8 list \<times> u8 list) \<Rightarrow> ('k \<Rightarrow> nat set) \<Rightarrow> echo \<Rightarrow> 'k \<Rightarrow> nat set \<Rightarrow> bool" where
  "echo_service os log opn s k C \<longleftrightarrow> socks_spec os log opn \<and> echo_inv log s k C"

interpretation echo: connection_service "handler_echo os" "echo_service os log opn" log opn "([], [])" for os log opn
proof unfold_locales
  fix s k C k' nfd fd r ws s' k1
  show "echo_service os log opn s k' C" if "echo_service os log opn s k C" "\<And>fd. fd \<in> C \<Longrightarrow> log k' fd = log k fd"
    using that echo_inv_frame [of log s k C k'] by (simp add: echo_service_def)
  show "opn k' = opn k \<and> echo_service os log opn s' k' (if r = ZB_NOP then insert nfd C else C)"
    if "echo_service os log opn s k C" "nfd \<notin> C" "log k nfd = ([], [])" "h_accept (handler_echo os) nfd s k = Some (r, ws, s', k')"
    using that echo_accept_ok [of os log opn s k C nfd r ws s' k'] by (simp add: handler_echo_def echo_service_def)
  show "opn k' = opn k \<and> echo_service os log opn s' k' C"
    if "echo_service os log opn s k C" "fd \<in> C" "h_read (handler_echo os) fd s k = Some (r, ws, s', k')"
    using that echo_read_ok [of os log opn s k C fd r ws s' k'] by (simp add: handler_echo_def echo_service_def)
  show "opn k' = opn k \<and> echo_service os log opn s' k' C"
    if "echo_service os log opn s k C" "fd \<in> C" "h_write (handler_echo os) fd s k = Some (r, ws, s', k')"
    using that echo_write_ok [of os log opn s k C fd r ws s' k'] by (simp add: handler_echo_def echo_service_def)
  show "opn k' = opn k1 \<and> echo_service os log opn s' k' (C - {fd})"
    if "echo_service os log opn s k C" "fd \<in> C" "\<And>f. f \<in> C - {fd} \<Longrightarrow> log k1 f = log k f"
      "h_disconnect (handler_echo os) fd s k1 = Some (r, ws, s', k')"
    using that echo_disconnect_ok [of log s k C fd k1 r ws s' k' opn] by (simp add: handler_echo_def echo_service_def)
qed

section \<open>Properties\<close>

text \<open>The server after \<open>env_init\<close>: no descriptor in the table, no connection.\<close>

definition booted :: "(echo, 'k) server \<Rightarrow> bool" where
  "booted p \<longleftrightarrow> \<not> halted (kern p) \<and> fd_state p = (\<lambda>_. FD_STCLOSE) \<and> cb_f (kern p) = (\<lambda>_ _. Null) \<and> e_conn (svc (kern p)) = 0 \<and>
     finite (dom (e_heap (svc (kern p))))"

lemma booted_service: "booted p \<Longrightarrow> socks_spec os log opn \<Longrightarrow> server_ok (echo_service os log opn) opn p \<and> starting p"
  by (auto simp: booted_def server_ok_def table_ok_def conns_def echo_service_def echo_inv_def starting_def)

lemma booted_ok:
  assumes "booted p" "0 \<le> lfd" "nat lfd \<in> opn (os_state (kern p))" "socks_spec os log opn" "\<And>l. handler_of e l = handler_echo os"
  shows "server_ok (echo_service os log opn) opn (enable_fds [nat lfd] (tcp_bind e l lfd p))"
proof -
  have "h_init (handler_of e l) = None" using assms(5) by (simp add: handler_echo_def)
  from tcp_bind_ok [where opn = opn and p = p and fd = lfd, OF _ _ assms(3) this] booted_service [OF assms(1,4)]
  have "server_ok (echo_service os log opn) opn (tcp_bind e l lfd p)" by blast
  then show ?thesis by (simp add: enable_fds_def server_ok_def table_ok_def conns_def)
qed

text \<open>C2: in every run of the event loop that serves a listener with the echo service, whatever the events, their order, the sizes of
  the packets and the moments at which connections come and go: the bytes sent over a connection followed by those in its buffer are exactly
  the bytes received over it, in order; no two connections share a buffer; and \<open>_stat.conn\<close> is the number of connected descriptors,
  never above \<open>max_conn\<close>.\<close>

theorem echo_fifo:
  assumes run: "server_run e (enable_fds [nat lfd] (tcp_bind e l lfd p)) p'" and p: "booted p" "0 \<le> lfd" "nat lfd \<in> opn (os_state (kern p))"
    and k: "kernel_spec e log opn ([], [])" "socks_spec os log opn" "\<And>l. handler_of e l = handler_echo os"
    and alive: "\<not> halted (kern p')"
  shows "e_conn (svc (kern p')) = int (card (conns p')) \<and> (conns p' \<noteq> {} \<longrightarrow> e_conn (svc (kern p')) \<le> e_max_conn (svc (kern p'))) \<and>
    inj_on (wr_b (svc (kern p'))) (conns p') \<and>
    (\<forall>fd \<in> conns p'. \<exists>b. e_heap (svc (kern p')) (wr_b (svc (kern p')) fd) = Some b \<and> buffer_ok b \<and>
       fst (log (os_state (kern p')) fd) = snd (log (os_state (kern p')) fd) @ pending b)"
proof -
  from echo.server_run_ok [OF run booted_ok [OF p k(2,3)] k(1,3)] alive have "echo_inv log (svc (kern p')) (os_state (kern p')) (conns p')"
    by (simp add: server_ok_def echo_service_def)
  then show ?thesis unfolding echo_inv_def echo_conn_ok_def by blast
qed

text \<open>A small kernel: descriptors are given out in order, every packet holds the two bytes \<open>hi\<close>, \<open>send\<close> takes one byte at a time;
  the listener 3 is readable first, then the connection is readable and writable.\<close>

record toy =
  toy_next :: nat
  toy_open :: "nat set"
  toy_log :: "nat \<Rightarrow> u8 list \<times> u8 list"

definition toy_sys :: "toy sys" where
  "toy_sys = \<lparr>epoll_ctl = (\<lambda>_ _ _ k. k), close_fd = (\<lambda>fd k. k\<lparr>toy_open := toy_open k - {fd}\<rparr>),
     epoll_wait = (\<lambda>_ k. (1, [if toy_next k = 4 then (3, EPOLLIN) else (4, EPOLLIN OR EPOLLOUT)]))\<rparr>"

definition toy_accept :: "nat \<Rightarrow> toy \<Rightarrow> int \<times> toy" where
  "toy_accept fd k = (if toy_next k \<in> toy_open k then (- 1, k)
     else (int (toy_next k), k\<lparr>toy_next := toy_next k + 1, toy_open := insert (toy_next k) (toy_open k),
       toy_log := (toy_log k)(toy_next k := ([], []))\<rparr>))"

definition toy_malloc :: "echo \<Rightarrow> nat" where
  "toy_malloc s = while (\<lambda>a. e_heap s a \<noteq> None) Suc 1"

lemma toy_malloc_free:
  assumes "finite (dom (e_heap s))"
  shows "toy_malloc s \<noteq> 0 \<and> e_heap s (toy_malloc s) = None"
  unfolding toy_malloc_def
proof (rule while_rule [where P = "\<lambda>a. a \<noteq> 0" and r = "measure (\<lambda>a. card {x \<in> dom (e_heap s). a \<le> x})"])
  fix a
  assume "e_heap s a \<noteq> None"
  then have "{x \<in> dom (e_heap s). Suc a \<le> x} \<subset> {x \<in> dom (e_heap s). a \<le> x}"
    by (intro psubsetI) (auto dest: equalityD2 [THEN subsetD, of _ _ a])
  then show "(Suc a, a) \<in> measure (\<lambda>a. card {x \<in> dom (e_heap s). a \<le> x})"
    using assms by (simp add: psubset_card_mono)
qed simp_all

definition toy_socks :: "toy socks" where
  "toy_socks = \<lparr>recv = (\<lambda>fd n k. (Some (take n [104, 105]), k\<lparr>toy_log := (toy_log k)(fd := (fst (toy_log k fd) @ take n [104, 105], snd (toy_log k fd)))\<rparr>)),
     send = (\<lambda>fd xs k. (min 1 (int (length xs)), k\<lparr>toy_log := (toy_log k)(fd := (fst (toy_log k fd), snd (toy_log k fd) @ take 1 xs))\<rparr>)),
     e_malloc = toy_malloc, e_block = (\<lambda>n. replicate n 0)\<rparr>"

definition toy_env :: "(echo, toy) env" where
  "toy_env = \<lparr>esys = toy_sys, do_accept = toy_accept, maxconn = 16, handler_of = (\<lambda>_. handler_echo toy_socks), no_value = 0\<rparr>"

lemma toy_specs: "socks_spec toy_socks toy_log toy_open" "kernel_spec toy_env toy_log toy_open ([], [])"
proof -
  have "take (Suc 0) xs = take (nat (min 1 (int (length xs)))) xs" for xs :: "u8 list" by (cases xs) auto
  then show "socks_spec toy_socks toy_log toy_open" by (auto simp: socks_spec_def toy_socks_def toy_malloc_free)
  show "kernel_spec toy_env toy_log toy_open ([], [])"
    by (auto simp: kernel_spec_def toy_env_def toy_sys_def toy_accept_def split: if_splits)
qed

definition toy_server :: "(echo, toy) server" where
  "toy_server = \<lparr>fd_evts = [0], chg_list = [], chg_ptr = (\<lambda>_. None), fd_state = (\<lambda>_. FD_STCLOSE), maxfd = 0,
     clk = clock0, kern = \<lparr>cb_f = (\<lambda>_ _. Null), fd_owner = (\<lambda>_. 0),
       svc = \<lparr>e_heap = Map.empty, rd_b = (\<lambda>_. 0), wr_b = (\<lambda>_. 0), e_conn = 0, e_max_conn = 8\<rparr>,
       os_state = \<lparr>toy_next = 4, toy_open = {3}, toy_log = (\<lambda>_. ([], []))\<rparr>, halted = False\<rparr>\<rparr>"

definition toy_round :: "(echo, toy) server \<Rightarrow> (echo, toy) server" where
  "toy_round p = poll_do (lift_sys (esys toy_env)) (server_cb toy_env) (tv_zero, tv_zero) 0 p"

definition toy_end :: "(echo, toy) server" where
  "toy_end = toy_round (toy_round (enable_fds [nat 3] (tcp_bind toy_env 0 3 toy_server)))"

lemma toy_facts: "fd_state toy_end 4 = FD_STCONN" "\<not> halted (kern toy_end)"
    "toy_log (os_state (kern toy_end)) 4 = (bytes ''hi'', bytes ''h'')"
  by code_simp+

text \<open>In the example the first round accepts the connection, the second receives \<open>hi\<close> and sends one byte.\<close>

theorem echo_fifo_witness:
  "\<exists>b. server_run toy_env (enable_fds [nat 3] (tcp_bind toy_env 0 3 toy_server)) toy_end \<and> 4 \<in> conns toy_end \<and>
     e_conn (svc (kern toy_end)) = int (card (conns toy_end)) \<and> e_heap (svc (kern toy_end)) (wr_b (svc (kern toy_end)) 4) = Some b \<and>
     bytes ''hi'' = bytes ''h'' @ pending b"
proof -
  have run: "server_run toy_env (enable_fds [nat 3] (tcp_bind toy_env 0 3 toy_server)) toy_end"
    unfolding toy_end_def toy_round_def by (intro server_run.round server_run.start)
  have p: "booted toy_server" "0 \<le> (3 :: int)" "nat 3 \<in> toy_open (os_state (kern toy_server))"
    by (simp_all add: booted_def toy_server_def)
  have h: "handler_of toy_env l = handler_echo toy_socks" for l by (simp add: toy_env_def)
  from echo_fifo [OF run p toy_specs(2,1) h toy_facts(2)] run toy_facts(1,3) show ?thesis by (auto simp: conns_def)
qed



section \<open>A packet that fills the buffer\<close>

text \<open>\<open>echo_read\<close> adds a packet that leaves room to the buffer and asks for writing; the NUL it writes after a packet that fills
  the buffer exactly falls outside the block.\<close>

theorem echo_read_full:
  assumes b: "e_heap s (wr_b s fd) = Some ib" "buffer_ok ib" and r: "recv os fd (nat (buffer_remain_write ib)) k = (Some d, k')"
    and d: "d \<noteq> []" "int (length d) \<le> buffer_remain_write ib"
  shows "if int (length d) < buffer_remain_write ib
    then \<exists>ib'. echo_read os fd s k = Some (ZB_SET_WR, [], s\<lparr>e_heap := (e_heap s)(wr_b s fd \<mapsto> ib')\<rparr>, k') \<and>
      buffer_ok ib' \<and> pending ib' = pending ib @ d
    else echo_read os fd s k = None"
  using recv_stored [OF b(2) d(2)] b(1) r d(1) by (auto simp: echo_read_def Let_def ZB_NOP_def split: if_splits)

theorem echo_read_full_witness:
  "echo_read (toy_socks\<lparr>recv := \<lambda>fd n k. (Some (replicate n 120), k)\<rparr>) 5
     \<lparr>e_heap = [1 \<mapsto> buffer_init (replicate 4096 0) 4096], rd_b = (\<lambda>_. 1), wr_b = (\<lambda>_. 1), e_conn = 1, e_max_conn = 8\<rparr> (os_state (kern toy_server)) = None"
proof -
  let ?ib = "buffer_init (replicate 4096 0) 4096"
  let ?s = "\<lparr>e_heap = [1 \<mapsto> ?ib], rd_b = (\<lambda>_. 1), wr_b = (\<lambda>_. 1), e_conn = 1, e_max_conn = 8\<rparr>"
  let ?os = "toy_socks\<lparr>recv := \<lambda>fd n k. (Some (replicate n 120), k)\<rparr>"
  have b: "e_heap ?s (wr_b ?s 5) = Some ?ib" "buffer_ok ?ib" "buffer_remain_write ?ib = 4096"
    by (simp_all add: buffer_ok_def buffer_init_def buffer_remain_write_def)
  let ?k = "os_state (kern toy_server)"
  have r: "recv ?os 5 (nat (buffer_remain_write ?ib)) ?k = (Some (replicate 4096 120), ?k)" by (simp add: b(3))
  have d: "replicate 4096 (120 :: u8) \<noteq> []" "int (length (replicate 4096 (120 :: u8))) \<le> buffer_remain_write ?ib" by (simp_all add: b(3))
  from echo_read_full [OF b(1,2) r d] show ?thesis by (simp add: b(3))
qed

end
