(* ===== verification/Signals.thy ===== *)
theory Signals
  imports Prelude
begin

text \<open>
  The signal queue, \<open>src/src/signal.c\<close> and \<open>src/src/zsignal.h\<close>. The system's dispositions are part of the state, changed by
  \<open>signal ()\<close>; handlers are numbers, called through the parameter \<open>call\<close>, which changes the state as the handler does (it may
  call \<open>signal_register\<close>); the record can be extended with the rest of the program's state, which handlers may change. A write past the queue is \<open>None\<close>. Signals are blocked while the queue is processed, so that
  deliveries happen between the calls of these operations.
\<close>

definition MAX_SIGNAL :: nat where "MAX_SIGNAL = 256"

datatype disposition = SIG_DFL | SIG_IGN | SIG_HANDLER

record signals =
  signal_queue_len :: nat
  signal_queue :: "nat list"
  sig_count :: "nat \<Rightarrow> nat"                \<comment> \<open>\<open>signal_state[sig].count\<close>\<close>
  sig_handler :: "nat \<Rightarrow> nat option"       \<comment> \<open>\<open>signal_state[sig].handler\<close>\<close>
  disp :: "int \<Rightarrow> disposition"

definition signal_init :: "'a signals_scheme \<Rightarrow> 'a signals_scheme" where
  "signal_init s = s\<lparr>signal_queue_len := 0, signal_queue := replicate MAX_SIGNAL 0, sig_count := (\<lambda>_. 0), sig_handler := (\<lambda>_. None)\<rparr>"

definition out_of_range :: "int \<Rightarrow> bool" where
  "out_of_range sig \<longleftrightarrow> sig < 0 \<or> sig \<ge> int MAX_SIGNAL"

definition signal_handler :: "int \<Rightarrow> 'a signals_scheme \<Rightarrow> 'a signals_scheme option" where
  "signal_handler sig s =
     (let n = nat sig
      in if out_of_range sig \<or> sig_handler s n = None then Some (s\<lparr>disp := (disp s)(sig := SIG_IGN)\<rparr>)
         else do {
           s1 \<leftarrow> (if sig_count s n = 0
                  then if signal_queue_len s < MAX_SIGNAL
                       then if signal_queue_len s < length (signal_queue s)
                            then Some (s\<lparr>signal_queue := (signal_queue s)[signal_queue_len s := n], signal_queue_len := signal_queue_len s + 1\<rparr>)
                            else None
                       else Some s
                  else Some s);
           Some (s1\<lparr>sig_count := (sig_count s1)(n := sig_count s1 n + 1), disp := (disp s1)(sig := SIG_HANDLER)\<rparr>)
         })"

text \<open>The handler argument: NULL and \<open>SIG_IGN\<close>, \<open>SIG_DFL\<close>, or a function.\<close>

datatype handler_arg = Ignore | Default | Function nat

definition signal_register :: "int \<Rightarrow> handler_arg \<Rightarrow> 'a signals_scheme \<Rightarrow> 'a signals_scheme" where
  "signal_register sig h s =
     (if out_of_range sig then s
      else let n = nat sig; s1 = s\<lparr>sig_count := (sig_count s)(n := 0)\<rparr>
           in case h of
                Function f \<Rightarrow> s1\<lparr>sig_handler := (sig_handler s1)(n \<mapsto> f), disp := (disp s1)(sig := SIG_HANDLER)\<rparr>
              | Ignore \<Rightarrow> s1\<lparr>sig_handler := (sig_handler s1)(n := None), disp := (disp s1)(sig := SIG_IGN)\<rparr>
              | Default \<Rightarrow> s1\<lparr>sig_handler := (sig_handler s1)(n := None), disp := (disp s1)(sig := SIG_DFL)\<rparr>)"

text \<open>The loop of \<open>__signal_process_queue\<close>; it reads the length again in each round.\<close>

function process_loop :: "(nat \<Rightarrow> nat \<Rightarrow> 'a signals_scheme \<Rightarrow> 'a signals_scheme) \<Rightarrow> nat \<Rightarrow> 'a signals_scheme \<Rightarrow> 'a signals_scheme option" where
  "process_loop call cur_pos s =
     (if cur_pos < signal_queue_len s
      then if cur_pos \<ge> MAX_SIGNAL \<or> cur_pos \<ge> length (signal_queue s) then None
           else let sig = signal_queue s ! cur_pos;
                    s2 = (if sig_count s sig \<noteq> 0
                          then let s1 = (case sig_handler s sig of Some f \<Rightarrow> call f sig s | None \<Rightarrow> s)
                               in s1\<lparr>sig_count := (sig_count s1)(sig := 0)\<rparr>
                          else s)
                in process_loop call (cur_pos + 1) s2
      else Some s)"
  by auto

termination
  by (relation "measure (\<lambda>(call, pos, s). MAX_SIGNAL - pos)") (auto simp: MAX_SIGNAL_def)

declare process_loop.simps [simp del]

definition raw_signal_process_queue :: "(nat \<Rightarrow> nat \<Rightarrow> 'a signals_scheme \<Rightarrow> 'a signals_scheme) \<Rightarrow> 'a signals_scheme \<Rightarrow> 'a signals_scheme option" where
  "raw_signal_process_queue call s = map_option (\<lambda>s1. s1\<lparr>signal_queue_len := 0\<rparr>) (process_loop call 0 s)"

definition signal_process_queue :: "(nat \<Rightarrow> nat \<Rightarrow> 'a signals_scheme \<Rightarrow> 'a signals_scheme) \<Rightarrow> 'a signals_scheme \<Rightarrow> 'a signals_scheme option" where
  "signal_process_queue call s = (if signal_queue_len s > 0 then raw_signal_process_queue call s else Some s)"

section \<open>The invariant\<close>

definition queued :: "'a signals_scheme \<Rightarrow> nat list" where
  "queued s = take (signal_queue_len s) (signal_queue s)"

text \<open>The queue holds exactly the signals with a count, each once; these have a handler.\<close>

definition sig_inv :: "'a signals_scheme \<Rightarrow> bool" where
  "sig_inv s \<longleftrightarrow> length (signal_queue s) = MAX_SIGNAL \<and> signal_queue_len s \<le> MAX_SIGNAL \<and> distinct (queued s) \<and>
     (\<forall>n. n \<in> set (queued s) \<longleftrightarrow> 0 < sig_count s n) \<and> (\<forall>n. 0 < sig_count s n \<longrightarrow> n < MAX_SIGNAL \<and> sig_handler s n \<noteq> None)"

lemma length_queued: "sig_inv s \<Longrightarrow> length (queued s) = signal_queue_len s"
  by (simp add: sig_inv_def queued_def)

text \<open>The queue has room for a signal that is not in it.\<close>

lemma queue_room:
  assumes "sig_inv s" and "n < MAX_SIGNAL" and "n \<notin> set (queued s)"
  shows "signal_queue_len s < MAX_SIGNAL"
proof -
  have "set (queued s) \<subset> {..<MAX_SIGNAL}" using assms by (auto simp: sig_inv_def)
  then have "card (set (queued s)) < MAX_SIGNAL" by (metis card_lessThan finite_lessThan psubset_card_mono)
  then show ?thesis using assms(1) length_queued [OF assms(1)] by (simp add: sig_inv_def distinct_card)
qed

lemma signal_handler_ok:
  assumes inv: "sig_inv s"
  shows "\<exists>s'. signal_handler sig s = Some s' \<and> sig_inv s' \<and>
    (if \<not> out_of_range sig \<and> sig_handler s (nat sig) \<noteq> None
     then sig_count s' = (sig_count s)(nat sig := sig_count s (nat sig) + 1) \<and> disp s' sig = SIG_HANDLER \<and>
       queued s' = (if nat sig \<in> set (queued s) then queued s else queued s @ [nat sig])
     else disp s' sig = SIG_IGN \<and> sig_count s' = sig_count s \<and> queued s' = queued s)"
proof (cases "\<not> out_of_range sig \<and> sig_handler s (nat sig) \<noteq> None")
  case True
  let ?n = "nat sig"
  have n: "?n < MAX_SIGNAL" using True by (auto simp: out_of_range_def)
  have m: "?n \<in> set (queued s) \<longleftrightarrow> sig_count s ?n \<noteq> 0" using inv by (auto simp: sig_inv_def)
  show ?thesis
  proof (cases "?n \<in> set (queued s)")
    case False
    have r: "signal_queue_len s < MAX_SIGNAL" by (rule queue_room [OF inv n False])
    then have q: "take (signal_queue_len s + 1) ((signal_queue s)[signal_queue_len s := ?n]) = queued s @ [?n]"
      using inv by (simp add: sig_inv_def queued_def take_Suc_conv_app_nth)
    show ?thesis using True False m n r q inv by (auto simp: signal_handler_def Let_def sig_inv_def queued_def)
  qed (use True m inv n in \<open>auto simp: signal_handler_def Let_def sig_inv_def queued_def\<close>)
next
  case False
  then show ?thesis using inv by (auto simp: signal_handler_def Let_def sig_inv_def queued_def)
qed

text \<open>C26: a signal with a handler is always accepted: its count goes up and, when it was not waiting, it is put at the end of the
  queue, for which there is always room; other signals are set to be ignored. The invariant is kept.\<close>

theorem signal_handler_spec:
  assumes inv: "sig_inv s"
  shows "\<exists>s'. signal_handler sig s = Some s' \<and> sig_inv s' \<and>
    (if \<not> out_of_range sig \<and> sig_handler s (nat sig) \<noteq> None
     then sig_count s' = (sig_count s)(nat sig := sig_count s (nat sig) + 1) \<and> disp s' sig = SIG_HANDLER \<and>
       queued s' = (if nat sig \<in> set (queued s) then queued s else queued s @ [nat sig])
     else disp s' sig = SIG_IGN \<and> sig_count s' = sig_count s \<and> queued s' = queued s)"
  using inv by (rule signal_handler_ok)

definition signals1 :: signals where
  "signals1 = \<lparr>signal_queue_len = 0, signal_queue = replicate MAX_SIGNAL 0, sig_count = (\<lambda>_. 0), sig_handler = [15 \<mapsto> 7], disp = (\<lambda>_. SIG_DFL)\<rparr>"

lemma signals1_inv: "sig_inv signals1"
  by (simp add: sig_inv_def signals1_def queued_def)

theorem signal_handler_spec_witness:
  "\<exists>s'. signal_handler 15 signals1 = Some s' \<and> queued s' = [15] \<and> sig_count s' 15 = 1"
proof -
  have "\<not> out_of_range 15 \<and> sig_handler signals1 (nat 15) \<noteq> None" "queued signals1 = []" "sig_count signals1 (nat 15) = 0"
    by (simp_all add: out_of_range_def signals1_def queued_def MAX_SIGNAL_def)
  then show ?thesis using signal_handler_spec [OF signals1_inv, of 15] by auto
qed

section \<open>Processing\<close>

text \<open>Handlers that leave the queue and the descriptors alone, as those of the program do.\<close>

definition quiet :: "(nat \<Rightarrow> nat \<Rightarrow> 'a signals_scheme \<Rightarrow> 'a signals_scheme) \<Rightarrow> bool" where
  "quiet call \<longleftrightarrow> (\<forall>f n s. signal_queue (call f n s) = signal_queue s \<and> signal_queue_len (call f n s) = signal_queue_len s \<and>
     sig_count (call f n s) = sig_count s \<and> sig_handler (call f n s) = sig_handler s)"

definition serve :: "(nat \<Rightarrow> nat \<Rightarrow> 'a signals_scheme \<Rightarrow> 'a signals_scheme) \<Rightarrow> nat \<Rightarrow> 'a signals_scheme \<Rightarrow> 'a signals_scheme" where
  "serve call n s = (let s1 = call (the (sig_handler s n)) n s in s1\<lparr>sig_count := (sig_count s1)(n := 0)\<rparr>)"

lemma serve_fields:
  assumes "quiet call"
  shows "signal_queue (serve call n s) = signal_queue s" "signal_queue_len (serve call n s) = signal_queue_len s"
    "sig_handler (serve call n s) = sig_handler s" "sig_count (serve call n s) = (sig_count s)(n := 0)"
  using assms by (simp_all add: quiet_def serve_def Let_def)

lemma process_loop_serves:
  assumes q: "quiet call" and "length (signal_queue s) = MAX_SIGNAL" and "signal_queue_len s \<le> MAX_SIGNAL" and "pos \<le> signal_queue_len s"
    and "distinct (queued s)" and "\<forall>n \<in> set (drop pos (queued s)). 0 < sig_count s n \<and> sig_handler s n \<noteq> None"
  shows "process_loop call pos s = Some (fold (serve call) (drop pos (queued s)) s)"
  using assms(2-)
proof (induction "signal_queue_len s - pos" arbitrary: pos s)
  case 0
  then show ?case by (simp add: process_loop.simps [of _ pos] queued_def)
next
  case (Suc k)
  let ?n = "signal_queue s ! pos"
  have p: "pos < signal_queue_len s" "pos < length (queued s)" using Suc by (auto simp: queued_def)
  then have n: "queued s ! pos = ?n" by (simp add: queued_def)
  have d: "drop pos (queued s) = ?n # drop (Suc pos) (queued s)" using Cons_nth_drop_Suc [OF p(2)] n by simp
  let ?s = "serve call ?n s"
  note f = serve_fields [OF q, of ?n s]
  have qs: "queued ?s = queued s" by (simp add: queued_def f)
  have "?n \<notin> set (drop (Suc pos) (queued s))" using Suc.prems(4) d distinct_drop [of "queued s" pos] by simp
  then have rest: "\<forall>m \<in> set (drop (Suc pos) (queued ?s)). 0 < sig_count ?s m \<and> sig_handler ?s m \<noteq> None"
    using Suc.prems(5) d by (auto simp: qs f)
  have "sig_count s ?n \<noteq> 0" "sig_handler s ?n \<noteq> None" using Suc.prems(5) d by auto
  then have "process_loop call pos s = process_loop call (Suc pos) ?s"
    using p(1) Suc.prems(1,2) by (auto simp: process_loop.simps [of _ pos] serve_def Let_def)
  also have "\<dots> = Some (fold (serve call) (drop (Suc pos) (queued ?s)) ?s)"
    using Suc.hyps(2) Suc.prems p(1) rest by (intro Suc.hyps(1)) (simp_all add: f qs)
  finally show ?case by (simp add: d qs)
qed

lemma fold_serve_fields:
  assumes "quiet call"
  shows "signal_queue (fold (serve call) ns s) = signal_queue s \<and> sig_handler (fold (serve call) ns s) = sig_handler s \<and>
    signal_queue_len (fold (serve call) ns s) = signal_queue_len s \<and>
    sig_count (fold (serve call) ns s) = (\<lambda>n. if n \<in> set ns then 0 else sig_count s n)"
  by (induction ns arbitrary: s) (auto simp: serve_fields [OF assms])

lemma process_queue_ok:
  assumes inv: "sig_inv s" and q: "quiet call"
  shows "\<exists>s'. signal_process_queue call s = Some s' \<and> sig_inv s' \<and> queued s' = [] \<and> sig_count s' = (\<lambda>_. 0) \<and>
    s' = (fold (serve call) (queued s) s)\<lparr>signal_queue_len := 0\<rparr>"
proof -
  have z: "sig_count s n = 0" if "n \<notin> set (queued s)" for n using inv that unfolding sig_inv_def by blast
  let ?s = "(fold (serve call) (queued s) s)\<lparr>signal_queue_len := 0\<rparr>"
  note f = fold_serve_fields [OF q, of "queued s" s]
  have "process_loop call 0 s = Some (fold (serve call) (drop 0 (queued s)) s)"
    using inv by (intro process_loop_serves [OF q]) (auto simp: sig_inv_def)
  then have "signal_process_queue call s = Some ?s"
    by (cases "signal_queue_len s") (simp_all add: signal_process_queue_def raw_signal_process_queue_def queued_def)
  moreover have c: "sig_count ?s = (\<lambda>_. 0)" using f z by (simp add: fun_eq_iff)
  moreover have "sig_inv ?s" using inv f c by (simp add: sig_inv_def queued_def)
  ultimately show ?thesis by (simp add: queued_def)
qed

text \<open>Processing the queue calls the handler of every waiting signal exactly once, in the order in which the signals were
  first received, and leaves no signal waiting.\<close>

theorem process_queue_spec:
  assumes inv: "sig_inv s" and q: "quiet call"
  shows "\<exists>s'. signal_process_queue call s = Some s' \<and> sig_inv s' \<and> queued s' = [] \<and> sig_count s' = (\<lambda>_. 0) \<and>
    s' = (fold (serve call) (queued s) s)\<lparr>signal_queue_len := 0\<rparr>"
  using inv q by (rule process_queue_ok)

theorem process_queue_spec_witness:
  "\<exists>s1 s2. signal_handler 15 signals1 = Some s1 \<and> signal_process_queue (\<lambda>f n s. s\<lparr>disp := (disp s)(int n := SIG_IGN)\<rparr>) s1 = Some s2 \<and>
     queued s2 = [] \<and> sig_count s2 15 = 0"
proof -
  let ?s = "signals1\<lparr>signal_queue := (replicate MAX_SIGNAL 0)[0 := 15], signal_queue_len := 1, sig_count := (\<lambda>_. 0)(15 := 1),
    disp := (\<lambda>_. SIG_DFL)(15 := SIG_HANDLER)\<rparr>"
  have s1: "signal_handler 15 signals1 = Some ?s"
    by (simp add: signal_handler_def signals1_def out_of_range_def MAX_SIGNAL_def)
  have "replicate MAX_SIGNAL (0 :: nat) = 0 # replicate 255 0" using replicate_Suc [of 255 "0 :: nat"] by (simp add: MAX_SIGNAL_def)
  then have "sig_inv ?s" by (simp add: sig_inv_def signals1_def queued_def) (simp add: MAX_SIGNAL_def)
  then show ?thesis
    using process_queue_spec [of ?s "\<lambda>f n s. s\<lparr>disp := (disp s)(int n := SIG_IGN)\<rparr>"] s1 by (auto simp: quiet_def)
qed

text \<open>Registering a handler while its signal waits resets the count but leaves the queue as it is, although the comment
  says that the queue is flushed: the next delivery puts the signal into the queue a second time.\<close>

lemma register_leaves_queue: "queued (signal_register sig h s) = queued s"
  by (auto simp: signal_register_def Let_def queued_def split: handler_arg.split)

end
