(* ===== verification/Clist.thy ===== *)
theory Clist
  imports Prelude
begin

text \<open>
  The circular lists of \<open>src/src/common/mini-clist.h\<close> on an explicit store: a list entry is an address, its \<open>n\<close> and \<open>p\<close> pointers
  are two maps, and the assignments of the macros are updates in the order in which C does them. Shown: the macros implement operations on HOL
  lists, and \<open>list_for_each_entry\<close> ends and visits exactly the elements, in order. The macros for lists that end with NULL (\<open>DLIST\<close>) and the deprecated iterators are not used by the program.
\<close>

section \<open>The macros\<close>

record links =
  nxt :: "nat \<Rightarrow> nat"     \<comment> \<open>the member \<open>n\<close>\<close>
  prv :: "nat \<Rightarrow> nat"     \<comment> \<open>the member \<open>p\<close>\<close>

definition set_n :: "nat \<Rightarrow> nat \<Rightarrow> 'b links_scheme \<Rightarrow> 'b links_scheme" where
  "set_n a v s = s\<lparr>nxt := (nxt s)(a := v)\<rparr>"

definition set_p :: "nat \<Rightarrow> nat \<Rightarrow> 'b links_scheme \<Rightarrow> 'b links_scheme" where
  "set_p a v s = s\<lparr>prv := (prv s)(a := v)\<rparr>"

definition LIST_INIT :: "nat \<Rightarrow> 'b links_scheme \<Rightarrow> 'b links_scheme" where
  "LIST_INIT l s = set_n l l (set_p l l s)"

definition LIST_ADD :: "nat \<Rightarrow> nat \<Rightarrow> 'b links_scheme \<Rightarrow> 'b links_scheme" where
  "LIST_ADD lh el s =
     (let s1 = set_n el (nxt s lh) s; s2 = set_n lh el s1; s3 = set_p (nxt s2 el) el s2 in set_p el lh s3)"

definition LIST_ADDQ :: "nat \<Rightarrow> nat \<Rightarrow> 'b links_scheme \<Rightarrow> 'b links_scheme" where
  "LIST_ADDQ lh el s =
     (let s1 = set_p el (prv s lh) s; s2 = set_p lh el s1; s3 = set_n (prv s2 el) el s2 in set_n el lh s3)"

definition LIST_DEL :: "nat \<Rightarrow> 'b links_scheme \<Rightarrow> 'b links_scheme" where
  "LIST_DEL el s = (let s1 = set_p (nxt s el) (prv s el) s in set_n (prv s1 el) (nxt s1 el) s1)"

definition LIST_ISEMPTY :: "nat \<Rightarrow> 'b links_scheme \<Rightarrow> bool" where
  "LIST_ISEMPTY lh s \<longleftrightarrow> nxt s lh = lh"

text \<open>The loop of \<open>list_for_each_entry\<close>; \<open>body\<close> is what the client does with an entry: its new state and whether it leaves the
  loop, or \<open>None\<close> when the process ends. A list that does not lead back to its head is walked forever. The bodies of the program leave the links alone.\<close>

partial_function (option) each_from :: "(nat \<Rightarrow> 'a \<Rightarrow> (bool \<times> 'a) option) \<Rightarrow> 'b links_scheme \<Rightarrow> nat \<Rightarrow> nat \<Rightarrow> 'a \<Rightarrow> 'a option" where
  "each_from body s lh item acc =
     (if item = lh then Some acc
      else Option.bind (body item acc) (\<lambda>r. if fst r then Some (snd r) else each_from body s lh (nxt s item) (snd r)))"

declare each_from.simps [code]

definition list_for_each_entry :: "(nat \<Rightarrow> 'a \<Rightarrow> (bool \<times> 'a) option) \<Rightarrow> 'b links_scheme \<Rightarrow> nat \<Rightarrow> 'a \<Rightarrow> 'a option" where
  "list_for_each_entry body s lh acc = each_from body s lh (nxt s lh) acc"

section \<open>Lists\<close>

fun seg :: "'b links_scheme \<Rightarrow> nat \<Rightarrow> nat list \<Rightarrow> nat \<Rightarrow> bool" where
  "seg s a [] b \<longleftrightarrow> nxt s a = b \<and> prv s b = a"
| "seg s a (x # xs) b \<longleftrightarrow> nxt s a = x \<and> prv s x = a \<and> seg s x xs b"

text \<open>The list at head \<open>h\<close> has the entries \<open>xs\<close>.\<close>

definition clist :: "'b links_scheme \<Rightarrow> nat \<Rightarrow> nat list \<Rightarrow> bool" where
  "clist s h xs \<longleftrightarrow> distinct (h # xs) \<and> seg s h xs h"

lemma seg_append: "seg s a (xs @ y # ys) b \<longleftrightarrow> seg s a xs y \<and> seg s y ys b"
  by (induction xs arbitrary: a) auto

lemma seg_frame:
  assumes "\<And>x. x \<in> set (a # xs) \<Longrightarrow> nxt s' x = nxt s x" "\<And>x. x \<in> set (xs @ [b]) \<Longrightarrow> prv s' x = prv s x"
  shows "seg s' a xs b \<longleftrightarrow> seg s a xs b"
  using assms by (induction xs arbitrary: a) auto

lemma clist_init: "clist (LIST_INIT h s) h []"
  by (simp add: clist_def LIST_INIT_def set_n_def set_p_def)

lemma clist_addq:
  assumes "clist s h xs" and "el \<notin> set (h # xs)"
  shows "clist (LIST_ADDQ h el s) h (xs @ [el])"
proof (cases xs rule: rev_cases)
  case Nil
  then show ?thesis using assms by (auto simp: clist_def LIST_ADDQ_def Let_def set_n_def set_p_def)
next
  case (snoc ys y)
  have s: "seg s h ys y" "nxt s y = h" "prv s h = y" and d: "distinct (h # ys @ [y])" "el \<notin> set (h # ys @ [y])"
    using assms by (auto simp: clist_def snoc seg_append)
  let ?s = "LIST_ADDQ h el s"
  have n: "nxt ?s = (nxt s)(y := el, el := h)" "prv ?s = (prv s)(el := y, h := el)"
    using d(2) by (auto simp: LIST_ADDQ_def Let_def set_n_def set_p_def s(3))
  have "seg ?s h ys y \<longleftrightarrow> seg s h ys y" by (rule seg_frame) (use d in \<open>auto simp: n\<close>)
  then show ?thesis using s d by (auto simp: clist_def snoc seg_append n)
qed

lemma clist_add:
  assumes "clist s h xs" and "el \<notin> set (h # xs)"
  shows "clist (LIST_ADD h el s) h (el # xs)"
proof (cases xs)
  case Nil
  then show ?thesis using assms by (auto simp: clist_def LIST_ADD_def Let_def set_n_def set_p_def)
next
  case (Cons y ys)
  have s: "seg s y ys h" "nxt s h = y" and d: "distinct (h # y # ys)" "el \<notin> set (h # y # ys)"
    using assms by (auto simp: clist_def Cons)
  let ?s = "LIST_ADD h el s"
  have n: "nxt ?s = (nxt s)(el := y, h := el)" "prv ?s = (prv s)(y := el, el := h)"
    using d by (auto simp: LIST_ADD_def Let_def set_n_def set_p_def s(2))
  have "seg ?s y ys h \<longleftrightarrow> seg s y ys h" by (rule seg_frame) (use d in \<open>auto simp: n\<close>)
  then show ?thesis using s d by (auto simp: clist_def Cons n)
qed

text \<open>Deleting joins the neighbours of the entry.\<close>

lemma seg_ends: "seg s a xs b \<Longrightarrow> nxt s (last (a # xs)) = b \<and> prv s b = last (a # xs) \<and> nxt s a = hd (xs @ [b])"
proof (induction xs arbitrary: a)
  case (Cons x xs)
  then have "seg s x xs b" "nxt s a = x" by simp_all
  moreover have "last (a # x # xs) = last (x # xs)" "hd ((x # xs) @ [b]) = x" by simp_all
  ultimately show ?case using Cons.IH [of x] by metis
qed simp

lemma seg_join:
  assumes "seg s a xs e" "nxt s' = (nxt s)(last (a # xs) := r)" "prv s' = (prv s)(r := last (a # xs))"
    and "distinct (a # xs)" "r \<notin> set xs"
  shows "seg s' a xs r"
  using assms
proof (induction xs arbitrary: a)
  case (Cons x xs)
  have "seg s' x xs r" using Cons by (intro Cons.IH) auto
  moreover have "a \<noteq> last (x # xs)" using Cons.prems(4) last_in_set [of "x # xs"] by (metis distinct.simps(2) list.discI)
  ultimately show ?case using Cons.prems by auto
qed simp

lemma clist_del:
  assumes "clist s h xs" and "el \<in> set xs"
  shows "clist (LIST_DEL el s) h (remove1 el xs)"
proof -
  obtain pre post where xs: "xs = pre @ el # post" "el \<notin> set pre" using assms(2) by (meson split_list_first)
  have s: "seg s h pre el" "seg s el post h" and d: "distinct (h # pre @ el # post)"
    using assms(1) by (auto simp: clist_def xs seg_append)
  let ?l = "last (h # pre)" and ?r = "hd (post @ [h])" and ?s = "LIST_DEL el s"
  have e: "prv s el = ?l" "nxt s el = ?r" using seg_ends [OF s(1)] seg_ends [OF s(2)] by simp_all
  have mem: "?l \<in> set (h # pre)" "?r \<in> set (post @ [h])" by (rule last_in_set, simp, rule hd_in_set, simp)
  then have "el \<noteq> ?r" using d by auto
  then have n: "nxt ?s = (nxt s)(?l := ?r)" "prv ?s = (prv s)(?r := ?l)"
    using e by (simp_all add: LIST_DEL_def Let_def set_n_def set_p_def)
  have r: "?r \<notin> set pre" using mem(2) d by auto
  have "seg ?s h pre ?r" by (rule seg_join [OF s(1) n _ r]) (use d in simp)
  moreover have "seg ?s y ys h" if post: "post = y # ys" for y ys
  proof -
    have l: "?l \<notin> set post" using mem(1) d by auto
    have "seg ?s y ys h \<longleftrightarrow> seg s y ys h"
      by (rule seg_frame) (use d l post in \<open>auto simp: n\<close>)
    then show ?thesis using s(2) post by simp
  qed
  ultimately have "seg ?s h (pre @ post) h" by (cases post) (simp_all add: seg_append)
  then show ?thesis using d xs by (simp add: clist_def remove1_append)
qed

lemma clist_isempty:
  assumes "clist s h xs" shows "LIST_ISEMPTY h s \<longleftrightarrow> xs = []"
  using assms by (cases xs) (auto simp: clist_def LIST_ISEMPTY_def)

text \<open>Operations on one list leave the lists alone that have no entry in common with it.\<close>

lemma clist_frame:
  assumes "clist s h xs" "\<And>x. x \<in> set (h # xs) \<Longrightarrow> nxt s' x = nxt s x \<and> prv s' x = prv s x"
  shows "clist s' h xs"
proof -
  have "seg s' h xs h \<longleftrightarrow> seg s h xs h" by (rule seg_frame) (use assms(2) in auto)
  then show ?thesis using assms(1) by (simp add: clist_def)
qed

lemma addq_other:
  assumes "clist s h xs" "clist s h' ys" "set (h # xs) \<inter> set (h' # ys) = {}" "el \<notin> set (h # xs)"
  shows "clist (LIST_ADDQ h' el s) h xs"
proof (rule clist_frame [OF assms(1)])
  fix x assume x: "x \<in> set (h # xs)"
  have "prv s h' = last (h' # ys)" using assms(2) seg_ends [of s h' ys h'] by (simp add: clist_def)
  then have "prv s h' \<in> set (h' # ys)" using last_in_set [of "h' # ys"] by simp
  then have "x \<noteq> prv s h'" "x \<noteq> h'" "x \<noteq> el" using x assms(3,4) by auto
  then show "nxt (LIST_ADDQ h' el s) x = nxt s x \<and> prv (LIST_ADDQ h' el s) x = prv s x"
    by (auto simp: LIST_ADDQ_def Let_def set_n_def set_p_def)
qed

section \<open>Iteration\<close>

text \<open>What the loop computes on the entries.\<close>

fun each :: "(nat \<Rightarrow> 'a \<Rightarrow> (bool \<times> 'a) option) \<Rightarrow> nat list \<Rightarrow> 'a \<Rightarrow> 'a option" where
  "each body [] acc = Some acc"
| "each body (x # xs) acc = do { (stop, acc1) \<leftarrow> body x acc; if stop then Some acc1 else each body xs acc1 }"

lemma each_from_seg:
  assumes "seg s a xs h" "h \<notin> set xs"
  shows "each_from body s h (nxt s a) acc = each body xs acc"
  using assms
proof (induction xs arbitrary: a acc)
  case Nil
  then show ?case by (subst each_from.simps) simp
next
  case (Cons x xs)
  then have "each_from body s h (nxt s x) acc1 = each body xs acc1" for acc1 by simp
  moreover have "nxt s a = x" "x \<noteq> h" using Cons.prems by auto
  ultimately show ?case by (subst each_from.simps) (simp add: case_prod_unfold cong: if_cong)
qed

lemma each_entry: "clist s h xs \<Longrightarrow> list_for_each_entry body s h acc = each body xs acc"
  unfolding list_for_each_entry_def by (rule each_from_seg) (auto simp: clist_def)

section \<open>Property\<close>

text \<open>C27: the list macros implement lists: on a list with entries \<open>xs\<close>, adding an entry that is not in it puts it at the front or the end, deleting
  an entry of it removes that one, the test for emptiness is right, and the loop ends after treating the entries in order, or at the first
  one where its body leaves it.\<close>

theorem clist_refines:
  assumes "clist s h xs"
  shows "(el \<notin> set (h # xs) \<longrightarrow> clist (LIST_ADDQ h el s) h (xs @ [el]) \<and> clist (LIST_ADD h el s) h (el # xs)) \<and>
    (el \<in> set xs \<longrightarrow> clist (LIST_DEL el s) h (remove1 el xs)) \<and> (LIST_ISEMPTY h s \<longleftrightarrow> xs = []) \<and>
    list_for_each_entry body s h acc = each body xs acc \<and> clist (LIST_INIT a s) a []"
  by (intro conjI impI clist_addq [OF assms] clist_add [OF assms] clist_del [OF assms] clist_isempty [OF assms] each_entry [OF assms] clist_init)

definition three :: links where
  "three = LIST_ADD 1 5 (LIST_ADDQ 1 7 (LIST_ADDQ 1 6 (LIST_INIT 1 \<lparr>nxt = (\<lambda>_. 0), prv = (\<lambda>_. 0)\<rparr>)))"

theorem clist_refines_witness:
  "clist (LIST_DEL 6 three) 1 [5, 7] \<and> list_for_each_entry (\<lambda>x acc. Some (x = 6, acc @ [x])) three 1 [] = Some [5, 6]"
proof -
  have c: "clist three 1 [5, 6, 7]"
    by (simp add: three_def clist_def LIST_ADD_def LIST_ADDQ_def LIST_INIT_def set_n_def set_p_def Let_def)
  show ?thesis using clist_refines [OF c, of 6 "\<lambda>x acc. Some (x = 6, acc @ [x])" "[]" 1] by simp
qed

end
