(* ===== verification/Registry.thy ===== *)
theory Registry
  imports Clist Connections
begin

text \<open>
  The registries that connect the parts of the program at its start: the handlers (\<open>src/src/handler.c\<close>), the protocols
  (\<open>src/src/protos.c\<close>), their listeners (\<open>src/src/proto_tcp.c\<close>, \<open>src/src/proto_udp.c\<close>) and the configuration that creates the listeners
  (\<open>src/src/cfg.c\<close>). All of them are circular lists in one store of links; a struct is named by the address of its list entry. The
  configuration file as \<open>libconfig\<close> reads it, the sockets and the memory for listeners are parameters; a result \<open>None\<close> is the end of the
  process, by \<open>log_fatal\<close> or an access through NULL.
\<close>

section \<open>State\<close>

record registry = links +
  h_name :: "nat \<Rightarrow> string"
  l_name :: "nat \<Rightarrow> string"
  l_port :: "nat \<Rightarrow> int"
  l_handler :: "nat \<Rightarrow> nat"
  l_fd :: "nat \<Rightarrow> int"
  l_proto :: "nat \<Rightarrow> nat"
  nb_listeners :: "nat \<Rightarrow> int"

definition handlers :: nat where "handlers = 1"
definition protocols :: nat where "protocols = 2"
definition proto_tcpv4 :: nat where "proto_tcpv4 = 3"
definition proto_udpv4 :: nat where "proto_udpv4 = 4"

text \<open>The member \<open>listeners\<close> of a protocol.\<close>

definition listeners :: "nat \<Rightarrow> nat" where "listeners proto = proto + 2"

section \<open>Handlers and protocols\<close>

definition handler_register :: "nat \<Rightarrow> registry \<Rightarrow> registry" where
  "handler_register h r = LIST_ADDQ handlers h r"

definition handler_unregister :: "nat \<Rightarrow> registry \<Rightarrow> registry" where
  "handler_unregister h r = LIST_INIT h (LIST_DEL h r)"

definition match_name :: "registry \<Rightarrow> string \<Rightarrow> nat \<Rightarrow> nat \<Rightarrow> (bool \<times> nat) option" where
  "match_name r name h acc = Some (if h_name r h = name then (True, h) else (False, acc))"

definition handler_get :: "string \<Rightarrow> registry \<Rightarrow> nat option" where
  "handler_get name r = list_for_each_entry (match_name r name) r handlers 0"

definition protocol_register :: "nat \<Rightarrow> registry \<Rightarrow> registry" where
  "protocol_register proto r = LIST_ADDQ protocols proto r"

definition protocol_unregister :: "nat \<Rightarrow> registry \<Rightarrow> registry" where
  "protocol_unregister proto r = LIST_INIT proto (LIST_DEL proto r)"

section \<open>Listeners\<close>

definition tcp_add_listener :: "nat \<Rightarrow> registry \<Rightarrow> registry" where
  "tcp_add_listener l r =
     (let r1 = r\<lparr>l_proto := (l_proto r)(l := proto_tcpv4)\<rparr>; r2 = LIST_ADDQ (listeners proto_tcpv4) l r1
      in r2\<lparr>nb_listeners := (nb_listeners r2)(proto_tcpv4 := nb_listeners r2 proto_tcpv4 + 1)\<rparr>)"

definition udp_add_listener :: "nat \<Rightarrow> registry \<Rightarrow> registry" where
  "udp_add_listener l r =
     (let r1 = r\<lparr>l_proto := (l_proto r)(l := proto_udpv4)\<rparr>; r2 = LIST_ADDQ (listeners proto_udpv4) l r1
      in r2\<lparr>nb_listeners := (nb_listeners r2)(proto_udpv4 := nb_listeners r2 proto_udpv4 + 1)\<rparr>)"

text \<open>\<open>l\<close> is what \<open>malloc\<close> returns.\<close>

definition tcp_create_listener :: "nat \<Rightarrow> string \<Rightarrow> int \<Rightarrow> nat \<Rightarrow> registry \<Rightarrow> registry option" where
  "tcp_create_listener l name port h r =
     (if l = 0 then None
      else Some (tcp_add_listener l (r\<lparr>l_name := (l_name r)(l := name), l_port := (l_port r)(l := port), l_handler := (l_handler r)(l := h)\<rparr>)))"

definition udp_create_listener :: "nat \<Rightarrow> string \<Rightarrow> int \<Rightarrow> nat \<Rightarrow> registry \<Rightarrow> registry option" where
  "udp_create_listener l name port h r =
     (if l = 0 then None
      else Some (udp_add_listener l (r\<lparr>l_name := (l_name r)(l := name), l_port := (l_port r)(l := port), l_handler := (l_handler r)(l := h)\<rparr>)))"

text \<open>The loops over the listeners: \<open>op\<close> opens, binds and prepares a socket for a port, which is cut to 16 bits.\<close>

type_synonym 'k opener = "u16 \<Rightarrow> 'k \<Rightarrow> int \<times> 'k"

definition bind_body :: "(nat \<Rightarrow> int \<Rightarrow> ('s, 'k) server \<Rightarrow> ('s, 'k) server) \<Rightarrow> 'k opener \<Rightarrow> nat \<Rightarrow>
    u32 \<times> registry \<times> ('s, 'k) server \<Rightarrow> (bool \<times> u32 \<times> registry \<times> ('s, 'k) server) option" where
  "bind_body bd op l = (\<lambda>(err, r, p).
     let (fd, k) = op (word_of_int (l_port r l)) (os_state (kern p));
         p1 = bd l fd (p\<lparr>kern := (kern p)\<lparr>os_state := k\<rparr>\<rparr>);
         err1 = err OR 0
     in if halted (kern p1) then Some (True, err, r, p1)
        else Some (err1 <s 0, err1, r\<lparr>l_fd := (l_fd r)(l := fd)\<rparr>, p1))"

definition tcp_bind_listeners :: "('s, 'k) env \<Rightarrow> 'k opener \<Rightarrow> registry \<Rightarrow> ('s, 'k) server \<Rightarrow> (u32 \<times> registry \<times> ('s, 'k) server) option" where
  "tcp_bind_listeners e op r p = list_for_each_entry (bind_body (tcp_bind e) op) r (listeners proto_tcpv4) (0, r, p)"

definition udp_bind_listeners :: "('s, 'k) env \<Rightarrow> 'k opener \<Rightarrow> registry \<Rightarrow> ('s, 'k) server \<Rightarrow> (u32 \<times> registry \<times> ('s, 'k) server) option" where
  "udp_bind_listeners e op r p = list_for_each_entry (bind_body (udp_bind e) op) r (listeners proto_udpv4) (0, r, p)"

definition enable_body :: "registry \<Rightarrow> nat \<Rightarrow> ('s, 'k) server \<Rightarrow> (bool \<times> ('s, 'k) server) option" where
  "enable_body r l p = Some (False, snd (fd_set (nat (l_fd r l)) DIR_RD p))"

definition tcp_enable :: "registry \<Rightarrow> ('s, 'k) server \<Rightarrow> ('s, 'k) server option" where
  "tcp_enable r p = list_for_each_entry (enable_body r) r (listeners proto_tcpv4) p"

definition udp_enable :: "registry \<Rightarrow> ('s, 'k) server \<Rightarrow> ('s, 'k) server option" where
  "udp_enable r p = list_for_each_entry (enable_body r) r (listeners proto_udpv4) p"

text \<open>Closing; \<open>cl\<close> is \<open>close ()\<close> with its result.\<close>

definition unbind_body :: "(int \<Rightarrow> 'k \<Rightarrow> u32 \<times> 'k) \<Rightarrow> registry \<Rightarrow> nat \<Rightarrow> u32 \<times> ('s, 'k) server \<Rightarrow> (bool \<times> u32 \<times> ('s, 'k) server) option" where
  "unbind_body cl r l = (\<lambda>(err, p).
     let (err1, p1) = (if l_fd r l \<noteq> 0
           then let (x, k) = cl (l_fd r l) (os_state (kern p)) in (err OR x, p\<lparr>kern := (kern p)\<lparr>os_state := k\<rparr>\<rparr>)
           else (err, p))
     in Some (err1 <s 0, err1, p1))"

definition tcp_unbind :: "(int \<Rightarrow> 'k \<Rightarrow> u32 \<times> 'k) \<Rightarrow> registry \<Rightarrow> ('s, 'k) server \<Rightarrow> (u32 \<times> ('s, 'k) server) option" where
  "tcp_unbind cl r p = list_for_each_entry (unbind_body cl r) r (listeners proto_tcpv4) (0, p)"

definition udp_unbind :: "(int \<Rightarrow> 'k \<Rightarrow> u32 \<times> 'k) \<Rightarrow> registry \<Rightarrow> ('s, 'k) server \<Rightarrow> (u32 \<times> ('s, 'k) server) option" where
  "udp_unbind cl r p = list_for_each_entry (unbind_body cl r) r (listeners proto_udpv4) (0, p)"

section \<open>All protocols\<close>

text \<open>Both protocols define the three operations; nothing more happens once the process has ended.\<close>

definition protocol_bind_all :: "('s, 'k) env \<Rightarrow> 'k opener \<Rightarrow> 'k opener \<Rightarrow> registry \<Rightarrow> ('s, 'k) server \<Rightarrow> (u32 \<times> registry \<times> ('s, 'k) server) option" where
  "protocol_bind_all e tcp udp r p =
     list_for_each_entry (\<lambda>proto (err, r, p).
         if halted (kern p) then Some (True, err, r, p)
         else do {
           (x, r1, p1) \<leftarrow> (if proto = proto_tcpv4 then tcp_bind_listeners e tcp r p else udp_bind_listeners e udp r p);
           Some (False, err OR x, r1, p1)
         }) r protocols (0, r, p)"

definition protocol_enable_all :: "registry \<Rightarrow> ('s, 'k) server \<Rightarrow> ('s, 'k) server option" where
  "protocol_enable_all r p =
     list_for_each_entry (\<lambda>proto p. do {
         p1 \<leftarrow> (if proto = proto_tcpv4 then tcp_enable r p else udp_enable r p);
         Some (False, p1)
       }) r protocols p"

definition protocol_unbind_all :: "(int \<Rightarrow> 'k \<Rightarrow> u32 \<times> 'k) \<Rightarrow> registry \<Rightarrow> ('s, 'k) server \<Rightarrow> (u32 \<times> ('s, 'k) server) option" where
  "protocol_unbind_all cl r p =
     list_for_each_entry (\<lambda>proto (err, p). do {
         (x, p1) \<leftarrow> (if proto = proto_tcpv4 then tcp_unbind cl r p else udp_unbind cl r p);
         Some (False, err OR x, p1)
       }) r protocols (0, p)"

section \<open>Configuration\<close>

text \<open>An entry of \<open>tcp\<close> or \<open>udp\<close>: its name and its integer settings. \<open>config\<close> is \<open>None\<close> when the file cannot be read.\<close>

record entry =
  en_name :: string
  en_int :: "string \<Rightarrow> int option"

record config =
  maxsock :: "int option"
  nbproc :: "int option"
  cfg_tcp :: "entry list"
  cfg_udp :: "entry list"

text \<open>\<open>load h\<close> is the \<open>load_config\<close> of handler \<open>h\<close>, \<open>None\<close> when it ends the process; \<open>ms\<close> are the addresses \<open>malloc\<close> returns.\<close>

fun load_entries :: "(nat \<Rightarrow> string \<Rightarrow> int \<Rightarrow> nat \<Rightarrow> registry \<Rightarrow> registry option) \<Rightarrow> (nat \<Rightarrow> (string \<Rightarrow> int option) \<Rightarrow> 's \<Rightarrow> 's option) \<Rightarrow>
    entry list \<Rightarrow> nat list \<Rightarrow> registry \<Rightarrow> 's \<Rightarrow> (registry \<times> 's) option" where
  "load_entries create load [] ms r s = Some (r, s)"
| "load_entries create load (x # xs) [] r s = None"
| "load_entries create load (x # xs) (m # ms) r s = do {
     h \<leftarrow> handler_get (en_name x) r;
     if h = 0 then None
     else do {
       port \<leftarrow> en_int x ''port'';
       s1 \<leftarrow> load h (en_int x) s;
       r1 \<leftarrow> create m (en_name x) port h r;
       load_entries create load xs ms r1 s1
     }
   }"

definition or_default :: "int option \<Rightarrow> int \<Rightarrow> int" where
  "or_default v d = (case v of None \<Rightarrow> d | Some x \<Rightarrow> x)"

definition config_load :: "config option \<Rightarrow> (nat \<Rightarrow> (string \<Rightarrow> int option) \<Rightarrow> 's \<Rightarrow> 's option) \<Rightarrow> nat list \<Rightarrow> nat list \<Rightarrow>
    registry \<Rightarrow> 's \<Rightarrow> (int \<times> int \<times> registry \<times> 's) option" where
  "config_load file load ms ul r s = do {
     cfg \<leftarrow> file;
     (r1, s1) \<leftarrow> load_entries tcp_create_listener load (cfg_tcp cfg) ms r s;
     (r2, s2) \<leftarrow> load_entries udp_create_listener load (cfg_udp cfg) ul r1 s1;
     Some (or_default (maxsock cfg) 20000, or_default (nbproc cfg) 1, r2, s2)
   }"

section \<open>Looking up by name\<close>

lemma find_snoc: "find P (xs @ [x]) = (case find P xs of None \<Rightarrow> if P x then Some x else None | Some y \<Rightarrow> Some y)"
  by (induction xs) auto

text \<open>The interface of a registry of named structs: entries come at the end, the first one with a name is found.\<close>

locale name_registry =
  fixes rep :: "'r \<Rightarrow> nat list \<Rightarrow> bool" and enter :: "nat \<Rightarrow> 'r \<Rightarrow> 'r" and get :: "string \<Rightarrow> 'r \<Rightarrow> nat option"
    and name :: "'r \<Rightarrow> nat \<Rightarrow> string" and ok :: "nat \<Rightarrow> bool"
  assumes enter: "rep r xs \<Longrightarrow> ok h \<Longrightarrow> h \<notin> set xs \<Longrightarrow> rep (enter h r) (xs @ [h])"
    and name: "name (enter h r) = name r"
    and get: "rep r xs \<Longrightarrow> get n r = Some (case find (\<lambda>h. name r h = n) xs of None \<Rightarrow> 0 | Some h \<Rightarrow> h)"
begin

lemma enter_all: "rep r xs \<Longrightarrow> list_all ok hs \<Longrightarrow> distinct (xs @ hs) \<Longrightarrow> rep (fold enter hs r) (xs @ hs) \<and> name (fold enter hs r) = name r"
proof (induction hs arbitrary: r xs)
  case (Cons h hs)
  then have "rep (enter h r) (xs @ [h])" by (intro enter) auto
  then show ?case using Cons.IH [of "enter h r" "xs @ [h]"] Cons.prems by (simp add: name)
qed simp

text \<open>A name that is registered stays bound to its first struct; a new one is bound to the struct just entered.\<close>

lemma first_wins: "rep r xs \<Longrightarrow> ok h \<Longrightarrow> h \<notin> set xs \<Longrightarrow> get n r = Some g \<Longrightarrow> g \<noteq> 0 \<Longrightarrow> get n (enter h r) = Some g"
  using enter [of r xs h] get [of r xs n] get [of "enter h r" "xs @ [h]" n]
  by (simp add: name find_snoc split: option.splits)

lemma get_all:
  assumes "rep r []" "list_all ok hs" "distinct hs" "distinct (map (name r) hs)" "h \<in> set hs"
  shows "get (name r h) (fold enter hs r) = Some h"
proof -
  have r: "rep (fold enter hs r) hs" "name (fold enter hs r) = name r" using enter_all [OF assms(1,2)] assms(3) by auto
  have "find (\<lambda>g. name r g = name r h) hs = Some h"
    using assms(4,5) by (induction hs) (auto simp: image_iff)
  then show ?thesis using get [OF r(1)] r(2) by simp
qed

end

lemma each_match: "each (match_name r n) xs acc = Some (case find (\<lambda>h. h_name r h = n) xs of None \<Rightarrow> acc | Some h \<Rightarrow> h)"
  by (induction xs) (auto simp: match_name_def)

interpretation named: name_registry "\<lambda>r xs. clist r handlers xs" handler_register handler_get h_name "\<lambda>h. h \<noteq> handlers"
proof
  fix r :: registry and xs h
  assume "clist r handlers xs" "h \<noteq> handlers" "h \<notin> set xs"
  then show "clist (handler_register h r) handlers (xs @ [h])" using clist_addq [of r handlers xs h] by (simp add: handler_register_def)
next
  fix h :: nat and r :: registry
  show "h_name (handler_register h r) = h_name r" by (simp add: handler_register_def LIST_ADDQ_def Let_def set_n_def set_p_def)
next
  fix r :: registry and xs n
  assume "clist r handlers xs"
  then show "handler_get n r = Some (case find (\<lambda>h. h_name r h = n) xs of None \<Rightarrow> 0 | Some h \<Rightarrow> h)"
    by (simp add: handler_get_def each_entry each_match)
qed

section \<open>The listeners of the configuration\<close>

definition lists_ok :: "registry \<Rightarrow> nat list \<Rightarrow> nat list \<Rightarrow> nat list \<Rightarrow> nat list \<Rightarrow> bool" where
  "lists_ok r hs ps ls ul \<longleftrightarrow> clist r handlers hs \<and> clist r protocols ps \<and>
     clist r (listeners proto_tcpv4) ls \<and> clist r (listeners proto_udpv4) ul \<and>
     distinct ([handlers, protocols, listeners proto_tcpv4, listeners proto_udpv4] @ hs @ ps @ ls @ ul)"

lemma clist_more: "nxt s' = nxt s \<Longrightarrow> prv s' = prv s \<Longrightarrow> clist s' h xs = clist s h xs"
proof -
  assume "nxt s' = nxt s" "prv s' = prv s"
  then have "seg s' a xs b = seg s a xs b" for a b by (induction xs arbitrary: a) auto
  then show ?thesis by (simp add: clist_def)
qed

lemma addq_more: "nxt s' = nxt s \<Longrightarrow> prv s' = prv s \<Longrightarrow> nxt (LIST_ADDQ h el s') = nxt (LIST_ADDQ h el s) \<and> prv (LIST_ADDQ h el s') = prv (LIST_ADDQ h el s)"
  by (simp add: LIST_ADDQ_def Let_def set_n_def set_p_def)

lemma addq_fields [simp]:
  "h_name (LIST_ADDQ h el r) = h_name r" "l_port (LIST_ADDQ h el r) = l_port r" "l_handler (LIST_ADDQ h el r) = l_handler r"
  "l_name (LIST_ADDQ h el r) = l_name r" "l_fd (LIST_ADDQ h el r) = l_fd r"
  by (simp_all add: LIST_ADDQ_def Let_def set_n_def set_p_def)

lemma tcp_create_ok:
  assumes ok: "lists_ok r hs ps ls ul" and m: "m \<noteq> 0" "m \<notin> set ([handlers, protocols, listeners proto_tcpv4, listeners proto_udpv4] @ hs @ ps @ ls @ ul)"
  shows "\<exists>r'. tcp_create_listener m n port h r = Some r' \<and> lists_ok r' hs ps (ls @ [m]) ul \<and> h_name r' = h_name r \<and>
    l_port r' = (l_port r)(m := port) \<and> l_handler r' = (l_handler r)(m := h) \<and> l_name r' = (l_name r)(m := n)"
proof -
  obtain r' where r': "tcp_create_listener m n port h r = Some r'" using m(1) by (simp add: tcp_create_listener_def)
  let ?q = "LIST_ADDQ (listeners proto_tcpv4) m r"
  have lk: "nxt r' = nxt ?q" "prv r' = prv ?q"
    using r' m(1) by (auto simp: tcp_create_listener_def tcp_add_listener_def Let_def LIST_ADDQ_def set_n_def set_p_def)
  have c: "clist ?q handlers hs" "clist ?q protocols ps" "clist ?q (listeners proto_udpv4) ul" "clist ?q (listeners proto_tcpv4) (ls @ [m])"
    using ok m by (auto simp: lists_ok_def intro!: addq_other clist_addq)
  have "lists_ok r' hs ps (ls @ [m]) ul"
    using ok m c by (auto simp: lists_ok_def clist_more [OF lk])
  then show ?thesis using r' m(1) by (auto simp: tcp_create_listener_def tcp_add_listener_def Let_def)
qed

text \<open>What the entries say: each names a registered handler, has a port, and its handler accepts the settings.\<close>

fun entries_ok :: "(string \<Rightarrow> nat) \<Rightarrow> (nat \<Rightarrow> (string \<Rightarrow> int option) \<Rightarrow> 's \<Rightarrow> 's option) \<Rightarrow> entry list \<Rightarrow> 's \<Rightarrow> 's option" where
  "entries_ok hnd load [] s = Some s"
| "entries_ok hnd load (x # xs) s =
     (if hnd (en_name x) = 0 \<or> en_int x ''port'' = None then None
      else Option.bind (load (hnd (en_name x)) (en_int x) s) (entries_ok hnd load xs))"

definition found :: "registry \<Rightarrow> nat list \<Rightarrow> string \<Rightarrow> nat" where
  "found r hs n = (case find (\<lambda>h. h_name r h = n) hs of None \<Rightarrow> 0 | Some h \<Rightarrow> h)"

lemma load_tcp_ok:
  assumes "lists_ok r hs ps ls ul" and "length ms = length xs" and "0 \<notin> set ms" "distinct ms"
    and "set ms \<inter> set ([handlers, protocols, listeners proto_tcpv4, listeners proto_udpv4] @ hs @ ps @ ls @ ul) = {}"
  shows "case entries_ok (found r hs) load xs s of
      None \<Rightarrow> load_entries tcp_create_listener load xs ms r s = None
    | Some s' \<Rightarrow> \<exists>r'. load_entries tcp_create_listener load xs ms r s = Some (r', s') \<and> lists_ok r' hs ps (ls @ ms) ul \<and> h_name r' = h_name r \<and>
        (\<forall>i < length xs. l_port r' (ms ! i) = the (en_int (xs ! i) ''port'') \<and> l_handler r' (ms ! i) = found r hs (en_name (xs ! i))) \<and>
        (\<forall>l. l \<notin> set ms \<longrightarrow> l_port r' l = l_port r l \<and> l_handler r' l = l_handler r l)"
  using assms
proof (induction xs arbitrary: ms r s ls)
  case Nil
  then show ?case by simp
next
  case (Cons x xs)
  then obtain m ms' where ms: "ms = m # ms'" by (cases ms) auto
  have "clist r handlers hs" using Cons.prems(1) by (simp add: lists_ok_def)
  from named.get [OF this, of "en_name x"] have hg: "handler_get (en_name x) r = Some (found r hs (en_name x))" by (simp add: found_def)
  show ?case
  proof (cases "found r hs (en_name x) = 0 \<or> en_int x ''port'' = None \<or> load (found r hs (en_name x)) (en_int x) s = None")
    case True
    then show ?thesis by (auto simp: ms hg)
  next
    case False
    then obtain port s1 where p: "found r hs (en_name x) \<noteq> 0" "en_int x ''port'' = Some port" "load (found r hs (en_name x)) (en_int x) s = Some s1" by auto
    have m: "m \<noteq> 0" "m \<notin> set ([handlers, protocols, listeners proto_tcpv4, listeners proto_udpv4] @ hs @ ps @ ls @ ul)"
      using Cons.prems(3,5) by (auto simp: ms)
    from tcp_create_ok [OF Cons.prems(1) m, of "en_name x" port "found r hs (en_name x)"] obtain r1 where
      r1: "tcp_create_listener m (en_name x) port (found r hs (en_name x)) r = Some r1" "lists_ok r1 hs ps (ls @ [m]) ul"
      "h_name r1 = h_name r" "l_port r1 = (l_port r)(m := port)" "l_handler r1 = (l_handler r)(m := found r hs (en_name x))" by blast
    have f: "found r1 hs = found r hs" by (simp add: found_def r1(3) fun_eq_iff)
    have prem: "length ms' = length xs" "0 \<notin> set ms'" "distinct ms'"
      "set ms' \<inter> set ([handlers, protocols, listeners proto_tcpv4, listeners proto_udpv4] @ hs @ ps @ (ls @ [m]) @ ul) = {}"
      using Cons.prems(2-5) by (auto simp: ms)
    note ih = Cons.IH [OF r1(2) prem, of s1, unfolded f]
    show ?thesis
    proof (cases "entries_ok (found r hs) load xs s1")
      case None
      then show ?thesis using ih p hg r1(1) by (simp add: ms)
    next
      case (Some s')
      then obtain r' where r': "load_entries tcp_create_listener load xs ms' r1 s1 = Some (r', s')" "lists_ok r' hs ps (ls @ ms) ul" "h_name r' = h_name r"
        "\<forall>i < length xs. l_port r' (ms' ! i) = the (en_int (xs ! i) ''port'') \<and> l_handler r' (ms' ! i) = found r hs (en_name (xs ! i))"
        "\<forall>l. l \<notin> set ms' \<longrightarrow> l_port r' l = l_port r1 l \<and> l_handler r' l = l_handler r1 l"
        using ih r1(3) by (auto simp: ms)
      have "m \<notin> set ms'" using Cons.prems(4) by (simp add: ms)
      then show ?thesis using Some r' p hg r1 by (auto simp: ms less_Suc_eq_0_disj nth_Cons split: nat.splits)
    qed
  qed
qed

text \<open>C28: the configuration becomes the listeners: with an entry for \<open>tcp\<close> that names no registered handler, has no port, or is refused by its
  handler, the process ends; otherwise the listeners of the TCP protocol are one per entry, in order, each with the port of its entry and
  the first handler registered under its name, and the limits are those of the file or their defaults.\<close>

theorem config_load_listeners:
  assumes "lists_ok r hs ps [] []" and "length ms = length (cfg_tcp cfg)" and "0 \<notin> set ms" "distinct ms"
    and "set ms \<inter> set ([handlers, protocols, listeners proto_tcpv4, listeners proto_udpv4] @ hs @ ps) = {}" and "cfg_udp cfg = []"
  shows "case entries_ok (found r hs) load (cfg_tcp cfg) s of
      None \<Rightarrow> config_load (Some cfg) load ms ml r s = None
    | Some s' \<Rightarrow> \<exists>r'. config_load (Some cfg) load ms ml r s = Some (or_default (maxsock cfg) 20000, or_default (nbproc cfg) 1, r', s') \<and>
        clist r' (listeners proto_tcpv4) ms \<and> clist r' (listeners proto_udpv4) [] \<and> clist r' protocols ps \<and>
        (\<forall>i < length ms. l_port r' (ms ! i) = the (en_int (cfg_tcp cfg ! i) ''port'') \<and> l_handler r' (ms ! i) = found r hs (en_name (cfg_tcp cfg ! i)))"
proof -
  have "set ms \<inter> set ([handlers, protocols, listeners proto_tcpv4, listeners proto_udpv4] @ hs @ ps @ [] @ []) = {}" using assms(5) by simp
  from load_tcp_ok [OF assms(1-4) this, of load s] show ?thesis
    using assms(2,6) by (auto simp: config_load_def lists_ok_def split: option.splits)
qed

section \<open>Binding\<close>

text \<open>A socket that is opened is open.\<close>

definition opener_spec :: "'k opener \<Rightarrow> ('k \<Rightarrow> nat set) \<Rightarrow> bool" where
  "opener_spec op opn \<longleftrightarrow> (\<forall>port k n k'. op port k = (n, k') \<longrightarrow> opn k \<subseteq> opn k' \<and> (0 \<le> n \<longrightarrow> nat n \<in> opn k'))"

lemma server_ok_open:
  assumes "server_ok I opn p" "starting p" "opn (os_state (kern p)) \<subseteq> opn k" and I: "\<And>s k k'. I s k {} \<Longrightarrow> I s k' {}"
  shows "server_ok I opn (p\<lparr>kern := (kern p)\<lparr>os_state := k\<rparr>\<rparr>) \<and> starting (p\<lparr>kern := (kern p)\<lparr>os_state := k\<rparr>\<rparr>)"
proof -
  have c: "conns p = {}" "conns (p\<lparr>kern := (kern p)\<lparr>os_state := k\<rparr>\<rparr>) = {}" using assms(2) by (simp_all add: starting_def conns_def)
  have s: "starting (p\<lparr>kern := (kern p)\<lparr>os_state := k\<rparr>\<rparr>)" using assms(2) c by (simp add: starting_def)
  show ?thesis
  proof (cases "halted (kern p)")
    case False
    then have "table_ok opn p" "I (svc (kern p)) (os_state (kern p)) {}" using assms(1) c(1) by (simp_all add: server_ok_def)
    then show ?thesis using s c(2) assms(3) I by (auto simp: server_ok_def table_ok_def)
  qed (use s in \<open>simp add: server_ok_def\<close>)
qed

lemma bind_each_ok:
  assumes "server_ok I opn p" "starting p" and op: "opener_spec op opn" and I: "\<And>s k k'. I s k {} \<Longrightarrow> I s k' {}"
    and h: "\<And>l. h_init (handler_of e l) = None"
  shows "\<exists>err' r' p'. each (bind_body (tcp_bind e) op) ls (err, r, p) = Some (err', r', p') \<and> server_ok I opn p' \<and> starting p' \<and>
    nxt r' = nxt r \<and> prv r' = prv r"
  using assms(1,2)
proof (induction ls arbitrary: err r p)
  case (Cons l ls)
  obtain n k where nk: "op (word_of_int (l_port r l)) (os_state (kern p)) = (n, k)" by fastforce
  let ?p0 = "p\<lparr>kern := (kern p)\<lparr>os_state := k\<rparr>\<rparr>" and ?r1 = "r\<lparr>l_fd := (l_fd r)(l := n)\<rparr>"
  let ?p1 = "tcp_bind e l n ?p0"
  have sub: "opn (os_state (kern p)) \<subseteq> opn k" "0 \<le> n \<Longrightarrow> nat n \<in> opn k" using op nk unfolding opener_spec_def by blast+
  from server_ok_open [OF Cons.prems sub(1) I] have p0: "server_ok I opn ?p0" "starting ?p0" by simp_all
  have p1: "server_ok I opn ?p1 \<and> starting ?p1"
  proof (cases "n < 0")
    case True
    then show ?thesis using p0 by (simp add: tcp_bind_def halt_def server_ok_def starting_def conns_def)
  next
    case False
    then have "nat n \<in> opn (os_state (kern ?p0))" using sub(2) by simp
    from tcp_bind_ok [where opn = opn and p = ?p0 and fd = n, OF p0 this h] show ?thesis by blast
  qed
  have b: "bind_body (tcp_bind e) op l (err, r, p) = Some (if halted (kern ?p1) then (True, err, r, ?p1) else (err <s 0, err, ?r1, ?p1))"
    by (simp add: bind_body_def nk)
  show ?case
  proof (cases "halted (kern ?p1) \<or> err <s 0")
    case True
    then show ?thesis using p1 b by auto
  next
    case False
    from Cons.IH [of ?p1 err ?r1] p1 obtain err' r' p' where "each (bind_body (tcp_bind e) op) ls (err, ?r1, ?p1) = Some (err', r', p')"
      "server_ok I opn p' \<and> starting p' \<and> nxt r' = nxt r \<and> prv r' = prv r" by auto
    then show ?thesis using False b by auto
  qed
qed simp

lemma bind_all_ok:
  assumes s: "server_ok I opn p" "starting p" and op: "opener_spec tcp opn" and I: "\<And>s k k'. I s k {} \<Longrightarrow> I s k' {}"
    and h: "\<And>l. h_init (handler_of e l) = None"
    and l: "clist r protocols ps" "clist r (listeners proto_tcpv4) ls" "clist r (listeners proto_udpv4) []"
  shows "\<exists>err r' p'. protocol_bind_all e tcp udp r p = Some (err, r', p') \<and> server_ok I opn p' \<and> starting p' \<and> nxt r' = nxt r \<and> prv r' = prv r"
proof -
  let ?body = "\<lambda>proto (err, r, p).
         if halted (kern p) then Some (True, err, r, p)
         else do {
           (x, r1, p1) \<leftarrow> (if proto = proto_tcpv4 then tcp_bind_listeners e tcp r p else udp_bind_listeners e udp r p);
           Some (False, err OR x, r1, p1)
         }"
  have "\<exists>err' r' p'. each ?body ps (err, r, p) = Some (err', r', p') \<and> server_ok I opn p' \<and> starting p' \<and> nxt r' = nxt r \<and> prv r' = prv r" for err
    using s l(2,3)
  proof (induction ps arbitrary: err r p)
    case (Cons q qs)
    show ?case
    proof (cases "halted (kern p)")
      case True
      then show ?thesis using Cons.prems by simp
    next
      case False
      have "\<exists>x r1 p1. (if q = proto_tcpv4 then tcp_bind_listeners e tcp r p else udp_bind_listeners e udp r p) = Some (x, r1, p1) \<and>
          server_ok I opn p1 \<and> starting p1 \<and> nxt r1 = nxt r \<and> prv r1 = prv r"
        using bind_each_ok [OF Cons.prems(1,2) op I h, where ls = ls and err = 0 and r = r] Cons.prems
        by (simp add: tcp_bind_listeners_def udp_bind_listeners_def each_entry)
      then obtain x r1 p1 where b: "(if q = proto_tcpv4 then tcp_bind_listeners e tcp r p else udp_bind_listeners e udp r p) = Some (x, r1, p1)"
        "server_ok I opn p1" "starting p1" "nxt r1 = nxt r" "prv r1 = prv r" by blast
      have "clist r1 (listeners proto_tcpv4) ls" "clist r1 (listeners proto_udpv4) []"
        using Cons.prems(3,4) by (simp_all add: clist_more [OF b(4,5)])
      from Cons.IH [OF b(2,3) this, of "err OR x"] show ?thesis using b False by auto
    qed
  qed simp
  from this [of 0] show ?thesis by (simp add: protocol_bind_all_def each_entry [OF l(1)])
qed

lemma enable_each:
  assumes "server_ok I opn p"
  shows "\<exists>p'. each (enable_body r) ls p = Some p' \<and> server_ok I opn p'"
  using assms
proof (induction ls arbitrary: p)
  case (Cons l ls)
  have "server_ok I opn (snd (fd_set (nat (l_fd r l)) DIR_RD p))" using Cons.prems by (simp add: server_ok_def table_ok_def conns_def)
  from Cons.IH [OF this] show ?case by (simp add: enable_body_def)
qed simp

lemma enable_all_ok:
  assumes "server_ok I opn p" "clist r protocols ps" "clist r (listeners proto_tcpv4) ls" "clist r (listeners proto_udpv4) ul"
  shows "\<exists>p'. protocol_enable_all r p = Some p' \<and> server_ok I opn p'"
proof -
  have "\<exists>p'. each (\<lambda>proto p. do {
         p1 \<leftarrow> (if proto = proto_tcpv4 then tcp_enable r p else udp_enable r p);
         Some (False, p1)
       }) ps p = Some p' \<and> server_ok I opn p'"
    using assms(1)
  proof (induction ps arbitrary: p)
    case (Cons q qs)
    have "\<exists>p1. (if q = proto_tcpv4 then tcp_enable r p else udp_enable r p) = Some p1 \<and> server_ok I opn p1"
      using enable_each [OF Cons.prems] by (simp add: tcp_enable_def udp_enable_def each_entry [OF assms(3)] each_entry [OF assms(4)])
    then show ?case using Cons.IH by auto
  qed simp
  then show ?thesis by (simp add: protocol_enable_all_def each_entry [OF assms(2)])
qed

text \<open>What every \<open>load_config\<close> keeps is kept.\<close>

lemma entries_keep:
  assumes "entries_ok hnd load xs s = Some s'" "P s" "\<And>h f s s'. load h f s = Some s' \<Longrightarrow> P s \<Longrightarrow> P s'"
  shows "P s'"
  using assms(1,2)
proof (induction xs arbitrary: s)
  case (Cons x xs)
  then obtain s1 where "load (hnd (en_name x)) (en_int x) s = Some s1" "entries_ok hnd load xs s1 = Some s'"
    by (auto split: if_splits simp: bind_eq_Some_conv)
  then show ?case using Cons.IH Cons.prems(2) assms(3) by blast
qed simp

section \<open>Example\<close>

text \<open>The registry after the constructors, with two handlers, and a configuration with one service.\<close>

definition registry0 :: registry where
  "registry0 = protocol_register proto_udpv4 (protocol_register proto_tcpv4 (handler_register 102 (handler_register 101
     \<lparr>nxt = (\<lambda>a. a), prv = (\<lambda>a. a), h_name = (\<lambda>h. if h = 101 then ''echo'' else ''http''), l_name = (\<lambda>_. []), l_port = (\<lambda>_. 0),
      l_handler = (\<lambda>_. 0), l_fd = (\<lambda>_. 0), l_proto = (\<lambda>_. 0), nb_listeners = (\<lambda>_. 0)\<rparr>)))"

lemmas addresses = handlers_def protocols_def listeners_def proto_tcpv4_def proto_udpv4_def

lemma registry0_ok: "lists_ok registry0 [101, 102] [3, 4] [] []"
  by (simp add: lists_ok_def registry0_def handler_register_def protocol_register_def LIST_ADDQ_def Let_def set_n_def set_p_def clist_def addresses)

definition config0 :: config where
  "config0 = \<lparr>maxsock = Some 16, nbproc = None, cfg_tcp = [\<lparr>en_name = ''echo'', en_int = [''port'' \<mapsto> 8000, ''max_conn'' \<mapsto> 8]\<rparr>], cfg_udp = []\<rparr>"

theorem config_load_listeners_witness:
  "\<exists>r'. config_load (Some config0) (\<lambda>h f s. Some s) [201] [] registry0 () = Some (16, 1, r', ()) \<and>
     clist r' (listeners proto_tcpv4) [201] \<and> l_port r' 201 = 8000 \<and> l_handler r' 201 = 101"
proof -
  have e: "entries_ok (found registry0 [101, 102]) (\<lambda>h f s. Some s) (cfg_tcp config0) () = Some ()" "found registry0 [101, 102] ''echo'' = 101"
    by (simp_all add: config0_def found_def registry0_def handler_register_def protocol_register_def)
  have p: "length [201 :: nat] = length (cfg_tcp config0)" "0 \<notin> set [201 :: nat]" "distinct [201 :: nat]"
    "set [201] \<inter> set ([handlers, protocols, listeners proto_tcpv4, listeners proto_udpv4] @ [101, 102] @ [3, 4]) = {}" "cfg_udp config0 = []"
    by (simp_all add: config0_def addresses)
  from config_load_listeners [OF registry0_ok p, where load = "\<lambda>h f s. Some s" and s = "()" and ml = "[]"] show ?thesis
    by (simp add: e) (simp add: config0_def or_default_def e(2), blast)
qed

end
