(* ===== verification/Main_Loop.thy ===== *)
theory Main_Loop
  imports Task_Wake Echo Signals Registry
begin

text \<open>
  The program as a whole, \<open>src/src/zeroserv.c\<close>: the start, from the configuration to enabled listeners, the handlers of the signals, and the
  main loop \<open>proc_center\<close>, which runs the signal queue, the timers, the runnable tasks and the poller in turn. The state extends that of
  the signal queue with \<open>_is_stop\<close>, the scheduler, the registries and the server. A round has as its input the dates of the clock and the
  signals delivered during it (they change the signal queue only); tasks are the parameter \<open>process\<close> of the scheduler. What the system
  does at the start is the record \<open>host\<close>. The code of \<open>main\<close> before \<open>env_init\<close> is commented out or prints.
\<close>

record ('s, 'k) program = signals +
  is_stop :: bool
  sch :: sched
  reg :: registry
  srv :: "('s, 'k) server"

record input =
  times :: "timeval \<times> timeval"
  delivered :: "int list"

section \<open>Signals\<close>

definition SIGHUP :: int where "SIGHUP = 1"
definition SIGINT :: int where "SIGINT = 2"
definition SIGQUIT :: int where "SIGQUIT = 3"
definition SIGUSR1 :: int where "SIGUSR1 = 10"
definition SIGPIPE :: int where "SIGPIPE = 13"
definition SIGTERM :: int where "SIGTERM = 15"

text \<open>The names of the handlers, and what they do: two of them set \<open>_is_stop\<close>, the others only log.\<close>

definition h_dump :: nat where "h_dump = 1"
definition sig_soft_stop :: nat where "sig_soft_stop = 2"
definition sig_dump_state :: nat where "sig_dump_state = 3"
definition sig_int :: nat where "sig_int = 4"
definition sig_term :: nat where "sig_term = 5"

definition run_handler :: "nat \<Rightarrow> nat \<Rightarrow> ('s, 'k) program \<Rightarrow> ('s, 'k) program" where
  "run_handler f sig m = (if f = sig_int \<or> f = sig_term then m\<lparr>is_stop := True\<rparr> else m)"

fun deliver :: "int list \<Rightarrow> 'a signals_scheme \<Rightarrow> 'a signals_scheme option" where
  "deliver [] m = Some m"
| "deliver (x # xs) m = Option.bind (signal_handler x m) (deliver xs)"

section \<open>Start and main loop\<close>

text \<open>The system at the start: sockets, the new epoll instance of a child, what \<open>fork ()\<close> returns in this process, the configuration file, the
  handlers' \<open>load_config\<close>, and the memory for listeners.\<close>

record ('s, 'k) host =
  net_env :: "('s, 'k) env"
  tcp_socket :: "'k opener"
  udp_socket :: "'k opener"
  new_epoll :: "'k \<Rightarrow> int \<times> 'k"
  fork_result :: "nat \<Rightarrow> int"
  cfg_file :: "config option"
  load_config :: "nat \<Rightarrow> (string \<Rightarrow> int option) \<Rightarrow> 's \<Rightarrow> 's option"
  memory :: "nat list \<times> nat list"

text \<open>A negative \<open>maxconn\<close> makes the allocation of \<open>fdtab\<close> fail, which ends the process.\<close>

definition env_init :: "('s, 'k) host \<Rightarrow> timeval \<times> timeval \<Rightarrow> ('s, 'k) program \<Rightarrow> (int \<times> int \<times> ('s, 'k) program) option" where
  "env_init h t m = do {
     (maxc, np, r, s) \<leftarrow> config_load (cfg_file h) (load_config h) (fst (memory h)) (snd (memory h)) (reg m) (svc (kern (srv m)));
     if maxc < 0 then None
     else let m1 = signal_init (m\<lparr>reg := r, srv := (srv m)\<lparr>kern := (kern (srv m))\<lparr>svc := s\<rparr>\<rparr>\<rparr>);
              m2 = signal_register SIGTERM (Function sig_term) (signal_register SIGINT (Function sig_int)
                     (signal_register SIGHUP (Function sig_dump_state) (signal_register SIGUSR1 (Function sig_soft_stop)
                       (signal_register SIGQUIT (Function h_dump) m1))));
              m3 = m2\<lparr>disp := (disp m2)(SIGPIPE := SIG_IGN)\<rparr>;
              p = (srv m3)\<lparr>clk := tv_update_date (fst t) (snd t) (- 1) (- 1) (clk (srv m3))\<rparr>
          in Some (maxc, np, m3\<lparr>srv := poll_init (nat maxc) (kern p) (fd_init (nat maxc) p)\<rparr>)
   }"

text \<open>The fork loop: the number of the child, or of all children in the parent, which exits; \<open>None\<close> when \<open>fork ()\<close> fails.\<close>

fun fork_loop :: "(nat \<Rightarrow> int) \<Rightarrow> nat \<Rightarrow> nat \<Rightarrow> nat option" where
  "fork_loop fk i 0 = Some i"
| "fork_loop fk i (Suc n) = (if fk i < 0 then None else if fk i = 0 then Some i else fork_loop fk (i + 1) n)"

definition fork_mode :: "('s, 'k) host \<Rightarrow> int \<Rightarrow> ('s, 'k) server \<Rightarrow> ('s, 'k) server option" where
  "fork_mode h np p =
     (if np > 1
      then do {
        i \<leftarrow> fork_loop (fork_result h) 0 (nat np);
        if int i = np then None
        else Some (snd (poll_fork (\<lambda>n. let (fd, k) = new_epoll h (os_state n) in (fd, n\<lparr>os_state := k\<rparr>)) p))
      }
      else Some p)"

text \<open>\<open>main\<close> up to the loop, with the environment in which the loop runs; \<open>None\<close> is the end of the process.\<close>

definition boot :: "('s, 'k) host \<Rightarrow> timeval \<times> timeval \<Rightarrow> ('s, 'k) program \<Rightarrow> (('s, 'k) env \<times> ('s, 'k) program) option" where
  "boot h t m = do {
     (maxc, np, m1) \<leftarrow> env_init h t m;
     let e = (net_env h)\<lparr>maxconn := nat maxc\<rparr>;
     (err, r, p) \<leftarrow> protocol_bind_all e (tcp_socket h) (udp_socket h) (reg m1) (srv m1);
     if halted (kern p) then None
     else do {
       p1 \<leftarrow> fork_mode h np p;
       p2 \<leftarrow> protocol_enable_all r p1;
       Some (e, m1\<lparr>reg := r, srv := p2\<rparr>)
     }
   }"

definition main_round :: "('s, 'k) env \<Rightarrow> Task.callback \<Rightarrow> input \<Rightarrow> ('s, 'k) program \<Rightarrow> ('s, 'k) program option" where
  "main_round e process i m = do {
     m1 \<leftarrow> signal_process_queue run_handler m;
     (next, s1) \<leftarrow> wake_expired_tasks (now_ms (clk (srv m1))) (sch m1);
     let (next2, s2) = process_runnable_tasks process next s1;
     let p = poll_do (lift_sys (esys e)) (server_cb e) (times i) (sint next2) (srv m1);
     deliver (delivered i) (m1\<lparr>sch := s2, srv := p\<rparr>)
   }"

text \<open>The loop over the inputs of the rounds; it ends when \<open>_is_stop\<close> is set, or with the process.\<close>

fun main_loop :: "('s, 'k) env \<Rightarrow> Task.callback \<Rightarrow> input list \<Rightarrow> ('s, 'k) program \<Rightarrow> ('s, 'k) program option" where
  "main_loop e process [] m = Some m"
| "main_loop e process (i # is) m = do {
     m1 \<leftarrow> main_round e process i m;
     if is_stop m1 \<or> halted (kern (srv m1)) then Some m1 else main_loop e process is m1
   }"

definition proc_center :: "('s, 'k) env \<Rightarrow> Task.callback \<Rightarrow> timeval \<times> timeval \<Rightarrow> input list \<Rightarrow> ('s, 'k) program \<Rightarrow> ('s, 'k) program option" where
  "proc_center e process t is m =
     main_loop e process is (m\<lparr>srv := (srv m)\<lparr>clk := tv_update_date (fst t) (snd t) 0 1 (clk (srv m))\<rparr>\<rparr>)"

text \<open>The end: the tables of the poller are freed and the listeners closed.\<close>

definition env_deinit :: "('k \<Rightarrow> 'k) \<Rightarrow> (int \<Rightarrow> 'k \<Rightarrow> u32 \<times> 'k) \<Rightarrow> ('s, 'k) program \<Rightarrow> ('s, 'k) program option" where
  "env_deinit close_epoll cl m = do {
     (err, p) \<leftarrow> protocol_unbind_all cl (reg m) (poll_term (\<lambda>n. n\<lparr>os_state := close_epoll (os_state n)\<rparr>) (srv m));
     Some (m\<lparr>srv := p\<rparr>)
   }"

section \<open>The whole state\<close>

text \<open>Deliveries change the signal queue only.\<close>

lemma signal_handler_frame:
  assumes "signal_handler x m = Some (m' :: ('s, 'k) program)"
  shows "is_stop m' = is_stop m" "sch m' = sch m" "srv m' = srv m" "sig_handler m' = sig_handler m"
  using assms by (auto simp: signal_handler_def Let_def split: if_splits)

lemma deliver_ok:
  assumes "sig_inv m"
  shows "\<exists>m'. deliver xs (m :: ('s, 'k) program) = Some m' \<and> sig_inv m' \<and> is_stop m' = is_stop m \<and> sch m' = sch m \<and> srv m' = srv m \<and>
    sig_handler m' = sig_handler m \<and> set (queued m) \<subseteq> set (queued m') \<and>
    set (queued m') \<subseteq> set (queued m) \<union> nat ` {x \<in> set xs. \<not> out_of_range x} \<and>
    (\<forall>x \<in> set xs. \<not> out_of_range x \<and> sig_handler m (nat x) \<noteq> None \<longrightarrow> nat x \<in> set (queued m'))"
  using assms
proof (induction xs arbitrary: m)
  case (Cons x xs)
  from signal_handler_ok [OF Cons.prems, of x] obtain m1 where m1: "signal_handler x m = Some m1" "sig_inv m1"
    "if \<not> out_of_range x \<and> sig_handler m (nat x) \<noteq> None
     then queued m1 = (if nat x \<in> set (queued m) then queued m else queued m @ [nat x]) else queued m1 = queued m" by auto
  note f = signal_handler_frame [OF m1(1)]
  from Cons.IH [OF m1(2)] obtain m' where "deliver xs m1 = Some m'" "sig_inv m'" "is_stop m' = is_stop m1" "sch m' = sch m1" "srv m' = srv m1"
    "sig_handler m' = sig_handler m1" "set (queued m1) \<subseteq> set (queued m')"
    "set (queued m') \<subseteq> set (queued m1) \<union> nat ` {x \<in> set xs. \<not> out_of_range x}"
    "\<forall>x \<in> set xs. \<not> out_of_range x \<and> sig_handler m1 (nat x) \<noteq> None \<longrightarrow> nat x \<in> set (queued m')" by blast
  then show ?case using m1 f by (intro exI [of _ m']) (auto split: if_splits)
qed simp

text \<open>Serving the queue sets \<open>_is_stop\<close> exactly when a handler that stops is among those called.\<close>

definition stops :: "('s, 'k) program \<Rightarrow> nat \<Rightarrow> bool" where
  "stops m n \<longleftrightarrow> sig_handler m n \<in> {Some sig_int, Some sig_term}"

lemma run_handler_quiet: "quiet (run_handler :: nat \<Rightarrow> nat \<Rightarrow> ('s, 'k) program \<Rightarrow> _)"
  by (simp add: quiet_def run_handler_def)

lemma fold_serve_program:
  fixes m :: "('s, 'k) program"
  assumes "\<forall>n \<in> set ns. sig_handler m n \<noteq> None"
  shows "sch (fold (serve run_handler) ns m) = sch m \<and> srv (fold (serve run_handler) ns m) = srv m \<and>
    is_stop (fold (serve run_handler) ns m) = (is_stop m \<or> (\<exists>n \<in> set ns. stops m n))"
  using assms
proof (induction ns arbitrary: m)
  case (Cons n ns)
  let ?m = "serve run_handler n m"
  have f: "sig_handler ?m = sig_handler m" "sch ?m = sch m" "srv ?m = srv m" "is_stop ?m = (is_stop m \<or> stops m n)"
    using Cons.prems by (auto simp: serve_def Let_def run_handler_def stops_def)
  then have "stops ?m = stops m" by (simp add: stops_def fun_eq_iff)
  then show ?case using Cons.IH [of ?m] Cons.prems f by auto
qed simp

definition main_ok :: "('s \<Rightarrow> 'k \<Rightarrow> nat set \<Rightarrow> bool) \<Rightarrow> ('k \<Rightarrow> nat set) \<Rightarrow> ('s, 'k) program \<Rightarrow> bool" where
  "main_ok I opn m \<longleftrightarrow> sig_inv m \<and> sched_inv (sch m) \<and> server_ok I opn (srv m)"

lemma wake_expired_ok:
  assumes "sched_inv s"
  shows "\<exists>nx s'. wake_expired_tasks d s = Some (nx, s') \<and> sched_inv s'"
proof -
  have "\<exists>nx s'. wake_expired_tasks d s = Some (nx, s') \<and> sched_inv s' \<and> wake_safe d s s'"
    unfolding wake_expired_tasks_def
    using assms ebq.lookup_ge_mem [OF sched_invD(1) [OF assms]] by (intro wake_loop_safe)
  then show ?thesis by blast
qed

lemma process_runnable_ok:
  assumes "callback_ok process" and "sched_inv s"
  shows "sched_inv (snd (process_runnable_tasks process nx s))"
proof -
  let ?s = "s\<lparr>run_queue_cur := run_queue s, nb_tasks_cur := nb_tasks s\<rparr>"
  have inv: "sched_inv ?s" using assms(2) unfolding sched_inv_def by simp
  note mem = ebq.lookup_ge_mem [OF sched_invD(2) [OF inv], of "rqueue_ticks ?s - TIMER_LOOK_BACK"]
  show ?thesis using run_loop_inv [OF assms(1) inv mem] inv by (auto simp: process_runnable_tasks_def Let_def)
qed

context connection_service
begin

lemma main_round_ok:
  assumes ok: "main_ok I opn m" and pr: "callback_ok process" and k: "kernel_spec e log opn fresh" "\<And>l. handler_of e l = hd"
  shows "\<exists>m'. main_round e process i m = Some m' \<and> main_ok I opn m' \<and> sig_handler m' = sig_handler m \<and>
    is_stop m' = (is_stop m \<or> (\<exists>n \<in> set (queued m). stops m n)) \<and>
    set (queued m') \<subseteq> nat ` {x \<in> set (delivered i). \<not> out_of_range x} \<and>
    (\<forall>x \<in> set (delivered i). \<not> out_of_range x \<and> sig_handler m (nat x) \<noteq> None \<longrightarrow> nat x \<in> set (queued m'))"
proof -
  have s: "sig_inv m" "sched_inv (sch m)" "server_ok I opn (srv m)" using ok by (simp_all add: main_ok_def)
  let ?m1 = "(fold (serve run_handler) (queued m) m)\<lparr>signal_queue_len := 0\<rparr>"
  have q: "signal_process_queue run_handler m = Some ?m1" "sig_inv ?m1"
    using process_queue_ok [OF s(1) run_handler_quiet] by auto
  have "\<forall>n \<in> set (queued m). sig_handler m n \<noteq> None" using s(1) by (auto simp: sig_inv_def)
  note f = fold_serve_program [OF this]
  have h: "sig_handler ?m1 = sig_handler m" using fold_serve_fields [OF run_handler_quiet, of "queued m" m] by simp
  have sch1: "sched_inv (sch ?m1)" using s(2) f by simp
  from wake_expired_ok [OF sch1, of "now_ms (clk (srv ?m1))"] obtain nx s1 where w: "wake_expired_tasks (now_ms (clk (srv ?m1))) (sch ?m1) = Some (nx, s1)" "sched_inv s1"
    by blast
  obtain n2 s2 where p: "process_runnable_tasks process nx s1 = (n2, s2)" by fastforce
  have s2: "sched_inv s2" using process_runnable_ok [OF pr w(2), of nx] p by simp
  let ?p = "poll_do (lift_sys (esys e)) (server_cb e) (times i) (sint n2) (srv ?m1)"
  have sp: "server_ok I opn ?p" using poll_do_ok [OF _ k] s(3) f by simp
  let ?m2 = "?m1\<lparr>sch := s2, srv := ?p\<rparr>"
  have "sig_inv ?m2" using q(2) by (simp add: sig_inv_def queued_def)
  from deliver_ok [OF this, of "delivered i"] obtain m' where m': "deliver (delivered i) ?m2 = Some m'" "sig_inv m'" "is_stop m' = is_stop ?m2"
    "sch m' = s2" "srv m' = ?p" "sig_handler m' = sig_handler ?m1"
    "set (queued m') \<subseteq> set (queued ?m2) \<union> nat ` {x \<in> set (delivered i). \<not> out_of_range x}"
    "\<forall>x \<in> set (delivered i). \<not> out_of_range x \<and> sig_handler ?m2 (nat x) \<noteq> None \<longrightarrow> nat x \<in> set (queued m')" by auto
  have "main_round e process i m = Some m'"
    using q(1) w(1) p m'(1) by (simp add: main_round_def Let_def)
  moreover have "queued ?m2 = []" by (simp add: queued_def)
  ultimately show ?thesis using m' s2 sp f h by (auto simp: main_ok_def)
qed

lemma main_loop_ok:
  assumes "main_ok I opn m" and "callback_ok process" and "kernel_spec e log opn fresh" "\<And>l. handler_of e l = hd"
  shows "\<exists>m'. main_loop e process is m = Some m' \<and> main_ok I opn m'"
  using assms(1)
proof (induction "is" arbitrary: m)
  case (Cons i "is")
  from main_round_ok [OF Cons.prems assms(2-4), of i] obtain m1 where "main_round e process i m = Some m1" "main_ok I opn m1" by auto
  then show ?case using Cons.IH [of m1] by auto
qed simp

end

section \<open>The program with the echo service\<close>

definition program_handlers :: "nat \<rightharpoonup> nat" where
  "program_handlers = [3 \<mapsto> h_dump, 10 \<mapsto> sig_soft_stop, 1 \<mapsto> sig_dump_state, 2 \<mapsto> sig_int, 15 \<mapsto> sig_term]"

lemma init_signals:
  assumes "env_init h t m = Some (maxc, np, m')"
  shows "sig_inv m'" "sig_handler m' = program_handlers" "queued m' = []" "sch m' = sch m" "is_stop m' = is_stop m"
  using assms by (auto simp: env_init_def bind_eq_Some_conv Let_def signal_init_def signal_register_def out_of_range_def MAX_SIGNAL_def sig_inv_def
      queued_def program_handlers_def SIGQUIT_def SIGUSR1_def SIGHUP_def SIGINT_def SIGTERM_def fun_eq_iff split: if_splits)

text \<open>The program before \<open>main\<close>: nothing in the table, no connection, a consistent scheduler, the handlers \<open>hs\<close> and the protocols
  \<open>ps\<close> registered by the constructors and no listener.\<close>

definition unstarted :: "(echo, 'k) program \<Rightarrow> nat list \<Rightarrow> nat list \<Rightarrow> bool" where
  "unstarted m hs ps \<longleftrightarrow> booted (srv m) \<and> sched_inv (sch m) \<and> \<not> is_stop m \<and> lists_ok (reg m) hs ps [] []"

text \<open>The system at the start: memory for the listeners of the configuration, which has TCP services only; sockets that are open; a new epoll
  instance leaves the other descriptors; the services are the echo service.\<close>

definition host_spec :: "(echo, 'k) host \<Rightarrow> 'k socks \<Rightarrow> ('k \<Rightarrow> nat \<Rightarrow> u8 list \<times> u8 list) \<Rightarrow> ('k \<Rightarrow> nat set) \<Rightarrow> nat list \<Rightarrow> nat list \<Rightarrow> config \<Rightarrow> bool" where
  "host_spec h os log opn hs ps cfg \<longleftrightarrow>
     socks_spec os log opn \<and> kernel_spec (net_env h) log opn ([], []) \<and> opener_spec (tcp_socket h) opn \<and>
     (\<forall>k. opn k \<subseteq> opn (snd (new_epoll h k))) \<and> (\<forall>l. handler_of (net_env h) l = handler_echo os) \<and>
     load_config h = (\<lambda>_. echo_load_config) \<and> cfg_file h = Some cfg \<and> cfg_udp cfg = [] \<and>
     length (fst (memory h)) = length (cfg_tcp cfg) \<and> 0 \<notin> set (fst (memory h)) \<and> distinct (fst (memory h)) \<and>
     set (fst (memory h)) \<inter> set ([handlers, protocols, listeners proto_tcpv4, listeners proto_udpv4] @ hs @ ps) = {}"

lemma idle_echo:
  assumes "socks_spec os log opn"
  shows "echo_service os log opn s k {} \<longleftrightarrow> e_conn s = 0 \<and> finite (dom (e_heap s))"
  using assms by (simp add: echo_service_def echo_inv_def)

lemma init_ready:
  assumes m: "unstarted m hs ps" and h: "host_spec h os log opn hs ps cfg" and i: "env_init h t m = Some (maxc, np, m')"
  shows "\<exists>ls. clist (reg m') protocols ps \<and> clist (reg m') (listeners proto_tcpv4) ls \<and> clist (reg m') (listeners proto_udpv4) [] \<and>
    server_ok (echo_service os log opn) opn (srv m') \<and> starting (srv m')"
proof -
  let ?P = "\<lambda>s. e_conn s = 0 \<and> finite (dom (e_heap s))" and ?ms = "fst (memory h)"
  note m = m [unfolded unstarted_def] and h = h [unfolded host_spec_def]
  have cf: "cfg_file h = Some cfg" "load_config h = (\<lambda>_. echo_load_config)" "cfg_udp cfg = []" using h by blast+
  obtain r s where c: "config_load (Some cfg) (\<lambda>_. echo_load_config) ?ms (snd (memory h)) (reg m) (svc (kern (srv m))) = Some (maxc, np, r, s)"
    "reg m' = r" "srv m' = poll_init (nat maxc) (kern ((srv m)\<lparr>kern := (kern (srv m))\<lparr>svc := s\<rparr>\<rparr>))
       (fd_init (nat maxc) ((srv m)\<lparr>kern := (kern (srv m))\<lparr>svc := s\<rparr>, clk := tv_update_date (fst t) (snd t) (- 1) (- 1) (clk (srv m))\<rparr>))"
    using i cf(1,2) by (auto simp: env_init_def bind_eq_Some_conv Let_def signal_init_def signal_register_def split: if_splits)
  have pre: "lists_ok (reg m) hs ps [] []" "length ?ms = length (cfg_tcp cfg)" "0 \<notin> set ?ms" "distinct ?ms"
    "set ?ms \<inter> set ([handlers, protocols, listeners proto_tcpv4, listeners proto_udpv4] @ hs @ ps @ [] @ []) = {}" using m h by simp_all
  note ld = load_tcp_ok [OF pre, where load = "\<lambda>_. echo_load_config" and s = "svc (kern (srv m))"]
  obtain s' where e: "entries_ok (found (reg m) hs) (\<lambda>_. echo_load_config) (cfg_tcp cfg) (svc (kern (srv m))) = Some s'"
    using ld c(1) by (cases "entries_ok (found (reg m) hs) (\<lambda>_. echo_load_config) (cfg_tcp cfg) (svc (kern (srv m)))")
      (auto simp: config_load_def)
  from ld e c(1) cf(3)
  have s': "s' = s" "lists_ok r hs ps ?ms []" by (auto simp: config_load_def)
  have "?P (svc (kern (srv m)))" using m by (simp add: booted_def)
  have P: "?P s"
  proof (rule entries_keep [where P = ?P, OF e [unfolded s'(1)] \<open>?P (svc (kern (srv m)))\<close>])
    fix h :: nat and f a b assume "echo_load_config f a = Some b" and a: "?P a"
    then obtain n where b: "b = a\<lparr>e_max_conn := n\<rparr>" by (cases "f ''max_conn''") (simp_all add: echo_load_config_def, metis)
    show "?P b" using a unfolding b by simp
  qed
  have "halted (kern (srv m)) = False" "fd_state (srv m) = (\<lambda>_. FD_STCLOSE)" "cb_f (kern (srv m)) = (\<lambda>_ _. Null)" using m by (simp_all add: booted_def)
  moreover have "socks_spec os log opn" using h by simp
  ultimately have "booted (srv m')" using P by (simp add: c(3) booted_def poll_init_def fd_init_def fun_eq_iff)
  with booted_service [OF this \<open>socks_spec os log opn\<close>] s'(2) c(2) show ?thesis by (auto simp: lists_ok_def)
qed

lemma boot_ok:
  assumes m: "unstarted m hs ps" and h: "host_spec h os log opn hs ps cfg" and b: "boot h t m = Some (e, m')"
  shows "main_ok (echo_service os log opn) opn m' \<and> sig_handler m' = program_handlers \<and> queued m' = [] \<and> \<not> is_stop m' \<and>
    kernel_spec e log opn ([], []) \<and> (\<forall>l. handler_of e l = handler_echo os)"
proof -
  note hh = h [unfolded host_spec_def]
  obtain maxc np m1 where i: "env_init h t m = Some (maxc, np, m1)" using b by (auto simp: boot_def bind_eq_Some_conv)
  let ?e = "(net_env h)\<lparr>maxconn := nat maxc\<rparr>" and ?I = "echo_service os log opn"
  have hi: "h_init (handler_of ?e l) = None" for l using hh by (simp add: handler_echo_def)
  have socks: "socks_spec os log opn" and op: "opener_spec (tcp_socket h) opn" using hh by blast+
  have I: "?I s k' {}" if "?I s k {}" for s k k' using that by (simp add: idle_echo [OF socks])
  from init_ready [OF m h i] obtain ls where l: "clist (reg m1) protocols ps" "clist (reg m1) (listeners proto_tcpv4) ls"
    "clist (reg m1) (listeners proto_udpv4) []" "server_ok ?I opn (srv m1)" "starting (srv m1)" by blast
  have "\<exists>err r p. protocol_bind_all ?e (tcp_socket h) (udp_socket h) (reg m1) (srv m1) = Some (err, r, p) \<and> server_ok ?I opn p \<and> starting p \<and>
      nxt r = nxt (reg m1) \<and> prv r = prv (reg m1)"
    by (rule bind_all_ok [OF l(4,5) op _ hi l(1-3)]) (rule I)
  then obtain err r p where
    p: "protocol_bind_all ?e (tcp_socket h) (udp_socket h) (reg m1) (srv m1) = Some (err, r, p)" "server_ok ?I opn p" "starting p"
      "nxt r = nxt (reg m1)" "prv r = prv (reg m1)" by blast
  have nh: "\<not> halted (kern p)" using b i p(1) by (auto simp: boot_def Let_def)
  obtain p1 where f: "fork_mode h np p = Some p1" using b i p(1) nh by (auto simp: boot_def Let_def bind_eq_Some_conv)
  have "server_ok ?I opn p1"
  proof (cases "np > 1")
    case True
    obtain fd k where k: "new_epoll h (os_state (kern p)) = (fd, k)" by fastforce
    then have "opn (os_state (kern p)) \<subseteq> opn k" using hh by (metis snd_conv)
    moreover have "p1 = p\<lparr>kern := (kern p)\<lparr>os_state := k\<rparr>\<rparr>"
      using f True k by (auto simp: fork_mode_def poll_fork_def bind_eq_Some_conv split: if_splits)
    ultimately show ?thesis using server_ok_open [OF p(2,3), of k] I by blast
  qed (use f p(2) in \<open>simp add: fork_mode_def\<close>)
  from enable_all_ok [where r = r, OF this] l(1-3) obtain p2 where p2: "protocol_enable_all r p1 = Some p2" "server_ok ?I opn p2"
    by (simp add: clist_more [OF p(4,5)]) blast
  have "e = ?e" "m' = m1\<lparr>reg := r, srv := p2\<rparr>" using b i p(1) nh f p2(1) by (simp_all add: boot_def Let_def)
  then show ?thesis using init_signals [OF i] p2(2) m hh
    by (auto simp: main_ok_def sig_inv_def queued_def unstarted_def kernel_spec_def)
qed


text \<open>C29: the program stops on SIGINT and SIGTERM and on no other signal: one of them, delivered during a round, ends the loop at
  the end of the next round, after its timers, tasks and events; without one the loop goes on.\<close>

theorem stop_signal:
  assumes ok: "main_ok (echo_service os log opn) opn m" and m: "sig_handler m = program_handlers" "queued m = []" "\<not> is_stop m"
    and k: "callback_ok process" "kernel_spec e log opn ([], [])" "\<And>l. handler_of e l = handler_echo os"
  shows "\<exists>m1 m2. main_round e process i m = Some m1 \<and> \<not> is_stop m1 \<and> main_round e process j m1 = Some m2 \<and>
    (is_stop m2 \<longleftrightarrow> SIGINT \<in> set (delivered i) \<or> SIGTERM \<in> set (delivered i)) \<and>
    (\<not> halted (kern (srv m1)) \<longrightarrow> main_loop e process (i # j # is) m =
       (if is_stop m2 \<or> halted (kern (srv m2)) then Some m2 else main_loop e process is m2))"
proof -
  from echo.main_round_ok [OF ok k, of i] obtain m1 where m1: "main_round e process i m = Some m1"
    "main_ok (echo_service os log opn) opn m1" "sig_handler m1 = program_handlers" "\<not> is_stop m1"
    "set (queued m1) \<subseteq> nat ` {x \<in> set (delivered i). \<not> out_of_range x}"
    "\<forall>x \<in> set (delivered i). \<not> out_of_range x \<and> program_handlers (nat x) \<noteq> None \<longrightarrow> nat x \<in> set (queued m1)"
    using m by auto
  from echo.main_round_ok [OF m1(2) k, of j] obtain m2 where m2: "main_round e process j m1 = Some m2"
    "is_stop m2 = (\<exists>n \<in> set (queued m1). stops m1 n)" using m1(4) by auto
  have st: "stops m1 n \<longleftrightarrow> n = 2 \<or> n = 15" for n
    by (auto simp: stops_def m1(3) program_handlers_def h_dump_def sig_soft_stop_def sig_dump_state_def sig_int_def sig_term_def)
  have q: "n \<in> set (queued m1) \<longleftrightarrow> int n \<in> set (delivered i)" if "n = 2 \<or> n = 15" for n
  proof
    assume "n \<in> set (queued m1)"
    then show "int n \<in> set (delivered i)" using m1(5) by (auto simp: out_of_range_def)
  next
    assume d: "int n \<in> set (delivered i)"
    have "\<not> out_of_range (int n)" "program_handlers n \<noteq> None"
      using that by (auto simp: out_of_range_def MAX_SIGNAL_def program_handlers_def)
    then show "n \<in> set (queued m1)" using m1(6) d by force
  qed
  have "is_stop m2 \<longleftrightarrow> SIGINT \<in> set (delivered i) \<or> SIGTERM \<in> set (delivered i)"
    using q [of 2] q [of 15] by (auto simp: m2(2) st SIGINT_def SIGTERM_def)
  then show ?thesis using m1(1,4) m2(1) by auto
qed

section \<open>Example\<close>

definition toy_program :: "(echo, toy) program" where
  "toy_program = \<lparr>signal_queue_len = 0, signal_queue = [], sig_count = (\<lambda>_. 0), sig_handler = Map.empty, disp = (\<lambda>_. SIG_DFL),
     is_stop = False, sch = sched0, reg = registry0, srv = toy_server\<rparr>"

definition idle_task :: Task.callback where
  "idle_task t s = (Some t, s)"

definition toy_host :: "(echo, toy) host" where
  "toy_host = \<lparr>net_env = toy_env, tcp_socket = (\<lambda>_ k. (3, k\<lparr>toy_open := insert 3 (toy_open k)\<rparr>)), udp_socket = (\<lambda>_ k. (- 1, k)),
     new_epoll = (\<lambda>k. (5, k)), fork_result = (\<lambda>_. 0), cfg_file = Some config0, load_config = (\<lambda>_. echo_load_config), memory = ([201], [])\<rparr>"

lemma toy_ok: "unstarted toy_program [101, 102] [3, 4]" "callback_ok idle_task"
    "host_spec toy_host toy_socks toy_log toy_open [101, 102] [3, 4] config0"
  using sched0_inv registry0_ok toy_specs
  by (auto simp: unstarted_def booted_def toy_program_def toy_server_def callback_ok_def idle_task_def host_spec_def toy_host_def toy_env_def
      opener_spec_def config0_def addresses kernel_spec_def)

definition toy_boot :: "(echo, toy) env \<times> (echo, toy) program" where
  "toy_boot = the (boot toy_host (tv_zero, tv_zero) toy_program)"

lemma toy_booted: "boot toy_host (tv_zero, tv_zero) toy_program = Some (fst toy_boot, snd toy_boot)"
proof -
  have "boot toy_host (tv_zero, tv_zero) toy_program \<noteq> None" by code_simp
  then show ?thesis by (auto simp: toy_boot_def)
qed


theorem stop_signal_witness:
  "\<exists>m1 m2. main_round (fst toy_boot) idle_task \<lparr>times = (tv_zero, tv_zero), delivered = [10, 15]\<rparr> (snd toy_boot) = Some m1 \<and>
     \<not> is_stop m1 \<and> main_round (fst toy_boot) idle_task \<lparr>times = (tv_zero, tv_zero), delivered = []\<rparr> m1 = Some m2 \<and> is_stop m2"
proof -
  note b = boot_ok [OF toy_ok(1,3) toy_booted]
  have h: "handler_of (fst toy_boot) l = handler_echo toy_socks" for l using b by blast
  from stop_signal [OF _ _ _ _ toy_ok(2) _ h, of toy_log toy_open "snd toy_boot"
      "\<lparr>times = (tv_zero, tv_zero), delivered = [10, 15]\<rparr>" "\<lparr>times = (tv_zero, tv_zero), delivered = []\<rparr>" "[]"] b
  show ?thesis by (auto simp: SIGTERM_def SIGINT_def)
qed

end
