(* ===== verification/Slabs.thy ===== *)
theory Slabs
  imports Prelude
begin

text \<open>
  The slab allocator, \<open>src/src/handler/mc/fat/slabs.c\<close>. Memory is taken in pages of 1 MB, each cut into chunks of the size of its
  class; freed chunks wait in an array of the class. Addresses are numbers, NULL is 0; \<open>malloc\<close> and \<open>realloc\<close> are parameters. The sizes in bytes
  that are compared with the limit keep their 64 bits; counters of chunks and pages, which memory bounds, are natural numbers. A failed \<open>assert\<close>, a
  division by 0 and an access outside an array are \<open>None\<close>. Entries of a pointer array that were not written yet are 0 here and are never read.
  Shown: chunks that are in use never overlap, whatever the order of allocations and releases and whichever allocations fail;
  \<open>slabs_clsid\<close> gives the smallest class that fits; and \<open>do_slabs_reassign\<close> hands out memory that is in use.
\<close>

section \<open>State\<close>

definition POWER_SMALLEST :: nat where "POWER_SMALLEST = 1"
definition POWER_LARGEST :: nat where "POWER_LARGEST = 200"
definition POWER_BLOCK :: nat where "POWER_BLOCK = 1048576"
definition CHUNK_ALIGN_BYTES :: nat where "CHUNK_ALIGN_BYTES = 8"

record slabclass =
  chunk :: nat                \<comment> \<open>\<open>size\<close>\<close>
  perslab :: nat
  slots :: "nat list"
  sl_total :: nat
  sl_curr :: nat
  end_page_ptr :: nat
  end_page_free :: nat
  slabs :: nat
  slab_list :: "nat list"
  list_size :: nat
  killing :: nat

record 'k slab_state =
  slabclass :: "nat \<Rightarrow> slabclass"
  mem_limit :: u64
  mem_malloced :: u64
  power_largest :: nat
  mem_base :: nat
  mem_current :: nat
  mem_avail :: u64
  mem_os :: 'k

record 'k allocator =
  malloc :: "nat \<Rightarrow> 'k \<Rightarrow> nat \<times> 'k"
  realloc_ok :: "nat \<Rightarrow> 'k \<Rightarrow> bool \<times> 'k"

definition upd :: "nat \<Rightarrow> (slabclass \<Rightarrow> slabclass) \<Rightarrow> 'k slab_state \<Rightarrow> 'k slab_state" where
  "upd cid f st = st\<lparr>slabclass := (slabclass st)(cid := f (slabclass st cid))\<rparr>"

section \<open>Start\<close>

definition class0 :: slabclass where
  "class0 = \<lparr>chunk = 0, perslab = 0, slots = [], sl_total = 0, sl_curr = 0, end_page_ptr = 0, end_page_free = 0,
     slabs = 0, slab_list = [], list_size = 0, killing = 0\<rparr>"

definition align :: "nat \<Rightarrow> nat" where
  "align sz = (if sz mod CHUNK_ALIGN_BYTES \<noteq> 0 then sz + (CHUNK_ALIGN_BYTES - sz mod CHUNK_ALIGN_BYTES) else sz)"

text \<open>The loop over the classes; \<open>scale\<close> is the multiplication by \<open>factor\<close>, a \<open>double\<close>, with the conversion back to \<open>unsigned\<close>.\<close>

function init_loop :: "(nat \<Rightarrow> nat) \<Rightarrow> nat \<Rightarrow> nat \<Rightarrow> (nat \<Rightarrow> slabclass) \<Rightarrow> (nat \<times> (nat \<Rightarrow> slabclass)) option" where
  "init_loop scale i sz cls =
     (if i + 1 < POWER_LARGEST \<and> sz \<le> POWER_BLOCK div 2
      then let n = align sz
           in if n = 0 then None
              else init_loop scale (i + 1) (scale n) (cls(i + 1 := (cls (i + 1))\<lparr>chunk := n, perslab := POWER_BLOCK div n\<rparr>))
      else Some (i + 1, cls))"
  by pat_completeness auto
termination by (relation "measure (\<lambda>(_, i, _). POWER_LARGEST - i)") auto

declare init_loop.simps [simp del]

text \<open>\<open>two\<close> says whether \<open>factor\<close> is 2.0; \<open>initial\<close> is the value of \<open>T_MEMD_INITIAL_MALLOC\<close>.\<close>

definition slabs_init :: "'k allocator \<Rightarrow> u64 \<Rightarrow> bool \<Rightarrow> (nat \<Rightarrow> nat) \<Rightarrow> bool \<Rightarrow> int option \<Rightarrow> 'k slab_state \<Rightarrow> 'k slab_state option" where
  "slabs_init A limit two scale prealloc initial st =
     (let chunk_size = 128;
          sz = (if two \<and> chunk_size < 128 then 128 else chunk_size);
          s1 = st\<lparr>mem_limit := limit\<rparr>;
          s2 = (if prealloc
                then let (b, k) = malloc A (unat limit) (mem_os s1); s = s1\<lparr>mem_base := b, mem_os := k\<rparr>
                     in if b \<noteq> 0 then s\<lparr>mem_current := b, mem_avail := limit\<rparr> else s
                else s1)
      in case init_loop scale (POWER_SMALLEST - 1) sz (\<lambda>_. class0) of
           None \<Rightarrow> None
         | Some (i, cls) \<Rightarrow>
             Some (s2\<lparr>slabclass := cls(i := (cls i)\<lparr>chunk := POWER_BLOCK, perslab := 1\<rparr>), power_largest := i,
               mem_malloced := (case initial of None \<Rightarrow> mem_malloced s2 | Some n \<Rightarrow> word_of_int n)\<rparr>))"

text \<open>The search for a class reads the array of \<open>POWER_LARGEST + 1\<close> classes.\<close>

function clsid_loop :: "'k slab_state \<Rightarrow> nat \<Rightarrow> nat \<Rightarrow> nat option" where
  "clsid_loop st sz res =
     (if res > POWER_LARGEST then None
      else if sz > chunk (slabclass st res)
           then if res = power_largest st then Some 0 else clsid_loop st sz (res + 1)
           else Some res)"
  by pat_completeness auto
termination by (relation "measure (\<lambda>(_, _, res). POWER_LARGEST + 1 - res)") auto

declare clsid_loop.simps [simp del]

definition slabs_clsid :: "'k slab_state \<Rightarrow> nat \<Rightarrow> nat option" where
  "slabs_clsid st sz = (if sz = 0 then Some 0 else clsid_loop st sz POWER_SMALLEST)"

section \<open>Pages\<close>

definition memory_allocate :: "'k allocator \<Rightarrow> u64 \<Rightarrow> 'k slab_state \<Rightarrow> nat \<times> 'k slab_state" where
  "memory_allocate A sz st =
     (if mem_base st = 0
      then let (r, k) = malloc A (unat sz) (mem_os st) in (r, st\<lparr>mem_os := k\<rparr>)
      else if sz > mem_avail st then (0, st)
      else let n = (if sz mod 8 \<noteq> 0 then sz + (8 - sz mod 8) else sz)
           in (mem_current st, st\<lparr>mem_current := mem_current st + unat n,
                 mem_avail := (if n < mem_avail st then mem_avail st - n else 0)\<rparr>))"

definition grow_slab_list :: "'k allocator \<Rightarrow> nat \<Rightarrow> 'k slab_state \<Rightarrow> bool \<times> 'k slab_state" where
  "grow_slab_list A cid st =
     (let p = slabclass st cid
      in if slabs p = list_size p
         then let new_size = (if list_size p \<noteq> 0 then list_size p * 2 else 16);
                  (ok, k) = realloc_ok A (new_size * 8) (mem_os st);
                  s1 = st\<lparr>mem_os := k\<rparr>
              in if \<not> ok then (False, s1)
                 else (True, upd cid (\<lambda>p. p\<lparr>list_size := new_size, slab_list := slab_list p @ replicate (new_size - list_size p) 0\<rparr>) s1)
         else (True, st))"

definition do_slabs_newslab :: "'k allocator \<Rightarrow> nat \<Rightarrow> 'k slab_state \<Rightarrow> (bool \<times> 'k slab_state) option" where
  "do_slabs_newslab A cid st =
     (if mem_limit st \<noteq> 0 \<and> mem_malloced st + of_nat POWER_BLOCK > mem_limit st \<and> slabs (slabclass st cid) > 0 then Some (False, st)
      else let (ok, s1) = grow_slab_list A cid st
           in if \<not> ok then Some (False, s1)
              else let (ptr, s2) = memory_allocate A (of_nat POWER_BLOCK) s1; n = slabs (slabclass s2 cid)
                   in if ptr = 0 then Some (False, s2)
                      else if \<not> n < length (slab_list (slabclass s2 cid)) then None
                      else Some (True, upd cid (\<lambda>p. p\<lparr>end_page_ptr := ptr, end_page_free := perslab p,
                             slab_list := (slab_list p)[n := ptr], slabs := n + 1\<rparr>)
                             (s2\<lparr>mem_malloced := mem_malloced s2 + of_nat POWER_BLOCK\<rparr>)))"

section \<open>Chunks\<close>

definition do_slabs_alloc :: "'k allocator \<Rightarrow> nat \<Rightarrow> 'k slab_state \<Rightarrow> (nat \<times> 'k slab_state) option" where
  "do_slabs_alloc A cid st =
     (if cid < POWER_SMALLEST \<or> cid > power_largest st then Some (0, st)
      else do {
        (ok, s1) \<leftarrow> (if end_page_ptr (slabclass st cid) \<noteq> 0 \<or> sl_curr (slabclass st cid) \<noteq> 0 then Some (True, st)
                     else do_slabs_newslab A cid st);
        let p = slabclass s1 cid;
        if \<not> ok then Some (0, s1)
        else if sl_curr p \<noteq> 0 then
          if sl_curr p - 1 < length (slots p)
          then Some (slots p ! (sl_curr p - 1), upd cid (\<lambda>p. p\<lparr>sl_curr := sl_curr p - 1\<rparr>) s1)
          else None
        else if end_page_ptr p = 0 then None
        else Some (end_page_ptr p, upd cid (\<lambda>p. p\<lparr>end_page_free := end_page_free p - 1,
               end_page_ptr := (if end_page_free p - 1 \<noteq> 0 then end_page_ptr p + chunk p else 0)\<rparr>) s1)
      })"

definition do_slabs_free :: "'k allocator \<Rightarrow> nat \<Rightarrow> nat \<Rightarrow> 'k slab_state \<Rightarrow> 'k slab_state option" where
  "do_slabs_free A ptr cid st =
     (if \<not> (POWER_SMALLEST \<le> cid \<and> cid \<le> power_largest st) then None
      else let p = slabclass st cid;
               (ok, s1) = (if sl_curr p = sl_total p
                 then let new_size = (if sl_total p \<noteq> 0 then sl_total p * 2 else 16);
                          (ok, k) = realloc_ok A (new_size * 8) (mem_os st); s = st\<lparr>mem_os := k\<rparr>
                      in if ok then (True, upd cid (\<lambda>p. p\<lparr>slots := slots p @ replicate (new_size - sl_total p) 0, sl_total := new_size\<rparr>) s)
                         else (False, s)
                 else (True, st))
           in if \<not> ok then Some s1
              else if sl_curr p < length (slots (slabclass s1 cid))
                   then Some (upd cid (\<lambda>p. p\<lparr>slots := (slots p)[sl_curr p := ptr], sl_curr := sl_curr p + 1\<rparr>) s1)
                   else None)"

section \<open>Statistics\<close>

definition slab_line :: "nat \<Rightarrow> string \<Rightarrow> nat \<Rightarrow> u8 list" where
  "slab_line i name v = bytes ''STAT '' @ digits i @ bytes name @ digits v @ [13, 10]"

definition class_lines :: "nat \<Rightarrow> slabclass \<Rightarrow> u8 list" where
  "class_lines i p =
     slab_line i '':chunk_size '' (chunk p) @ slab_line i '':chunks_per_page '' (perslab p) @
     slab_line i '':total_pages '' (slabs p) @ slab_line i '':total_chunks '' (slabs p * perslab p) @
     slab_line i '':used_chunks '' (slabs p * perslab p - sl_curr p) @ slab_line i '':free_chunks '' (sl_curr p) @
     slab_line i '':free_chunks_end '' (end_page_free p)"

text \<open>The loop over the classes with pages: the text, and their number.\<close>

fun stats_loop :: "'k slab_state \<Rightarrow> nat list \<Rightarrow> u8 list \<Rightarrow> nat \<Rightarrow> u8 list \<times> nat" where
  "stats_loop st [] buf tot = (buf, tot)"
| "stats_loop st (i # is) buf tot =
     (let p = slabclass st i
      in if slabs p \<noteq> 0 then stats_loop st is (buf @ class_lines i p) (tot + 1) else stats_loop st is buf tot)"

text \<open>\<open>None\<close> is a text longer than the block allocated for it; without memory the result is NULL, \<open>Some []\<close>.\<close>

definition do_slabs_stats :: "bool \<Rightarrow> 'k slab_state \<Rightarrow> u8 list option" where
  "do_slabs_stats have_memory st =
     (if \<not> have_memory then Some []
      else let (buf, tot) = stats_loop st [POWER_SMALLEST..<power_largest st + 1] [] 0;
               text = buf @ bytes ''STAT active_slabs '' @ digits tot @ [13, 10] @ bytes ''STAT total_malloced '' @
                      digits (unat (mem_malloced st)) @ [13, 10] @ bytes ''END'' @ [13, 10]
           in if length text < power_largest st * 200 + 100 then Some text else None)"

section \<open>Moving a page\<close>

text \<open>The loop over the free chunks, from the last one down: those of the page are dropped.\<close>

fun purge :: "nat \<Rightarrow> nat \<Rightarrow> nat list \<times> nat \<Rightarrow> nat list \<times> nat" where
  "purge slab 0 (xs, c) = (xs, c)"
| "purge slab (Suc fi) (xs, c) =
     (if slab \<le> xs ! fi \<and> xs ! fi < slab + POWER_BLOCK
      then purge slab fi (if c - 1 > fi then xs[fi := xs ! (c - 1)] else xs, c - 1)
      else purge slab fi (xs, c))"

definition do_slabs_reassign :: "'k allocator \<Rightarrow> nat \<Rightarrow> nat \<Rightarrow> 'k slab_state \<Rightarrow> (int \<times> 'k slab_state) option" where
  "do_slabs_reassign A src dst st =
     (if src < POWER_SMALLEST \<or> src > power_largest st \<or> dst < POWER_SMALLEST \<or> dst > power_largest st then Some (0, st)
      else if end_page_ptr (slabclass st src) \<noteq> 0 \<or> slabs (slabclass st src) = 0 then Some (0, st)
      else if end_page_ptr (slabclass st dst) \<noteq> 0 then Some (0, st)
      else let (ok, s1) = grow_slab_list A dst st
           in if \<not> ok then Some (0, s1)
              else let s2 = upd src (\<lambda>p. if killing p = 0 then p\<lparr>killing := 1\<rparr> else p) s1;
                       p = slabclass s2 src; kl = killing p - 1; last_page = slabs p - 1
                   in if \<not> (kl < length (slab_list p) \<and> last_page < length (slab_list p) \<and> sl_curr p \<le> length (slots p)) then None
                      else let slab = slab_list p ! kl;
                               (xs, c) = purge slab (sl_curr p) (slots p, sl_curr p);
                               s3 = upd src (\<lambda>p. p\<lparr>slots := xs, sl_curr := c, slab_list := (slab_list p)[kl := slab_list p ! last_page],
                                      slabs := slabs p - 1, killing := 0\<rparr>) s2;
                               n = slabs (slabclass s3 dst)
                           in if \<not> n < length (slab_list (slabclass s3 dst)) then None
                              else Some (1, upd dst (\<lambda>p. p\<lparr>slab_list := (slab_list p)[n := slab], slabs := n + 1,
                                     end_page_ptr := slab, end_page_free := perslab p\<rparr>) s3))"

section \<open>The classes\<close>

lemma upd_simps [simp]:
  "slabclass (upd cid f st) = (slabclass st)(cid := f (slabclass st cid))" "mem_os (upd cid f st) = mem_os st"
  "power_largest (upd cid f st) = power_largest st" "mem_base (upd cid f st) = mem_base st" "mem_avail (upd cid f st) = mem_avail st"
  "mem_current (upd cid f st) = mem_current st" "mem_limit (upd cid f st) = mem_limit st" "mem_malloced (upd cid f st) = mem_malloced st"
  by (simp_all add: upd_def)

text \<open>The classes after the start: increasing sizes, the last one a whole page.\<close>

definition classes_ready :: "'k slab_state \<Rightarrow> bool" where
  "classes_ready st \<longleftrightarrow> 1 \<le> power_largest st \<and> power_largest st \<le> POWER_LARGEST \<and>
     (\<forall>i j. 1 \<le> i \<and> i < j \<and> j \<le> power_largest st \<longrightarrow> chunk (slabclass st i) < chunk (slabclass st j)) \<and>
     chunk (slabclass st (power_largest st)) = POWER_BLOCK"

lemma clsid_loop_spec:
  assumes "1 \<le> res" "res \<le> power_largest st" "power_largest st \<le> POWER_LARGEST"
  shows "\<exists>cid. clsid_loop st n res = Some cid \<and>
    (if cid = 0 then \<forall>j \<in> {res..power_largest st}. chunk (slabclass st j) < n
     else res \<le> cid \<and> cid \<le> power_largest st \<and> n \<le> chunk (slabclass st cid) \<and> (\<forall>j \<in> {res..<cid}. chunk (slabclass st j) < n))"
  using assms
proof (induction "power_largest st - res" arbitrary: res)
  case 0
  then show ?case by (auto simp: clsid_loop.simps)
next
  case (Suc d)
  show ?case
  proof (cases "chunk (slabclass st res) < n")
    case False
    then show ?thesis using Suc.prems by (auto simp: clsid_loop.simps)
  next
    case True
    have d: "d = power_largest st - (res + 1)" "1 \<le> res + 1" "res + 1 \<le> power_largest st" using Suc.hyps(2) by simp_all
    from Suc.hyps(1) [OF d Suc.prems(3)] obtain cid where c: "clsid_loop st n (res + 1) = Some cid"
      "if cid = 0 then \<forall>j \<in> {res + 1..power_largest st}. chunk (slabclass st j) < n
       else res + 1 \<le> cid \<and> cid \<le> power_largest st \<and> n \<le> chunk (slabclass st cid) \<and> (\<forall>j \<in> {res + 1..<cid}. chunk (slabclass st j) < n)"
      by blast
    have "clsid_loop st n res = Some cid" using c(1) True Suc.prems d(3) by (simp add: clsid_loop.simps [of st n res])
    moreover have "{res..m} = (if res \<le> m then insert res {res + 1..m} else {})" "{res..<m} = (if res < m then insert res {res + 1..<m} else {})" for m
      by auto
    ultimately show ?thesis using c(2) True by (auto split: if_splits)
  qed
qed

lemma clsid_ok:
  assumes "classes_ready st"
  shows "\<exists>cid. slabs_clsid st n = Some cid \<and> (cid = 0 \<longleftrightarrow> n = 0 \<or> n > POWER_BLOCK) \<and>
    (cid \<noteq> 0 \<longrightarrow> cid \<le> power_largest st \<and> n \<le> chunk (slabclass st cid) \<and> (\<forall>j. 1 \<le> j \<and> j < cid \<longrightarrow> chunk (slabclass st j) < n))"
proof (cases "n = 0")
  case False
  have r: "1 \<le> power_largest st" "power_largest st \<le> POWER_LARGEST" "chunk (slabclass st (power_largest st)) = POWER_BLOCK"
    using assms unfolding classes_ready_def by auto
  have r4: "chunk (slabclass st i) \<le> POWER_BLOCK" if "1 \<le> i" "i \<le> power_largest st" for i
  proof (cases "i = power_largest st")
    case False
    then have "chunk (slabclass st i) < chunk (slabclass st (power_largest st))"
      using assms that unfolding classes_ready_def by (metis le_neq_implies_less order_refl)
    then show ?thesis using r(3) by simp
  qed (simp add: r(3))
  from clsid_loop_spec [of 1 st n] r obtain cid where c: "clsid_loop st n 1 = Some cid"
    "if cid = 0 then \<forall>j \<in> {1..power_largest st}. chunk (slabclass st j) < n
     else 1 \<le> cid \<and> cid \<le> power_largest st \<and> n \<le> chunk (slabclass st cid) \<and> (\<forall>j \<in> {1..<cid}. chunk (slabclass st j) < n)" by auto
  have "cid = 0 \<Longrightarrow> POWER_BLOCK < n" using c(2) r(1) by (auto simp: r(3) [symmetric])
  moreover have "cid \<noteq> 0 \<Longrightarrow> n \<le> POWER_BLOCK" using c(2) r4 [of cid] by auto
  ultimately show ?thesis using c False by (auto simp: slabs_clsid_def POWER_SMALLEST_def split: if_splits)
qed (simp add: slabs_clsid_def)

lemma align_props: "n \<le> align n" "align n < n + 8" "align n mod 8 = 0" "n > 0 \<Longrightarrow> align n > 0"
proof -
  have "(n + (8 - n mod 8)) mod 8 = 0" by presburger
  moreover have "n mod 8 < 8" by simp
  ultimately show "n \<le> align n" "align n < n + 8" "align n mod 8 = 0" "n > 0 \<Longrightarrow> align n > 0"
    by (auto simp: align_def CHUNK_ALIGN_BYTES_def)
qed

lemma align_le: "n \<le> 524288 \<Longrightarrow> align n \<le> 524288"
  using align_props [of n] by presburger

text \<open>The loop leaves increasing multiples of 8 in the classes it filled and nothing in the others.\<close>

definition filled :: "(nat \<Rightarrow> slabclass) \<Rightarrow> nat \<Rightarrow> bool" where
  "filled cls m \<longleftrightarrow> (\<forall>i. 1 \<le> i \<and> i < m \<longrightarrow> (\<exists>n. n mod 8 = 0 \<and> 128 \<le> n \<and> n \<le> 524288 \<and>
      cls i = class0\<lparr>chunk := n, perslab := POWER_BLOCK div n\<rparr>)) \<and>
     (\<forall>i j. 1 \<le> i \<and> i < j \<and> j < m \<longrightarrow> chunk (cls i) < chunk (cls j)) \<and> (\<forall>i \<ge> m. cls i = class0) \<and> 1 \<le> m \<and> m \<le> POWER_LARGEST"

lemma init_loop_spec:
  assumes "\<forall>n \<ge> 128. n < scale n" and "filled cls (i + 1)" and "128 \<le> n" and "\<forall>j. 1 \<le> j \<and> j \<le> i \<longrightarrow> chunk (cls j) < n"
  shows "\<exists>m cls'. init_loop scale i n cls = Some (m, cls') \<and> filled cls' m"
  using assms
proof (induction scale i n cls rule: init_loop.induct)
  case (1 scale i n cls)
  show ?case
  proof (cases "i + 1 < POWER_LARGEST \<and> n \<le> POWER_BLOCK div 2")
    case True
    let ?n = "align n" and ?cls = "cls(i + 1 := (cls (i + 1))\<lparr>chunk := align n, perslab := POWER_BLOCK div align n\<rparr>)"
    have n: "128 \<le> ?n" "?n \<le> 524288" "?n mod 8 = 0" "n \<le> ?n"
      using align_props [of n] align_le [of n] True 1(4) by (auto simp: POWER_BLOCK_def)
    have s1: "?n < scale ?n" by (rule "1.prems"(1) [rule_format, OF n(1)])
    have s: "?n < scale ?n" "128 \<le> scale ?n" by (fact s1, rule le_trans [OF n(1) less_imp_le [OF s1]])
    have old: "\<And>j. 1 \<le> j \<Longrightarrow> j \<le> i \<Longrightarrow> chunk (cls j) < ?n" using 1(5) n(4) by (auto intro: less_le_trans)
    have c0: "cls (i + 1) = class0" using 1(3) by (simp add: filled_def)
    have "filled ?cls (i + 1 + 1)"
      unfolding filled_def
    proof (intro conjI allI impI)
      fix j assume "1 \<le> j \<and> j < i + 1 + 1"
      then show "\<exists>n. n mod 8 = 0 \<and> 128 \<le> n \<and> n \<le> 524288 \<and> ?cls j = class0\<lparr>chunk := n, perslab := POWER_BLOCK div n\<rparr>"
        using 1(3) n c0 by (cases "j = i + 1") (simp add: filled_def, metis, simp add: filled_def)
    next
      fix a b assume "1 \<le> a \<and> a < b \<and> b < i + 1 + 1"
      then show "chunk (?cls a) < chunk (?cls b)" using 1(3) old by (cases "b = i + 1") (auto simp: filled_def)
    qed (use 1(3) True in \<open>auto simp: filled_def\<close>)
    moreover have "\<forall>j. 1 \<le> j \<and> j \<le> i + 1 \<longrightarrow> chunk (?cls j) < scale ?n"
      using old s(1) by (auto simp: le_Suc_eq) (metis less_trans)
    moreover have "\<not> ?n = 0" using n(1) by linarith
    ultimately have "\<exists>m cls'. init_loop scale (i + 1) (scale ?n) ?cls = Some (m, cls') \<and> filled cls' m"
      using 1(1) [OF True refl] 1(2) s(2) by blast
    then show ?thesis using True \<open>?n \<noteq> 0\<close> by (simp add: init_loop.simps [of scale i n cls] Let_def)
  next
    case False
    then show ?thesis using 1 by (auto simp: init_loop.simps [of scale i n cls])
  qed
qed

section \<open>The invariant\<close>

text \<open>The documented behaviour of the allocator: a block \<open>malloc\<close> returns does not overlap the memory handed out before (pages are
  never freed); \<open>owned k\<close> is that memory.\<close>

definition allocator_spec :: "'k allocator \<Rightarrow> ('k \<Rightarrow> nat set) \<Rightarrow> bool" where
  "allocator_spec A owned \<longleftrightarrow>
     (\<forall>n k r k'. malloc A n k = (r, k') \<longrightarrow> owned k \<subseteq> owned k' \<and>
        (r \<noteq> 0 \<longrightarrow> {r..<r + n} \<subseteq> owned k' \<and> {r..<r + n} \<inter> owned k = {})) \<and>
     (\<forall>n k. owned k \<subseteq> owned (snd (realloc_ok A n k)))"

definition block :: "nat \<Rightarrow> nat set" where
  "block q = {q..<q + POWER_BLOCK}"

definition page_chunks :: "slabclass \<Rightarrow> nat \<Rightarrow> nat set" where
  "page_chunks p q = (\<lambda>j. q + j * chunk p) ` {..<perslab p}"

definition free_chunks :: "slabclass \<Rightarrow> nat list" where
  "free_chunks p = take (sl_curr p) (slots p)"

definition end_chunks :: "slabclass \<Rightarrow> nat set" where
  "end_chunks p = (if end_page_ptr p = 0 then {} else (\<lambda>j. end_page_ptr p + j * chunk p) ` {..<end_page_free p})"

definition all_chunks :: "slabclass \<Rightarrow> nat set" where
  "all_chunks p = (\<Union>a < slabs p. page_chunks p (slab_list p ! a))"

text \<open>A class: its arrays have their lengths, the chunks of a page fit in it, and the end of the last page has the chunks not used yet.\<close>

definition class_ok :: "slabclass \<Rightarrow> bool" where
  "class_ok p \<longleftrightarrow> 0 < chunk p \<and> 0 < perslab p \<and> chunk p * perslab p \<le> POWER_BLOCK \<and>
     sl_curr p \<le> sl_total p \<and> length (slots p) = sl_total p \<and> slabs p \<le> list_size p \<and> length (slab_list p) = list_size p \<and>
     (end_page_ptr p \<noteq> 0 \<longrightarrow> 0 < slabs p \<and> 0 < end_page_free p \<and> end_page_free p \<le> perslab p \<and>
        end_page_ptr p = slab_list p ! (slabs p - 1) + (perslab p - end_page_free p) * chunk p)"

text \<open>The chunks in use, the freed ones and those at the end of the last page are different chunks of the class's pages.\<close>

definition class_live :: "slabclass \<Rightarrow> nat set \<Rightarrow> bool" where
  "class_live p L \<longleftrightarrow> distinct (free_chunks p) \<and> L \<inter> set (free_chunks p) = {} \<and> L \<inter> end_chunks p = {} \<and>
     set (free_chunks p) \<inter> end_chunks p = {} \<and> L \<union> set (free_chunks p) \<union> end_chunks p \<subseteq> all_chunks p"

definition has_page :: "'k slab_state \<Rightarrow> nat \<Rightarrow> nat \<Rightarrow> bool" where
  "has_page st i a \<longleftrightarrow> 1 \<le> i \<and> i \<le> power_largest st \<and> a < slabs (slabclass st i)"

definition page :: "'k slab_state \<Rightarrow> nat \<Rightarrow> nat \<Rightarrow> nat" where
  "page st i a = slab_list (slabclass st i) ! a"

text \<open>The pages are blocks of memory that do not overlap; the rest of the large chunk is none of them.\<close>

definition pages_ok :: "('k \<Rightarrow> nat set) \<Rightarrow> 'k slab_state \<Rightarrow> bool" where
  "pages_ok owned st \<longleftrightarrow>
     (\<forall>i a. has_page st i a \<longrightarrow> page st i a \<noteq> 0 \<and> block (page st i a) \<subseteq> owned (mem_os st)) \<and>
     (\<forall>i a j b. has_page st i a \<and> has_page st j b \<and> (i, a) \<noteq> (j, b) \<longrightarrow> block (page st i a) \<inter> block (page st j b) = {}) \<and>
     (mem_base st \<noteq> 0 \<longrightarrow> mem_current st \<noteq> 0 \<and> {mem_current st..<mem_current st + unat (mem_avail st)} \<subseteq> owned (mem_os st) \<and>
        (\<forall>i a. has_page st i a \<longrightarrow> block (page st i a) \<inter> {mem_current st..<mem_current st + unat (mem_avail st)} = {}))"

definition slabs_inv :: "('k \<Rightarrow> nat set) \<Rightarrow> 'k slab_state \<Rightarrow> (nat \<Rightarrow> nat set) \<Rightarrow> bool" where
  "slabs_inv owned st live \<longleftrightarrow> classes_ready st \<and> pages_ok owned st \<and>
     (\<forall>i. 1 \<le> i \<and> i \<le> power_largest st \<longrightarrow> class_ok (slabclass st i) \<and> class_live (slabclass st i) (live i)) \<and>
     (\<forall>i. i < 1 \<or> power_largest st < i \<longrightarrow> live i = {})"

text \<open>The memory of the chunk \<open>c\<close> of class \<open>i\<close>.\<close>

definition extent :: "'k slab_state \<Rightarrow> nat \<Rightarrow> nat \<Rightarrow> nat set" where
  "extent st i c = {c..<c + chunk (slabclass st i)}"

lemma inv_pages:
  assumes "slabs_inv owned st live"
  shows "\<forall>i a j b. has_page st i a \<and> has_page st j b \<and> (i, a) \<noteq> (j, b) \<longrightarrow> block (page st i a) \<inter> block (page st j b) = {}"
  using assms unfolding slabs_inv_def pages_ok_def by (elim conjE)

lemma inv_class:
  assumes "slabs_inv owned st live" "1 \<le> i" "i \<le> power_largest st"
  shows "class_ok (slabclass st i)" "class_live (slabclass st i) (live i)"
  using assms unfolding slabs_inv_def by blast+

text \<open>Chunks in use never overlap.\<close>

lemma live_in_page:
  assumes "slabs_inv owned st live" and "c \<in> live i"
  shows "\<exists>a x. has_page st i a \<and> c = page st i a + x * chunk (slabclass st i) \<and> x < perslab (slabclass st i) \<and> extent st i c \<subseteq> block (page st i a)"
proof -
  let ?p = "slabclass st i"
  have i: "1 \<le> i" "i \<le> power_largest st"
    using conjunct2 [OF conjunct2 [OF conjunct2 [OF assms(1) [unfolded slabs_inv_def]]], rule_format, of i] assms(2) by fastforce+
  then have p: "class_ok ?p" "c \<in> all_chunks ?p" using assms by (auto simp: slabs_inv_def class_live_def)
  then obtain a x where a: "a < slabs ?p" "x < perslab ?p" "c = slab_list ?p ! a + x * chunk ?p" by (auto simp: all_chunks_def page_chunks_def)
  have "(x + 1) * chunk ?p \<le> perslab ?p * chunk ?p" using a(2) by (intro mult_le_mono1) simp
  also have "\<dots> \<le> POWER_BLOCK" using p(1) by (simp add: class_ok_def mult.commute)
  finally have "x * chunk ?p + chunk ?p \<le> POWER_BLOCK" by simp
  then have "extent st i c \<subseteq> block (page st i a)" using a(3) by (auto simp: extent_def block_def page_def)
  then show ?thesis using a i by (auto simp: has_page_def page_def)
qed

lemma multiples_apart:
  assumes "(x :: nat) \<noteq> y" shows "{q + x * n..<q + x * n + n} \<inter> {q + y * n..<q + y * n + n} = {}"
proof -
  have "x * n + n \<le> y * n \<or> y * n + n \<le> x * n"
  proof (cases "x < y")
    case True
    then have "(x + 1) * n \<le> y * n" by (intro mult_le_mono1) simp
    then show ?thesis by simp
  next
    case False
    then have "(y + 1) * n \<le> x * n" using assms by (intro mult_le_mono1) simp
    then show ?thesis by simp
  qed
  then show ?thesis by auto
qed

lemma live_apart:
  assumes inv: "slabs_inv owned st live" and c: "c \<in> live i" "d \<in> live j" "(i, c) \<noteq> (j, d)"
  shows "extent st i c \<inter> extent st j d = {}"
proof -
  from live_in_page [OF inv c(1)] obtain a x where a: "has_page st i a" "c = page st i a + x * chunk (slabclass st i)" "extent st i c \<subseteq> block (page st i a)" by blast
  from live_in_page [OF inv c(2)] obtain b y where b: "has_page st j b" "d = page st j b + y * chunk (slabclass st j)" "extent st j d \<subseteq> block (page st j b)" by blast
  show ?thesis
  proof (cases "(i, a) = (j, b)")
    case True
    then have e: "j = i" "b = a" by simp_all
    have "c = d" if "x = y" unfolding a(2) b(2) e that by (rule refl)
    then have "x \<noteq> y" using c(3) e(1) by blast
    from multiples_apart [OF this, of "page st i a" "chunk (slabclass st i)"] show ?thesis
      unfolding extent_def e a(2) using b(2) [unfolded e] by (simp only:)
  next
    case False
    then have "block (page st i a) \<inter> block (page st j b) = {}" using a(1) b(1) inv_pages [OF inv] by blast
    then show ?thesis using a(3) b(3) by blast
  qed
qed

section \<open>Preservation\<close>

lemma pages_frame:
  assumes "pages_ok owned st" and "\<And>i a. has_page st' i a \<longleftrightarrow> has_page st i a" "\<And>i a. has_page st i a \<Longrightarrow> page st' i a = page st i a"
    and "mem_base st' = mem_base st" "mem_current st' = mem_current st" "mem_avail st' = mem_avail st" "owned (mem_os st) \<subseteq> owned (mem_os st')"
  shows "pages_ok owned st'"
  unfolding pages_ok_def assms(2,4-6)
proof (intro conjI allI impI)
  fix i a j b
  note p = assms(1) [unfolded pages_ok_def]
  assume h: "has_page st i a \<and> has_page st j b \<and> (i, a) \<noteq> (j, b)"
  then show "block (page st' i a) \<inter> block (page st' j b) = {}" using p assms(3) by simp
qed (use assms(1,3) subset_trans [OF _ assms(7)] in \<open>simp_all add: pages_ok_def\<close>)

text \<open>A change of one class that keeps its pages.\<close>

lemma inv_upd:
  assumes inv: "slabs_inv owned st live" and c: "1 \<le> cid" "cid \<le> power_largest st"
    and f: "chunk (f (slabclass st cid)) = chunk (slabclass st cid)" "slabs (f (slabclass st cid)) = slabs (slabclass st cid)"
      "\<And>a. a < slabs (slabclass st cid) \<Longrightarrow> slab_list (f (slabclass st cid)) ! a = slab_list (slabclass st cid) ! a"
    and ok: "class_ok (f (slabclass st cid))" "class_live (f (slabclass st cid)) L" and k: "owned (mem_os st) \<subseteq> owned k"
  shows "slabs_inv owned (upd cid f (st\<lparr>mem_os := k\<rparr>)) (live(cid := L))"
proof -
  have "pages_ok owned (upd cid f (st\<lparr>mem_os := k\<rparr>))"
    by (rule pages_frame [where st = st]) (use inv f k in \<open>auto simp: slabs_inv_def has_page_def page_def\<close>)
  moreover have "classes_ready (upd cid f (st\<lparr>mem_os := k\<rparr>))"
    using inv f(1) by (auto simp: slabs_inv_def classes_ready_def)
  ultimately show ?thesis using inv c ok by (auto simp: slabs_inv_def)
qed

lemma upd_id: "upd cid (\<lambda>p. p) st = st"
  by (simp add: upd_def)

lemma inv_mem_os:
  assumes "slabs_inv owned st live" and "owned (mem_os st) \<subseteq> owned k"
  shows "slabs_inv owned (st\<lparr>mem_os := k\<rparr>) live"
proof -
  have "1 \<le> power_largest st" using assms(1) by (simp add: slabs_inv_def classes_ready_def)
  from inv_upd [OF assms(1) this order_refl, of "\<lambda>p. p" "live (power_largest st)", OF refl refl refl _ _ assms(2)]
  show ?thesis using inv_class [OF assms(1)] \<open>1 \<le> power_largest st\<close> by (simp add: upd_id)
qed

lemma all_chunks_cong:
  assumes "chunk p' = chunk p" "perslab p' = perslab p" "slabs p' = slabs p" "\<And>a. a < slabs p \<Longrightarrow> slab_list p' ! a = slab_list p ! a"
  shows "all_chunks p' = all_chunks p"
  using assms by (simp add: all_chunks_def page_chunks_def)

lemma class_live_cong:
  assumes "class_live p L" "free_chunks p' = free_chunks p" "end_chunks p' = end_chunks p" "all_chunks p' = all_chunks p"
  shows "class_live p' L"
  using assms by (simp add: class_live_def)

lemma grow_ok:
  assumes inv: "slabs_inv owned st live" and A: "allocator_spec A owned" and c: "1 \<le> cid" "cid \<le> power_largest st"
    and g: "grow_slab_list A cid st = (ok, st')"
  shows "slabs_inv owned st' live \<and> (ok \<longrightarrow> slabs (slabclass st' cid) < list_size (slabclass st' cid)) \<and>
    power_largest st' = power_largest st \<and> mem_base st' = mem_base st \<and>
    (\<forall>i. chunk (slabclass st' i) = chunk (slabclass st i) \<and> end_page_ptr (slabclass st' i) = end_page_ptr (slabclass st i) \<and>
       sl_curr (slabclass st' i) = sl_curr (slabclass st i) \<and> perslab (slabclass st' i) = perslab (slabclass st i) \<and>
       slabs (slabclass st' i) = slabs (slabclass st i))"
proof (cases "slabs (slabclass st cid) = list_size (slabclass st cid)")
  case False
  then show ?thesis using inv_class [OF inv c] inv g by (auto simp: grow_slab_list_def Let_def class_ok_def)
next
  case True
  let ?p = "slabclass st cid" and ?n = "if list_size (slabclass st cid) \<noteq> 0 then list_size (slabclass st cid) * 2 else 16"
  let ?f = "\<lambda>p. p\<lparr>list_size := ?n, slab_list := slab_list p @ replicate (?n - list_size p) 0\<rparr>"
  obtain r k where r: "realloc_ok A (?n * 8) (mem_os st) = (r, k)" by fastforce
  have k: "owned (mem_os st) \<subseteq> owned k" using A r unfolding allocator_spec_def by (metis snd_conv)
  note p = inv_class [OF inv c]
  have nth: "slab_list (?f ?p) ! a = slab_list ?p ! a" if "a < slabs ?p" for a
    using p(1) that by (simp add: class_ok_def nth_append)
  have "class_ok (?f ?p)" using p(1) by (auto simp: class_ok_def nth_append)
  moreover have "class_live (?f ?p) (live cid)"
    using p(2) all_chunks_cong [of "?f ?p" ?p] nth by (intro class_live_cong [OF p(2)]) (simp_all add: free_chunks_def end_chunks_def)
  ultimately have "slabs_inv owned (upd cid ?f (st\<lparr>mem_os := k\<rparr>)) (live(cid := live cid))"
    using nth by (intro inv_upd [OF inv c _ _ _ _ _ k]) simp_all
  moreover have "slabs_inv owned (st\<lparr>mem_os := k\<rparr>) live" by (rule inv_mem_os [OF inv k])
  ultimately show ?thesis using g True r by (auto simp: grow_slab_list_def Let_def split: if_splits)
qed

lemma page_chunks_block: "class_ok p \<Longrightarrow> page_chunks p q \<subseteq> block q"
proof
  fix c assume p: "class_ok p" and "c \<in> page_chunks p q"
  then obtain j where j: "j < perslab p" "c = q + j * chunk p" by (auto simp: page_chunks_def)
  have "j * chunk p < perslab p * chunk p" using j(1) p by (simp add: class_ok_def)
  also have "\<dots> \<le> POWER_BLOCK" using p by (simp add: class_ok_def mult.commute)
  finally show "c \<in> block q" using j(2) by (simp add: block_def)
qed

definition clear_of :: "('k \<Rightarrow> nat set) \<Rightarrow> 'k slab_state \<Rightarrow> nat \<Rightarrow> bool" where
  "clear_of owned st ptr \<longleftrightarrow> block ptr \<subseteq> owned (mem_os st) \<and> (\<forall>i a. has_page st i a \<longrightarrow> block (page st i a) \<inter> block ptr = {}) \<and>
     (mem_base st \<noteq> 0 \<longrightarrow> block ptr \<inter> {mem_current st..<mem_current st + unat (mem_avail st)} = {})"

lemma unat_block: "unat (of_nat POWER_BLOCK :: u64) = POWER_BLOCK"
  by (simp add: POWER_BLOCK_def)

lemma memory_ok:
  assumes inv: "slabs_inv owned st live" and A: "allocator_spec A owned" and m: "memory_allocate A (of_nat POWER_BLOCK) st = (ptr, st')"
  shows "slabs_inv owned st' live \<and> slabclass st' = slabclass st \<and> power_largest st' = power_largest st \<and> (ptr \<noteq> 0 \<longrightarrow> clear_of owned st' ptr)"
proof (cases "mem_base st = 0")
  case True
  obtain r k where r: "malloc A POWER_BLOCK (mem_os st) = (r, k)" by fastforce
  then have st': "ptr = r" "st' = st\<lparr>mem_os := k\<rparr>" using m True by (auto simp: memory_allocate_def unat_block split: prod.splits)
  have k: "owned (mem_os st) \<subseteq> owned k" "r \<noteq> 0 \<Longrightarrow> block r \<subseteq> owned k \<and> block r \<inter> owned (mem_os st) = {}"
    using A r unfolding allocator_spec_def block_def by blast+
  have "\<forall>i a. has_page st i a \<longrightarrow> block (page st i a) \<subseteq> owned (mem_os st)" using inv by (simp add: slabs_inv_def pages_ok_def)
  then have "r \<noteq> 0 \<Longrightarrow> \<forall>i a. has_page st i a \<longrightarrow> block (page st i a) \<inter> block r = {}" using k(2) by blast
  then have "r \<noteq> 0 \<longrightarrow> clear_of owned st' r"
    using k(2) True by (simp add: clear_of_def st'(2) has_page_def page_def)
  then show ?thesis using inv_mem_os [OF inv k(1)] st' by simp
next
  case False
  let ?B = "of_nat POWER_BLOCK :: u64" and ?av = "mem_avail st"
  have n: "(if ?B mod 8 \<noteq> 0 then ?B + (8 - ?B mod 8) else ?B) = ?B" by (simp add: POWER_BLOCK_def)
  note m1 = m [unfolded memory_allocate_def Let_def n unat_block, simplified False if_False]
  show ?thesis
  proof (cases "?B > ?av")
    case True
    then show ?thesis using m1 inv by simp
  next
    case nf: False
    let ?av1 = "if ?B < ?av then ?av - ?B else 0"
    have st': "ptr = mem_current st" "st' = st\<lparr>mem_current := mem_current st + POWER_BLOCK, mem_avail := ?av1\<rparr>" using m1 nf by auto
    have av: "POWER_BLOCK \<le> unat ?av" "unat ?av1 = unat ?av - POWER_BLOCK"
      using nf unat_block by (auto simp: word_le_nat_alt word_less_nat_alt unat_sub not_less)
    note p = inv [unfolded slabs_inv_def pages_ok_def]
    have new: "{mem_current st + POWER_BLOCK..<mem_current st + POWER_BLOCK + unat ?av1} \<subseteq> {mem_current st..<mem_current st + unat ?av}"
      "block ptr \<subseteq> {mem_current st..<mem_current st + unat ?av}"
      using av by (auto simp: block_def st'(1))
    have fields: "has_page st' = has_page st" "page st' = page st" "mem_os st' = mem_os st" "mem_base st' = mem_base st"
      by (simp_all add: st'(2) has_page_def page_def fun_eq_iff)
    have ma: "mem_current st' = mem_current st + POWER_BLOCK" "mem_avail st' = ?av1" by (simp_all add: st'(2))
    have arena: "{mem_current st..<mem_current st + unat ?av} \<subseteq> owned (mem_os st)"
      "\<forall>i a. has_page st i a \<longrightarrow> block (page st i a) \<inter> {mem_current st..<mem_current st + unat ?av} = {}" using p False by blast+
    have "pages_ok owned st'"
      unfolding pages_ok_def fields
    proof (intro conjI allI impI)
      fix i a assume h: "has_page st i a"
      show "block (page st i a) \<inter> {mem_current st'..<mem_current st' + unat (mem_avail st')} = {}"
      proof -
        have "{mem_current st'..<mem_current st' + unat (mem_avail st')} \<subseteq> {mem_current st..<mem_current st + unat ?av}"
          using new(1) unfolding ma .
        then show ?thesis using arena(2) h by blast
      qed
    qed (use p arena(1) new(1) in \<open>auto simp: st'(2)\<close>)
    moreover have "clear_of owned st' ptr"
      unfolding clear_of_def fields
      using arena new(2) by (auto simp: st' block_def)
    ultimately show ?thesis using p by (simp add: slabs_inv_def classes_ready_def st'(2))
  qed
qed

lemma newslab_ok:
  assumes inv: "slabs_inv owned st live" and A: "allocator_spec A owned" and c: "1 \<le> cid" "cid \<le> power_largest st"
  shows "\<exists>ok st'. do_slabs_newslab A cid st = Some (ok, st') \<and> slabs_inv owned st' live \<and> power_largest st' = power_largest st \<and>
    (ok \<longrightarrow> end_page_ptr (slabclass st' cid) \<noteq> 0) \<and> (\<forall>i. chunk (slabclass st' i) = chunk (slabclass st i))"
proof (cases "mem_limit st \<noteq> 0 \<and> mem_malloced st + of_nat POWER_BLOCK > mem_limit st \<and> slabs (slabclass st cid) > 0")
  case True
  then have "do_slabs_newslab A cid st = Some (False, st)" by (simp add: do_slabs_newslab_def)
  then show ?thesis using inv by blast
next
  case nl: False
  obtain g s1 where g: "grow_slab_list A cid st = (g, s1)" by fastforce
  note s1 = grow_ok [OF inv A c g]
  show ?thesis
  proof (cases g)
    case False
    then show ?thesis using nl g s1 by (auto simp: do_slabs_newslab_def)
  next
    case True
    obtain ptr s2 where m: "memory_allocate A (of_nat POWER_BLOCK) s1 = (ptr, s2)" by fastforce
    from memory_ok [OF _ A m] s1 have s2: "slabs_inv owned s2 live" "slabclass s2 = slabclass s1" "power_largest s2 = power_largest s1"
      "ptr \<noteq> 0 \<Longrightarrow> clear_of owned s2 ptr" by blast+
    let ?p = "slabclass s2 cid" let ?n = "slabs ?p"
    let ?f = "\<lambda>p. p\<lparr>end_page_ptr := ptr, end_page_free := perslab p, slab_list := (slab_list p)[?n := ptr], slabs := ?n + 1\<rparr>"
    let ?s3 = "upd cid ?f (s2\<lparr>mem_malloced := mem_malloced s2 + of_nat POWER_BLOCK\<rparr>)"
    have p: "class_ok ?p" "class_live ?p (live cid)" using inv_class [OF s2(1) c(1)] c s1 s2(3) by auto
    have n: "?n < length (slab_list ?p)" using p(1) s1 True unfolding s2(2) class_ok_def by metis
    show ?thesis
    proof (cases "ptr = 0")
      case True
      then show ?thesis using nl g \<open>g\<close> m s1 s2 by (auto simp: do_slabs_newslab_def)
    next
      case False
      then have clear: "clear_of owned s2 ptr" by (rule s2(4))
      have eq: "do_slabs_newslab A cid st = Some (True, ?s3)" using nl g \<open>g\<close> m False n by (simp add: do_slabs_newslab_def Let_def)
      have hp: "has_page ?s3 i a \<longleftrightarrow> has_page s2 i a \<or> i = cid \<and> a = ?n" for i a using c s1 s2(3) by (auto simp: has_page_def)
      have pg: "page ?s3 i a = (if i = cid \<and> a = ?n then ptr else page s2 i a)" for i a using n by (auto simp: page_def)
      note p2 = s2(1) [unfolded slabs_inv_def pages_ok_def]
      have clr: "block (page s2 i a) \<inter> block ptr = {}" if "has_page s2 i a" for i a using clear that unfolding clear_of_def by blast
      have nn: "\<not> has_page s2 cid ?n" by (simp add: has_page_def)
      have "pages_ok owned ?s3"
        unfolding pages_ok_def hp pg
      proof (intro conjI allI impI)
        fix i a j b
        assume h: "(has_page s2 i a \<or> i = cid \<and> a = ?n) \<and> (has_page s2 j b \<or> j = cid \<and> b = ?n) \<and> (i, a) \<noteq> (j, b)"
        have old: "block (page s2 i a) \<inter> block (page s2 j b) = {}" if "has_page s2 i a" "has_page s2 j b"
          using that h inv_pages [OF s2(1)] by blast
        show "block (if i = cid \<and> a = ?n then ptr else page s2 i a) \<inter> block (if j = cid \<and> b = ?n then ptr else page s2 j b) = {}"
        proof (cases "i = cid \<and> a = ?n")
          case True
          then have "\<not> (j = cid \<and> b = ?n)" "has_page s2 j b" using h by auto
          then show ?thesis using True clr [of j b] by (auto simp: Int_commute)
        next
          case False
          then show ?thesis using h old clr [of i a] by auto
        qed
      next
        fix i a assume h: "has_page s2 i a \<or> i = cid \<and> a = ?n" and b: "mem_base ?s3 \<noteq> 0"
        let ?ar = "{mem_current s2..<mem_current s2 + unat (mem_avail s2)}"
        have "block (page s2 i a) \<inter> ?ar = {}" if "has_page s2 i a" using p2 b that by simp
        moreover have "block ptr \<inter> ?ar = {}" using clear b by (simp add: clear_of_def)
        ultimately show "block (if i = cid \<and> a = ?n then ptr else page s2 i a) \<inter> {mem_current ?s3..<mem_current ?s3 + unat (mem_avail ?s3)} = {}"
          using h by (cases "i = cid \<and> a = ?n") simp_all
      qed (use p2 clear False in \<open>auto simp: clear_of_def\<close>)
      moreover have "class_ok (?f ?p)" using p(1) n by (auto simp: class_ok_def)
      moreover have "class_live (?f ?p) (live cid)"
      proof -
        have np: "(slab_list ?p)[?n := ptr] ! a = slab_list ?p ! a" if "a < ?n" for a using that by simp
        have all: "all_chunks (?f ?p) = all_chunks ?p \<union> page_chunks ?p ptr"
          using n by (auto simp: all_chunks_def page_chunks_def lessThan_Suc)
        have e: "end_chunks (?f ?p) = page_chunks ?p ptr" using False by (simp add: end_chunks_def page_chunks_def)
        have "page_chunks ?p (slab_list ?p ! a) \<inter> page_chunks ?p ptr = {}" if "a < ?n" for a
        proof -
          have "has_page s2 cid a" using that c s1 s2(3) by (simp add: has_page_def)
          from clr [OF this] page_chunks_block [OF p(1), of ptr] page_chunks_block [OF p(1), of "slab_list ?p ! a"]
          show ?thesis unfolding page_def by blast
        qed
        then have "all_chunks ?p \<inter> page_chunks ?p ptr = {}" by (auto simp: all_chunks_def)
        moreover have "free_chunks (?f ?p) = free_chunks ?p" by (simp add: free_chunks_def)
        ultimately show ?thesis using p(2) unfolding class_live_def all e by auto
      qed
      ultimately have "slabs_inv owned ?s3 live"
        using p2 by (auto simp: slabs_inv_def classes_ready_def)
      then show ?thesis using eq False s1 s2 by auto
    qed
  qed
qed

abbreviation take_end :: "slabclass \<Rightarrow> slabclass" where
  "take_end p \<equiv> p\<lparr>end_page_free := end_page_free p - 1, end_page_ptr := if end_page_free p - 1 \<noteq> 0 then end_page_ptr p + chunk p else 0\<rparr>"

lemma end_chunk_step:
  assumes p: "class_ok p" "end_page_ptr p \<noteq> 0"
  shows "end_chunks p = insert (end_page_ptr p) (end_chunks (take_end p))"
    and "end_page_ptr p \<notin> end_chunks (take_end p)"
    and "class_ok (take_end p)"
proof -
  obtain n where n: "end_page_free p = Suc n" using p by (cases "end_page_free p") (auto simp: class_ok_def)
  have E: "end_chunks (take_end p) = (\<lambda>j. end_page_ptr p + chunk p + j * chunk p) ` {..<n}" using p n by (auto simp: end_chunks_def)
  have "end_chunks p = (\<lambda>j. end_page_ptr p + j * chunk p) ` insert 0 (Suc ` {..<n})"
    using p(2) by (simp add: end_chunks_def n lessThan_Suc_eq_insert_0)
  then show "end_chunks p = insert (end_page_ptr p) (end_chunks (take_end p))" unfolding E by (simp add: image_image add.assoc)
  show "end_page_ptr p \<notin> end_chunks (take_end p)" unfolding E using p(1) by (auto simp: class_ok_def)
  have "perslab p - n = Suc (perslab p - Suc n)" using p n by (auto simp: class_ok_def)
  then show "class_ok (take_end p)"
    using p n by (simp add: class_ok_def)
qed

lemma chunk_nonzero:
  assumes "slabs_inv owned st live" "1 \<le> i" "i \<le> power_largest st" "c \<in> all_chunks (slabclass st i)"
  shows "c \<noteq> 0"
proof -
  obtain a j where "a < slabs (slabclass st i)" "c = slab_list (slabclass st i) ! a + j * chunk (slabclass st i)"
    using assms(4) by (auto simp: all_chunks_def page_chunks_def)
  moreover then have "has_page st i a" using assms(2,3) by (simp add: has_page_def)
  then have "page st i a \<noteq> 0"
    using conjunct1 [OF conjunct1 [OF conjunct2 [OF assms(1) [unfolded slabs_inv_def pages_ok_def]]], rule_format, of i a] by simp
  ultimately show ?thesis by (simp add: page_def)
qed

lemma alloc_ok:
  assumes inv: "slabs_inv owned st live" and A: "allocator_spec A owned"
  shows "\<exists>r st'. do_slabs_alloc A cid st = Some (r, st') \<and> (\<forall>i. chunk (slabclass st' i) = chunk (slabclass st i)) \<and>
    power_largest st' = power_largest st \<and>
    (if r = 0 then slabs_inv owned st' live
     else 1 \<le> cid \<and> cid \<le> power_largest st \<and> r \<notin> live cid \<and> slabs_inv owned st' (live(cid := insert r (live cid))))"
proof (cases "cid < POWER_SMALLEST \<or> cid > power_largest st")
  case True
  then have "do_slabs_alloc A cid st = Some (0, st)" by (simp add: do_slabs_alloc_def)
  then show ?thesis using inv by auto
next
  case False
  then have c: "1 \<le> cid" "cid \<le> power_largest st" by (auto simp: POWER_SMALLEST_def)
  let ?pre = "if end_page_ptr (slabclass st cid) \<noteq> 0 \<or> sl_curr (slabclass st cid) \<noteq> 0 then Some (True, st) else do_slabs_newslab A cid st"
  have "\<exists>ok s1. ?pre = Some (ok, s1) \<and> slabs_inv owned s1 live \<and> power_largest s1 = power_largest st \<and>
    (ok \<longrightarrow> end_page_ptr (slabclass s1 cid) \<noteq> 0 \<or> sl_curr (slabclass s1 cid) \<noteq> 0) \<and> (\<forall>i. chunk (slabclass s1 i) = chunk (slabclass st i))"
    using newslab_ok [OF inv A c] inv by auto
  then obtain ok s1 where s1: "?pre = Some (ok, s1)" "slabs_inv owned s1 live" "power_largest s1 = power_largest st"
    "ok \<Longrightarrow> end_page_ptr (slabclass s1 cid) \<noteq> 0 \<or> sl_curr (slabclass s1 cid) \<noteq> 0" "\<forall>i. chunk (slabclass s1 i) = chunk (slabclass st i)" by blast
  let ?p = "slabclass s1 cid"
  have c1: "cid \<le> power_largest s1" using c s1(3) by simp
  have p: "class_ok ?p" "class_live ?p (live cid)" using inv_class [OF s1(2) c(1) c1] by auto
  have eq: "do_slabs_alloc A cid st = (if \<not> ok then Some (0, s1)
        else if sl_curr ?p \<noteq> 0 then
          if sl_curr ?p - 1 < length (slots ?p)
          then Some (slots ?p ! (sl_curr ?p - 1), upd cid (\<lambda>p. p\<lparr>sl_curr := sl_curr p - 1\<rparr>) s1)
          else None
        else if end_page_ptr ?p = 0 then None
        else Some (end_page_ptr ?p, upd cid take_end s1))"
    unfolding do_slabs_alloc_def using False s1(1) by (simp add: Let_def)
  show ?thesis
  proof (cases ok)
    case False
    then show ?thesis using eq s1 by auto
  next
    case ok: True
    show ?thesis
    proof (cases "sl_curr ?p = 0")
      case False
      let ?f = "\<lambda>p. p\<lparr>sl_curr := sl_curr p - 1\<rparr>" and ?r = "slots ?p ! (sl_curr ?p - 1)"
      have len: "sl_curr ?p - 1 < length (slots ?p)" using p(1) False by (auto simp: class_ok_def)
      have fc: "free_chunks ?p = free_chunks (?f ?p) @ [?r]"
        using len False by (simp add: free_chunks_def take_Suc_conv_app_nth [symmetric])
      have same: "end_chunks (?f ?p) = end_chunks ?p" "all_chunks (?f ?p) = all_chunks ?p"
        by (simp_all add: end_chunks_def all_chunks_def page_chunks_def)
      have live: "class_live (?f ?p) (insert ?r (live cid))" and new: "?r \<notin> live cid" "?r \<in> all_chunks ?p"
        using p(2) unfolding class_live_def same fc by auto
      have "class_ok (?f ?p)" using p(1) by (auto simp: class_ok_def)
      from inv_upd [OF s1(2) c(1) c1, of ?f, OF _ _ _ this live order_refl]
      have "slabs_inv owned (upd cid ?f s1) (live(cid := insert ?r (live cid)))" by simp
      moreover have "?r \<noteq> 0" by (rule chunk_nonzero [OF s1(2) c(1) c1 new(2)])
      ultimately show ?thesis using eq ok False len s1 c new(1) by auto
    next
      case sl: True
      then have e: "end_page_ptr ?p \<noteq> 0" using s1(4) ok by simp
      let ?f = take_end
      note st = end_chunk_step [OF p(1) e]
      have same: "free_chunks (?f ?p) = free_chunks ?p" "all_chunks (?f ?p) = all_chunks ?p"
        by (simp_all add: free_chunks_def all_chunks_def page_chunks_def)
      have live: "class_live (?f ?p) (insert (end_page_ptr ?p) (live cid))" and new: "end_page_ptr ?p \<notin> live cid"
        using p(2) st(2) unfolding class_live_def same st(1) by auto
      from inv_upd [OF s1(2) c(1) c1, of ?f, OF _ _ _ st(3) live order_refl]
      have "slabs_inv owned (upd cid ?f s1) (live(cid := insert (end_page_ptr ?p) (live cid)))" by simp
      then show ?thesis using eq ok sl e s1 c new by auto
    qed
  qed
qed

lemma free_ok:
  assumes inv: "slabs_inv owned st live" and A: "allocator_spec A owned" and ptr: "ptr \<in> live cid"
  shows "\<exists>st'. do_slabs_free A ptr cid st = Some st' \<and> slabs_inv owned st' (live(cid := live cid - {ptr})) \<and>
    (\<forall>i. chunk (slabclass st' i) = chunk (slabclass st i)) \<and> power_largest st' = power_largest st"
proof -
  from live_in_page [OF inv ptr] have c: "1 \<le> cid" "cid \<le> power_largest st" by (auto simp: has_page_def)
  let ?p = "slabclass st cid" and ?n = "if sl_total (slabclass st cid) \<noteq> 0 then sl_total (slabclass st cid) * 2 else 16"
  note p = inv_class [OF inv c]
  obtain r k where r: "realloc_ok A (?n * 8) (mem_os st) = (r, k)" by fastforce
  have k: "owned (mem_os st) \<subseteq> owned k" using A r unfolding allocator_spec_def by (metis snd_conv)
  let ?grow = "\<lambda>p. p\<lparr>slots := slots p @ replicate (?n - sl_total p) 0, sl_total := ?n\<rparr>"
  let ?push = "\<lambda>p. p\<lparr>slots := (slots p)[sl_curr p := ptr], sl_curr := sl_curr p + 1\<rparr>"
  have pushed: "slabs_inv owned (upd cid ?push s) (live(cid := live cid - {ptr}))"
    if s: "slabs_inv owned s live" "power_largest s = power_largest st" "sl_curr (slabclass s cid) = sl_curr ?p"
      "sl_curr ?p < length (slots (slabclass s cid))" for s
  proof -
    let ?q = "slabclass s cid"
    have c': "cid \<le> power_largest s" using c s(2) by simp
    note q = inv_class [OF s(1) c(1) c']
    have fc: "free_chunks (?push ?q) = free_chunks ?q @ [ptr]"
      using s(3,4) by (simp add: free_chunks_def take_Suc_conv_app_nth)
    have same: "end_chunks (?push ?q) = end_chunks ?q" "all_chunks (?push ?q) = all_chunks ?q"
      by (simp_all add: end_chunks_def all_chunks_def page_chunks_def)
    have "class_live (?push ?q) (live cid - {ptr})" using q(2) ptr unfolding class_live_def same fc by auto
    moreover have "class_ok (?push ?q)" using q(1) s(3,4) by (auto simp: class_ok_def)
    ultimately show ?thesis using inv_upd [OF s(1) c(1) c', of ?push "live cid - {ptr}", OF _ _ _ _ _ order_refl] by simp
  qed
  have dropped: "slabs_inv owned s (live(cid := live cid - {ptr}))" if "slabs_inv owned s live" "power_largest s = power_largest st" for s
  proof -
    have c': "cid \<le> power_largest s" using c that(2) by simp
    note q = inv_class [OF that(1) c(1) c']
    have "class_live (slabclass s cid) (live cid - {ptr})" using q(2) by (auto simp: class_live_def)
    from inv_upd [OF that(1) c(1) c', of "\<lambda>p. p", OF refl refl refl q(1) this order_refl] show ?thesis by (simp add: upd_id)
  qed
  show ?thesis
  proof (cases "sl_curr ?p = sl_total ?p")
    case False
    then have "sl_curr ?p < length (slots ?p)" using p(1) by (simp add: class_ok_def)
    then show ?thesis using pushed [OF inv] False c by (auto simp: do_slabs_free_def Let_def POWER_SMALLEST_def)
  next
    case full: True
    show ?thesis
    proof (cases r)
      case False
      then show ?thesis using full r c dropped [OF inv_mem_os [OF inv k]] by (auto simp: do_slabs_free_def Let_def POWER_SMALLEST_def)
    next
      case True
      have "free_chunks (?grow ?p) = free_chunks ?p" using p(1) by (simp add: free_chunks_def class_ok_def)
      then have "class_live (?grow ?p) (live cid)"
        by (intro class_live_cong [OF p(2)]) (simp_all add: end_chunks_def all_chunks_def page_chunks_def)
      moreover have "class_ok (?grow ?p)" using p(1) by (auto simp: class_ok_def)
      ultimately have "slabs_inv owned (upd cid ?grow (st\<lparr>mem_os := k\<rparr>)) (live(cid := live cid))"
        by (intro inv_upd [OF inv c _ _ _ _ _ k]) simp_all
      from pushed [of "upd cid ?grow (st\<lparr>mem_os := k\<rparr>)"] this True full r c p(1) show ?thesis
        by (auto simp: do_slabs_free_def Let_def POWER_SMALLEST_def class_ok_def)
    qed
  qed
qed

section \<open>Properties\<close>

lemma filled_class_ok:
  fixes cls m
  defines "C \<equiv> cls(m := (cls m)\<lparr>chunk := POWER_BLOCK, perslab := 1\<rparr>)"
  assumes "filled cls m" "1 \<le> i" "i \<le> m"
  shows "class_ok (C i)" and "class_live (C i) {}" and "slabs (C i) = 0"
proof -
  let ?c = "C i"
  note assms = assms(2-4) and C_def = assms(1)
  obtain n k where c: "?c = class0\<lparr>chunk := n, perslab := k\<rparr>" "0 < n" "n \<le> POWER_BLOCK" "k = POWER_BLOCK div n"
  proof (cases "i = m")
    case True
    then have "?c = class0\<lparr>chunk := POWER_BLOCK, perslab := 1\<rparr>" using assms(1) by (simp add: C_def filled_def)
    then show ?thesis using that [where n = POWER_BLOCK and k = 1] by (simp add: POWER_BLOCK_def)
  next
    case False
    then have "i < m" using assms(3) by simp
    then obtain n where "128 \<le> n" "n \<le> 524288" "cls i = class0\<lparr>chunk := n, perslab := POWER_BLOCK div n\<rparr>"
      using assms(1,2) unfolding filled_def by blast
    then show ?thesis using that [where n = n and k = "POWER_BLOCK div n"] False by (simp add: C_def POWER_BLOCK_def)
  qed
  have "0 < k" "n * k \<le> POWER_BLOCK" using c(2-4) by (simp_all add: div_greater_zero_iff)
  then show "class_ok ?c" "class_live ?c {}" "slabs ?c = 0"
    using c(2) unfolding c(1) by (simp_all add: class_ok_def class_live_def free_chunks_def end_chunks_def class0_def)
qed

lemma filled0: "filled (\<lambda>_. class0) 1"
  by (simp add: filled_def POWER_LARGEST_def)

lemma init_ok:
  assumes A: "allocator_spec A owned" and sc: "\<forall>n \<ge> 128. n < scale n" and b: "mem_base st = 0"
  shows "\<exists>st'. slabs_init A limit two scale prealloc initial st = Some st' \<and> slabs_inv owned st' (\<lambda>_. {})"
proof -
  obtain m cls where l: "init_loop scale 0 128 (\<lambda>_. class0) = Some (m, cls)" "filled cls m"
    using init_loop_spec [OF sc, of "\<lambda>_. class0" 0 128] filled0 by auto
  let ?cls = "cls(m := (cls m)\<lparr>chunk := POWER_BLOCK, perslab := 1\<rparr>)"
  let ?s1 = "st\<lparr>mem_limit := limit\<rparr>"
  let ?s2 = "if prealloc
                then let (b, k) = malloc A (unat limit) (mem_os ?s1); s = ?s1\<lparr>mem_base := b, mem_os := k\<rparr>
                     in if b \<noteq> 0 then s\<lparr>mem_current := b, mem_avail := limit\<rparr> else s
                else ?s1"
  let ?st' = "?s2\<lparr>slabclass := ?cls, power_largest := m,
     mem_malloced := (case initial of None \<Rightarrow> mem_malloced ?s2 | Some n \<Rightarrow> word_of_int n)\<rparr>"
  have eq: "slabs_init A limit two scale prealloc initial st = Some ?st'"
    using l(1) by (simp add: slabs_init_def POWER_SMALLEST_def Let_def split: prod.splits)
  note c = filled_class_ok [OF l(2)]
  have "m \<ge> 1" "m \<le> POWER_LARGEST" using l(2) by (simp_all add: filled_def)
  have "chunk (?cls i) < chunk (?cls j)" if ij: "1 \<le> i" "i < j" "j \<le> m" for i j
  proof (cases "j = m")
    case True
    then obtain n where "n \<le> 524288" "cls i = class0\<lparr>chunk := n, perslab := POWER_BLOCK div n\<rparr>"
      using l(2) ij unfolding filled_def by blast
    then show ?thesis using True ij by (simp add: POWER_BLOCK_def)
  next
    case False
    then have "j < m" using ij(3) by simp
    then show ?thesis using l(2) ij unfolding filled_def by auto
  qed
  then have "classes_ready ?st'" using \<open>m \<ge> 1\<close> \<open>m \<le> POWER_LARGEST\<close> by (simp add: classes_ready_def)
  moreover have "\<not> has_page ?st' i a" for i a using c(3) [of i] by (auto simp: has_page_def)
  then have "pages_ok owned ?st'"
    using A b unfolding pages_ok_def allocator_spec_def by (auto simp: Let_def split: prod.splits)
  ultimately have "slabs_inv owned ?st' (\<lambda>_. {})" using c(1,2) by (simp add: slabs_inv_def)
  then show ?thesis using eq by blast
qed

text \<open>A client of the allocator: it asks for the class of a size and a chunk of it, and releases chunks it holds.\<close>

datatype client_op = Alloc nat | Free nat nat

fun slabs_run :: "'k allocator \<Rightarrow> client_op list \<Rightarrow> 'k slab_state \<Rightarrow> (nat \<Rightarrow> nat set) \<Rightarrow> ('k slab_state \<times> (nat \<Rightarrow> nat set)) option" where
  "slabs_run A [] st live = Some (st, live)"
| "slabs_run A (Alloc n # ops) st live = do {
     cid \<leftarrow> slabs_clsid st n;
     (r, st') \<leftarrow> do_slabs_alloc A cid st;
     slabs_run A ops st' (if r = 0 then live else live(cid := insert r (live cid)))
   }"
| "slabs_run A (Free ptr cid # ops) st live =
     (if ptr \<in> live cid
      then do { st' \<leftarrow> do_slabs_free A ptr cid st; slabs_run A ops st' (live(cid := live cid - {ptr})) }
      else slabs_run A ops st live)"

lemma run_ok:
  assumes "allocator_spec A owned" and "slabs_inv owned st live"
  shows "\<exists>st' live'. slabs_run A ops st live = Some (st', live') \<and> slabs_inv owned st' live'"
  using assms(2)
proof (induction ops arbitrary: st live)
  case (Cons op ops)
  show ?case
  proof (cases op)
    case (Alloc n)
    have "classes_ready st" using Cons.prems by (simp add: slabs_inv_def)
    from clsid_ok [OF this, of n] obtain cid where cid: "slabs_clsid st n = Some cid" by blast
    from alloc_ok [OF Cons.prems assms(1), of cid] obtain r st1 where "do_slabs_alloc A cid st = Some (r, st1)"
      "slabs_inv owned st1 (if r = 0 then live else live(cid := insert r (live cid)))" by (auto split: if_splits)
    then show ?thesis using Cons.IH cid by (simp add: Alloc)
  next
    case (Free ptr cid)
    show ?thesis
    proof (cases "ptr \<in> live cid")
      case True
      from free_ok [OF Cons.prems assms(1) this] Cons.IH show ?thesis using True by (auto simp: Free)
    qed (use Cons in \<open>simp add: Free\<close>)
  qed
qed simp

text \<open>C5: chunks in use never overlap: whatever a client allocates and releases, in any order, with or without the large chunk and whichever
  allocations of the system fail, the allocator never stops and the memory of any two chunks in use is disjoint.\<close>

theorem slabs_no_overlap:
  assumes "allocator_spec A owned" and "\<forall>n \<ge> 128. n < scale n" and "mem_base st = 0"
  shows "\<exists>st0 st' live. slabs_init A limit two scale prealloc initial st = Some st0 \<and> slabs_run A ops st0 (\<lambda>_. {}) = Some (st', live) \<and>
    (\<forall>i c j d. c \<in> live i \<and> d \<in> live j \<and> (i, c) \<noteq> (j, d) \<longrightarrow> extent st' i c \<inter> extent st' j d = {})"
proof -
  from init_ok [OF assms] obtain st0 where i: "slabs_init A limit two scale prealloc initial st = Some st0" "slabs_inv owned st0 (\<lambda>_. {})" by blast
  from run_ok [OF assms(1) i(2)] obtain st' live where r: "slabs_run A ops st0 (\<lambda>_. {}) = Some (st', live)" "slabs_inv owned st' live" by blast
  show ?thesis using i(1) r(1) live_apart [OF r(2)] by blast
qed

text \<open>C31: \<open>slabs_clsid\<close> gives the smallest class whose chunks hold an object of the size, 0 for no size and for more than a page; an
  allocation in that class gives a chunk of at least the size that was not in use, or NULL.\<close>

theorem slabs_alloc_fits:
  assumes "slabs_inv owned st live" and "allocator_spec A owned"
  shows "\<exists>cid. slabs_clsid st n = Some cid \<and> (cid = 0 \<longleftrightarrow> n = 0 \<or> n > POWER_BLOCK) \<and>
    (\<forall>j. 1 \<le> j \<and> j < cid \<longrightarrow> chunk (slabclass st j) < n) \<and>
    (\<exists>r st'. do_slabs_alloc A cid st = Some (r, st') \<and>
       (r \<noteq> 0 \<longrightarrow> n \<le> chunk (slabclass st' cid) \<and> r \<notin> live cid \<and> slabs_inv owned st' (live(cid := insert r (live cid)))))"
proof -
  have "classes_ready st" using assms(1) by (simp add: slabs_inv_def)
  from clsid_ok [OF this, of n] obtain cid where cid: "slabs_clsid st n = Some cid" "cid = 0 \<longleftrightarrow> n = 0 \<or> n > POWER_BLOCK"
    "cid \<noteq> 0 \<longrightarrow> n \<le> chunk (slabclass st cid)" "\<forall>j. 1 \<le> j \<and> j < cid \<longrightarrow> chunk (slabclass st j) < n" by auto
  from alloc_ok [OF assms, of cid] obtain r st' where "do_slabs_alloc A cid st = Some (r, st')"
    "chunk (slabclass st' cid) = chunk (slabclass st cid)"
    "r \<noteq> 0 \<longrightarrow> 1 \<le> cid \<and> r \<notin> live cid \<and> slabs_inv owned st' (live(cid := insert r (live cid)))" by (auto split: if_splits)
  then show ?thesis using cid by auto
qed

text \<open>C32: \<open>do_slabs_reassign\<close> does not look whether chunks of the page are in use: when the first chunk of the first page of the source
  class is, the next allocation in the destination class, if it has no free chunk of its own, returns it again.\<close>

theorem reassign_hands_out_used:
  assumes inv: "slabs_inv owned st live" and A: "allocator_spec A owned"
    and s: "1 \<le> src" "src \<le> power_largest st" "end_page_ptr (slabclass st src) = 0" "0 < slabs (slabclass st src)" "killing (slabclass st src) = 0"
    and d: "1 \<le> dst" "dst \<le> power_largest st" "dst \<noteq> src" "end_page_ptr (slabclass st dst) = 0" "sl_curr (slabclass st dst) = 0"
    and used: "page st src 0 \<in> live src" and g: "grow_slab_list A dst st = (True, s1)" "killing (slabclass s1 src) = 0"
  shows "\<exists>st' st''. do_slabs_reassign A src dst st = Some (1, st') \<and> do_slabs_alloc A dst st' = Some (page st src 0, st'')"
proof -
  have g1: "slabclass s1 src = slabclass st src" "power_largest s1 = power_largest st"
    using g(1) d(3) by (auto simp: grow_slab_list_def Let_def split: if_splits prod.splits)
  let ?p = "slabclass st src"
  note gr = grow_ok [OF inv A d(1,2) g(1)]
  have p: "class_ok ?p" and q: "class_ok (slabclass s1 dst)"
    using inv_class [OF inv s(1,2)] inv_class [of owned s1 live dst] gr d(1,2) by auto
  obtain xs c where pu: "purge (slab_list ?p ! 0) (sl_curr ?p) (slots ?p, sl_curr ?p) = (xs, c)" by fastforce
  have len: "0 < length (slab_list ?p)" "slabs ?p - 1 < length (slab_list ?p)" "sl_curr ?p \<le> length (slots ?p)"
    using p s(4) by (auto simp: class_ok_def)
  have n: "slabs (slabclass s1 dst) < length (slab_list (slabclass s1 dst))" using gr q unfolding class_ok_def by metis
  have nz: "page st src 0 \<noteq> 0"
    using inv s by (auto simp: slabs_inv_def pages_ok_def has_page_def)
  have per: "0 < perslab (slabclass s1 dst)" "sl_curr (slabclass s1 dst) = 0" using q gr d(5) by (simp_all add: class_ok_def)
  show ?thesis
    using s d g(1) g1 pu len n nz per gr
    by (simp add: do_slabs_reassign_def do_slabs_alloc_def POWER_SMALLEST_def Let_def page_def)
qed

section \<open>Examples\<close>

definition bump :: "nat allocator" where
  "bump = \<lparr>malloc = (\<lambda>n k. (k, k + n)), realloc_ok = (\<lambda>n k. (True, k))\<rparr>"

lemma bump_spec: "allocator_spec bump (\<lambda>k. {..<k})"
  by (auto simp: allocator_spec_def bump_def)

definition slabs0 :: "nat slab_state" where
  "slabs0 = \<lparr>slabclass = (\<lambda>_. class0), mem_limit = 0, mem_malloced = 0, power_largest = 0, mem_base = 0, mem_current = 0, mem_avail = 0, mem_os = 8\<rparr>"

theorem slabs_no_overlap_witness:
  "\<exists>st0 st' live. slabs_init bump 67108864 True (\<lambda>n. 2 * n) True None slabs0 = Some st0 \<and>
     slabs_run bump [Alloc 100, Alloc 5000, Free 8 1, Alloc 100] st0 (\<lambda>_. {}) = Some (st', live) \<and>
     (\<forall>i c j d. c \<in> live i \<and> d \<in> live j \<and> (i, c) \<noteq> (j, d) \<longrightarrow> extent st' i c \<inter> extent st' j d = {})"
  by (rule slabs_no_overlap [OF bump_spec]) (simp_all add: slabs0_def)

text \<open>Two classes; the one of whole pages has one page, in use.\<close>

definition two_classes :: "nat slab_state" where
  "two_classes = slabs0\<lparr>power_largest := 2, mem_os := 1048584,
     slabclass := (\<lambda>_. class0)(1 := class0\<lparr>chunk := 524288, perslab := 2\<rparr>,
       2 := class0\<lparr>chunk := 1048576, perslab := 1, slabs := 1, slab_list := [8], list_size := 1\<rparr>)\<rparr>"

lemma two_classes_inv: "slabs_inv (\<lambda>k. {..<k}) two_classes ((\<lambda>_. {})(2 := {8}))"
proof -
  have i: "1 \<le> i \<and> i \<le> (2 :: nat) \<longleftrightarrow> i = 1 \<or> i = 2" for i by auto
  have h: "has_page two_classes i a \<longleftrightarrow> i = 2 \<and> a = 0" for i a
    by (auto simp: has_page_def two_classes_def slabs0_def class0_def)
  have "classes_ready two_classes"
    by (auto simp: classes_ready_def two_classes_def slabs0_def POWER_LARGEST_def POWER_BLOCK_def)
  moreover have "pages_ok (\<lambda>k. {..<k}) two_classes"
    unfolding pages_ok_def h by (auto simp: page_def two_classes_def slabs0_def class0_def block_def POWER_BLOCK_def)
  moreover have "class_ok (slabclass two_classes i) \<and> class_live (slabclass two_classes i) (((\<lambda>_. {})(2 := {8})) i)" if "1 \<le> i \<and> i \<le> 2" for i
    using that unfolding i
    by (auto simp: two_classes_def slabs0_def class0_def class_ok_def class_live_def free_chunks_def end_chunks_def all_chunks_def page_chunks_def POWER_BLOCK_def)
  moreover have "power_largest two_classes = 2" by (simp add: two_classes_def)
  ultimately show ?thesis by (auto simp: slabs_inv_def)
qed

theorem slabs_alloc_fits_witness:
  "\<exists>cid r st'. slabs_clsid two_classes 600000 = Some cid \<and> cid \<noteq> 0 \<and> do_slabs_alloc bump cid two_classes = Some (r, st') \<and>
     (r \<noteq> 0 \<longrightarrow> 600000 \<le> chunk (slabclass st' cid))"
  using slabs_alloc_fits [OF two_classes_inv bump_spec, of 600000] by (auto simp: POWER_BLOCK_def)

theorem reassign_hands_out_used_witness:
  "\<exists>st' st''. do_slabs_reassign bump 2 1 two_classes = Some (1, st') \<and> do_slabs_alloc bump 1 st' = Some (8, st'')"
proof -
  let ?s1 = "snd (grow_slab_list bump 1 two_classes)"
  have g: "grow_slab_list bump 1 two_classes = (True, ?s1)" "killing (slabclass ?s1 2) = 0"
    by (simp_all add: grow_slab_list_def two_classes_def slabs0_def class0_def bump_def)
  have p: "page two_classes 2 0 = 8" by (simp add: page_def two_classes_def class0_def)
  have f: "power_largest two_classes = 2" "end_page_ptr (slabclass two_classes 2) = 0" "0 < slabs (slabclass two_classes 2)"
    "killing (slabclass two_classes 2) = 0" "end_page_ptr (slabclass two_classes 1) = 0" "sl_curr (slabclass two_classes 1) = 0"
    by (simp_all add: two_classes_def class0_def)
  from reassign_hands_out_used [OF two_classes_inv bump_spec, of 2 1, OF _ _ f(2-4) _ _ _ f(5,6) _ g] f(1) p show ?thesis by simp
qed

end
