(* ===== verification/Router.thy ===== *)
theory Router
  imports Util Task
begin

text \<open>
  The packet router over UDP: packets and their processing (\<open>src/src/handler_udp/routing/proto_routing.c\<close>, \<open>type/routing.h\<close>), the local ports
  (\<open>local_port.c\<close>), the routes (\<open>route_map.c\<close>) and the addresses of this host (\<open>mineip.c\<close>). Strings are lists of bytes without a NUL; the
  circular lists are HOL lists, in order; a hash table of \<open>common/uthash.h\<close> is the list of its pairs, the last one added first.
  \<open>regexec\<close>, \<open>regcomp\<close>, \<open>inet_aton\<close>, \<open>atoi\<close> and the interfaces of the host are parameters; datagrams sent are collected in \<open>sent\<close>, with address and
  port in host order. A write outside an array is \<open>None\<close>. The bytes of packets are never freed, so memory is not modelled.
\<close>

section \<open>Packets\<close>

definition HEADER_SIZE :: nat where "HEADER_SIZE = 24"
definition CTL_SEND :: u8 where "CTL_SEND = 1"
definition CTL_ACK :: u8 where "CTL_ACK = 2"

text \<open>The fields, without padding (\<open>pack(2)\<close>) and in little-endian order.\<close>

record packet =
  frameSize :: u32
  srcIp :: u32
  srcPort :: u16
  dstIp :: u32
  dstPort :: u16
  seq :: u32
  ack :: u8
  control :: u8
  checksum :: u16

definition field :: "u8 list \<Rightarrow> nat \<Rightarrow> nat \<Rightarrow> nat" where
  "field pk a n = load (\<lambda>i. pk ! i) a n"

definition header_of :: "u8 list \<Rightarrow> packet" where
  "header_of pk = \<lparr>frameSize = of_nat (field pk 0 4), srcIp = of_nat (field pk 4 4), srcPort = of_nat (field pk 8 2),
     dstIp = of_nat (field pk 10 4), dstPort = of_nat (field pk 14 2), seq = of_nat (field pk 16 4),
     ack = of_nat (field pk 20 1), control = of_nat (field pk 21 1), checksum = of_nat (field pk 22 2)\<rparr>"

fun le :: "nat \<Rightarrow> nat \<Rightarrow> u8 list" where
  "le 0 v = []"
| "le (Suc n) v = of_nat (v mod 256) # le n (v div 256)"

definition header_bytes :: "packet \<Rightarrow> u8 list" where
  "header_bytes p = le 4 (unat (frameSize p)) @ le 4 (unat (srcIp p)) @ le 2 (unat (srcPort p)) @ le 4 (unat (dstIp p)) @ le 2 (unat (dstPort p)) @
     le 4 (unat (seq p)) @ le 1 (unat (ack p)) @ le 1 (unat (control p)) @ le 2 (unat (checksum p))"

section \<open>State\<close>

record route =
  rt_name :: "u8 list"
  rt_dest :: "u8 list"
  rt_remote :: "u8 list"
  rt_addr :: u32
  rt_port :: u16

record trip =
  t_fd :: nat
  t_route :: route
  t_pkt :: "u8 list"
  t_entries :: int

record router =
  local_ports :: "(u32 \<times> nat) list"
  port_seq :: u16               \<comment> \<open>\<open>_port\<close>\<close>
  cur_port :: u16
  mineip :: "(u32 \<times> string) list"
  routes :: "route list"
  n_recv :: u64
  n_broken :: u64
  n_retries :: u64
  n_drop :: u64
  retry_max :: int
  retry_ms :: u32
  max_packet :: int
  trip_tasks :: "(u8 list \<times> nat) list"      \<comment> \<open>the hash table \<open>tasks\<close>\<close>
  trips :: "nat \<Rightarrow> trip"
  rsched :: sched
  sent :: "(nat \<times> u32 \<times> u16 \<times> u8 list) list"

record lib =
  rmatch :: "u8 list \<Rightarrow> u8 list \<Rightarrow> bool"
  rcomp :: "u8 list \<Rightarrow> bool"
  aton :: "u8 list \<Rightarrow> u32 option"
  atoi :: "u8 list \<Rightarrow> int"

section \<open>Local ports\<close>

text \<open>\<open>(2^16 - 1)\<close> is an exclusive or in C.\<close>

definition MAX_PORT :: u16 where "MAX_PORT = 2 XOR (16 - 1)"

text \<open>\<open>HASH_FIND_INT\<close> reads four bytes from the two of the variable; \<open>g\<close> is what lies behind it.\<close>

definition find_key :: "u16 \<Rightarrow> u16 \<Rightarrow> u32" where
  "find_key g i = ucast i OR push_bit 16 (ucast g)"

partial_function (option) next_port :: "u16 \<Rightarrow> (u32 \<times> nat) list \<Rightarrow> u16 \<Rightarrow> u16 option" where
  "next_port g ps p = (if map_of ps (find_key g (p + 1)) = None then Some (p + 1) else next_port g ps (p + 1))"

declare next_port.simps [code]

text \<open>The result is the port, \<open>None\<close> for NULL; the outer \<open>None\<close> is a search without end.\<close>

definition register_virtual_port :: "u16 \<Rightarrow> nat \<Rightarrow> router \<Rightarrow> (u16 option \<times> router) option" where
  "register_virtual_port g ctx s =
     (if cur_port s = MAX_PORT then Some (None, s)
      else do {
        i \<leftarrow> next_port g (local_ports s) (port_seq s);
        Some (Some i, s\<lparr>port_seq := i, local_ports := (ucast i, ctx) # local_ports s, cur_port := cur_port s + 1\<rparr>)
      })"

definition register_port :: "u16 \<Rightarrow> u16 \<Rightarrow> nat \<Rightarrow> router \<Rightarrow> u16 option \<times> router" where
  "register_port g port ctx s =
     (if cur_port s = MAX_PORT then (None, s)
      else if map_of (local_ports s) (find_key g port) = None
           then (Some port, s\<lparr>local_ports := (ucast port, ctx) # local_ports s, cur_port := cur_port s + 1\<rparr>)
           else (None, s))"

fun drop_key :: "'k \<Rightarrow> ('k \<times> 'v) list \<Rightarrow> ('k \<times> 'v) list" where
  "drop_key k [] = []"
| "drop_key k (x # xs) = (if fst x = k then xs else x # drop_key k xs)"

definition unregister_port :: "u16 \<Rightarrow> u16 \<Rightarrow> router \<Rightarrow> int \<times> router" where
  "unregister_port g i s =
     (if map_of (local_ports s) (find_key g i) = None then (0, s)
      else (1, s\<lparr>local_ports := drop_key (find_key g i) (local_ports s), cur_port := cur_port s - 1\<rparr>))"

definition get_local_port :: "u16 \<Rightarrow> u16 \<Rightarrow> router \<Rightarrow> nat option" where
  "get_local_port g i s = map_of (local_ports s) (find_key g i)"

section \<open>Addresses of this host\<close>

text \<open>An interface: whether it has an address, whether \<open>getnameinfo\<close> succeeds, the address and the name.\<close>

type_synonym iface = "bool \<times> bool \<times> u32 \<times> string"

fun mineip_loop :: "iface list \<Rightarrow> router \<Rightarrow> router" where
  "mineip_loop [] s = s"
| "mineip_loop ((addr, ok, ip, name) # ifs) s =
     mineip_loop ifs (if addr \<and> ok then s\<lparr>mineip := mineip s @ [(ip, name)]\<rparr> else s)"

definition mineip_init :: "iface list option \<Rightarrow> router \<Rightarrow> int \<times> router" where
  "mineip_init ifs s = (case ifs of None \<Rightarrow> (1, s) | Some xs \<Rightarrow> (0, mineip_loop xs s))"

definition is_mine_ip :: "u32 \<Rightarrow> router \<Rightarrow> bool" where
  "is_mine_ip ip s \<longleftrightarrow> ip \<in> set (map fst (mineip s))"

definition get_ip_nic :: "string \<Rightarrow> router \<Rightarrow> u32" where
  "get_ip_nic name s = (case find (\<lambda>m. snd m = name) (mineip s) of None \<Rightarrow> 0 | Some m \<Rightarrow> fst m)"

section \<open>Routes\<close>

definition ROUT_BUF_REV :: nat where "ROUT_BUF_REV = 127"

definition route_register :: "route \<Rightarrow> router \<Rightarrow> router" where
  "route_register r s = s\<lparr>routes := routes s @ [r]\<rparr>"

definition route_unregister :: "route \<Rightarrow> router \<Rightarrow> router" where
  "route_unregister r s = s\<lparr>routes := remove1 r (routes s)\<rparr>"

definition route_get_by_name :: "u8 list \<Rightarrow> router \<Rightarrow> route option" where
  "route_get_by_name name s = find (\<lambda>r. rt_name r = name) (routes s)"

definition route_get_by_dst :: "lib \<Rightarrow> u8 list \<Rightarrow> router \<Rightarrow> route option" where
  "route_get_by_dst L dst s = find (\<lambda>r. rmatch L (rt_dest r) dst) (routes s)"

text \<open>The text of the port is copied into 20 bytes and read up to a NUL. For the remote \<open>*\<close> the address is not set and never used.\<close>

definition route_register_config :: "lib \<Rightarrow> u8 list \<Rightarrow> u8 list \<Rightarrow> u8 list \<Rightarrow> router \<Rightarrow> (int \<times> router) option" where
  "route_register_config L name src remote s =
     (if length name \<ge> ROUT_BUF_REV \<or> length src \<ge> ROUT_BUF_REV \<or> length remote \<ge> ROUT_BUF_REV then Some (1, s)
      else if \<not> rcomp L src then Some (1, s)
      else if remote = [42]
           then Some (0, route_register \<lparr>rt_name = name, rt_dest = src, rt_remote = remote, rt_addr = 0, rt_port = 0\<rparr> s)
      else if 58 \<notin> set remote then Some (1, s)
      else let host = takeWhile (\<lambda>c. c \<noteq> 58) remote; port = drop (length host + 1) remote
           in if length port \<ge> 20 then None
              else case aton L host of
                     None \<Rightarrow> Some (1, s)
                   | Some a \<Rightarrow> Some (0, route_register \<lparr>rt_name = name, rt_dest = src, rt_remote = remote, rt_addr = a,
                                  rt_port = word_of_int (atoi L port)\<rparr> s))"

section \<open>Processing\<close>

text \<open>\<open>inet_ntoa\<close>: the bytes of the address in memory, in decimal; and the text a route is looked up with.\<close>

definition ntoip :: "u32 \<Rightarrow> u8 list" where
  "ntoip ip = digits (unat (ip AND 255)) @ [46] @ digits (unat (drop_bit 8 ip AND 255)) @ [46] @
     digits (unat (drop_bit 16 ip AND 255)) @ [46] @ digits (unat (drop_bit 24 ip))"

definition detail :: "u32 \<Rightarrow> u16 \<Rightarrow> u8 list" where
  "detail ip port = ntoip ip @ [58] @ digits (unat port)"

definition send_packet_direct :: "nat \<Rightarrow> u32 \<Rightarrow> u16 \<Rightarrow> u8 list \<Rightarrow> router \<Rightarrow> router" where
  "send_packet_direct fd host port pk s = s\<lparr>sent := sent s @ [(fd, host, port, take (unat (frameSize (header_of pk))) pk)]\<rparr>"

definition send_packet :: "nat \<Rightarrow> route \<Rightarrow> u8 list \<Rightarrow> router \<Rightarrow> router" where
  "send_packet fd r pk s = s\<lparr>sent := sent s @ [(fd, rt_addr r, rt_port r, take (unat (frameSize (header_of pk))) pk)]\<rparr>"

text \<open>The key of a packet in flight; the last number is \<open>dstIp\<close> as an \<open>int\<close>.\<close>

definition zen_hash :: "packet \<Rightarrow> u8 list" where
  "zen_hash p = fmt_d (sint (seq p)) @ [45] @ ntoip (srcIp p) @ [58] @ fmt_d (int (unat (srcPort p))) @ [45] @
     ntoip (dstIp p) @ [58] @ fmt_d (sint (dstIp p))"

text \<open>The task that sends a packet again; \<open>cb\<close> is the sender's callback. The task lives on when the result is true.\<close>

definition retry :: "(int \<Rightarrow> nat \<Rightarrow> router \<Rightarrow> router) \<Rightarrow> u32 \<Rightarrow> nat \<Rightarrow> router \<Rightarrow> bool \<times> router" where
  "retry cb ms t s0 =
     (let tr = trips s0 t; s = s0\<lparr>trips := (trips s0)(t := tr\<lparr>t_entries := t_entries tr + 1\<rparr>)\<rparr>
      in if t_entries tr \<ge> retry_max s
         then let s1 = s\<lparr>trip_tasks := drop_key (zen_hash (header_of (t_pkt tr))) (trip_tasks s)\<rparr>; s2 = cb 1 t s1
              in (False, s2\<lparr>n_drop := n_drop s2 + 1\<rparr>)
         else let s1 = send_packet (t_fd tr) (t_route tr) (t_pkt tr) (s\<lparr>n_retries := n_retries s + 1\<rparr>)
              in (True, s1\<lparr>rsched := upd_task t (\<lambda>x. x\<lparr>expire := tick_add ms (retry_ms s1)\<rparr>) (rsched s1)\<rparr>))"

definition ack_packet :: "packet \<Rightarrow> packet" where
  "ack_packet p = \<lparr>frameSize = of_nat HEADER_SIZE, srcIp = dstIp p, srcPort = dstPort p, dstIp = srcIp p, dstPort = srcPort p,
     seq = seq p, ack = ack p, control = CTL_ACK, checksum = 0\<rparr>"

definition ack_response :: "lib \<Rightarrow> nat \<Rightarrow> packet \<Rightarrow> router \<Rightarrow> int \<times> router" where
  "ack_response L fd p s =
     (case route_get_by_dst L (detail (srcIp p) (srcPort p)) s of
        None \<Rightarrow> (1, s)
      | Some r \<Rightarrow> let a = ack_packet p
                  in (0, if rt_remote r \<noteq> [42] then send_packet fd r (header_bytes a) s
                         else send_packet_direct fd (dstIp a) (dstPort a) (header_bytes a) s))"

definition proc_mine :: "lib \<Rightarrow> (int \<Rightarrow> nat \<Rightarrow> router \<Rightarrow> router) \<Rightarrow> nat \<Rightarrow> u8 list \<Rightarrow> router \<Rightarrow> router" where
  "proc_mine L cb fd pk s =
     (let p = header_of pk
      in if control p = CTL_SEND then snd (ack_response L fd p s)
         else if control p = CTL_ACK then
           (case map_of (trip_tasks s) (zen_hash p) of
              None \<Rightarrow> s
            | Some t \<Rightarrow> let s1 = cb 0 t s
                        in s1\<lparr>rsched := task_free t (task_delete t (rsched s1)), trip_tasks := drop_key (zen_hash p) (trip_tasks s1)\<rparr>)
         else s)"

text \<open>The result is \<open>None\<close> where the code returns without a value.\<close>

definition routing_proc :: "lib \<Rightarrow> (int \<Rightarrow> nat \<Rightarrow> router \<Rightarrow> router) \<Rightarrow> u16 \<Rightarrow> nat \<Rightarrow> u8 list \<Rightarrow> router \<Rightarrow> int option \<times> router" where
  "routing_proc L cb g fd pk s =
     (let p = header_of pk
      in if is_mine_ip (dstIp p) s \<and> get_local_port g (dstPort p) s \<noteq> None then (None, proc_mine L cb fd pk s)
         else case route_get_by_dst L (detail (dstIp p) (dstPort p)) s of
                None \<Rightarrow> (Some 1, s)
              | Some r \<Rightarrow> (Some 0, if rt_remote r \<noteq> [42] then send_packet fd r pk s
                                   else send_packet_direct fd (dstIp p) (dstPort p) pk s))"

text \<open>\<open>data\<close> are the bytes that wait in the buffer; \<open>mem\<close> is what lies behind the copy, which \<open>tcp_checksum\<close> may read.\<close>

definition data_at :: "(nat \<Rightarrow> u8) \<Rightarrow> u8 list \<Rightarrow> nat \<Rightarrow> u8" where
  "data_at mem d i = (if i < length d then d ! i else mem (i - length d))"

definition routing_parse :: "lib \<Rightarrow> (int \<Rightarrow> nat \<Rightarrow> router \<Rightarrow> router) \<Rightarrow> u16 \<Rightarrow> (nat \<Rightarrow> u8) \<Rightarrow> nat \<Rightarrow> u8 list \<Rightarrow> router \<Rightarrow> int option \<times> router" where
  "routing_parse L cb g mem fd pk s0 =
     (let s = s0\<lparr>n_recv := n_recv s0 + 1\<rparr>; len = length pk; p = header_of pk; broken = s\<lparr>n_broken := n_broken s + 1\<rparr>
      in if len < HEADER_SIZE then (Some (- 1), s)
         else if frameSize p > word_of_int (max_packet s) then (Some 1, broken)
         else if frameSize p \<noteq> of_nat len then (Some 1, broken)
         else if tcp_checksum (data_at mem (drop HEADER_SIZE pk)) (len - HEADER_SIZE) \<noteq> checksum p then (Some 1, broken)
         else routing_proc L cb g fd pk s)"

section \<open>Headers\<close>

fun val :: "u8 list \<Rightarrow> nat" where
  "val [] = 0"
| "val (b # bs) = unat b + 256 * val bs"

lemma load_val: "a + n \<le> length xs \<Longrightarrow> load (\<lambda>i. xs ! i) a n = val (take n (drop a xs))"
proof (induction n arbitrary: a)
  case (Suc n)
  then have "take (Suc n) (drop a xs) = xs ! a # take n (drop (Suc a) xs)" by (simp add: Cons_nth_drop_Suc [symmetric])
  then show ?case using Suc by simp
qed simp

lemma length_le [simp]: "length (le n v) = n"
  by (induction n arbitrary: v) auto

lemma val_le: "val (le n v) = v mod 256 ^ n"
proof (induction n arbitrary: v)
  case (Suc n)
  have "v mod 256 < 2 ^ LENGTH(8)" by simp
  then have "unat (of_nat (v mod 256) :: u8) = v mod 256" by (rule unat_of_nat_small)
  then show ?case using Suc by (simp add: mod_mult2_eq [symmetric] ac_simps) (simp add: mod_mult2_eq)
qed simp

lemma length_header [simp]: "length (header_bytes p) = HEADER_SIZE"
  by (simp add: header_bytes_def HEADER_SIZE_def)

lemma field_at:
  assumes "pk = pre @ le n v @ post" "length pre = a"
  shows "field pk a n = v mod 256 ^ n"
  using assms load_val [of a n pk] by (simp add: field_def val_le)

lemma word_le4: "of_nat (unat (w :: u32) mod 256 ^ 4) = w"
proof -
  have "unat w < 2 ^ LENGTH(32)" by (rule unsigned_less)
  then show ?thesis by simp
qed

lemma word_le2: "of_nat (unat (w :: u16) mod 256 ^ 2) = w"
proof -
  have "unat w < 2 ^ LENGTH(16)" by (rule unsigned_less)
  then show ?thesis by simp
qed

lemma word_le1: "of_nat (unat (w :: u8) mod 256 ^ 1) = w"
proof -
  have "unat w < 2 ^ LENGTH(8)" by (rule unsigned_less)
  then show ?thesis by simp
qed

lemma header_round: "header_of (header_bytes p @ d) = p"
proof -
  let ?pk = "header_bytes p @ d"
  have "field ?pk 0 4 = unat (frameSize p) mod 256 ^ 4" by (rule field_at [of _ "[]"]) (simp_all add: header_bytes_def)
  moreover have "field ?pk 4 4 = unat (srcIp p) mod 256 ^ 4"
    by (rule field_at [of _ "le 4 (unat (frameSize p))"]) (simp_all add: header_bytes_def)
  moreover have "field ?pk 8 2 = unat (srcPort p) mod 256 ^ 2"
    by (rule field_at [of _ "le 4 (unat (frameSize p)) @ le 4 (unat (srcIp p))"]) (simp_all add: header_bytes_def)
  moreover have "field ?pk 10 4 = unat (dstIp p) mod 256 ^ 4"
    by (rule field_at [of _ "le 4 (unat (frameSize p)) @ le 4 (unat (srcIp p)) @ le 2 (unat (srcPort p))"]) (simp_all add: header_bytes_def)
  moreover have "field ?pk 14 2 = unat (dstPort p) mod 256 ^ 2"
    by (rule field_at [of _ "le 4 (unat (frameSize p)) @ le 4 (unat (srcIp p)) @ le 2 (unat (srcPort p)) @ le 4 (unat (dstIp p))"])
      (simp_all add: header_bytes_def)
  moreover have "field ?pk 16 4 = unat (seq p) mod 256 ^ 4"
    by (rule field_at [of _ "le 4 (unat (frameSize p)) @ le 4 (unat (srcIp p)) @ le 2 (unat (srcPort p)) @ le 4 (unat (dstIp p)) @ le 2 (unat (dstPort p))"])
      (simp_all add: header_bytes_def)
  moreover have "field ?pk 20 1 = unat (ack p) mod 256 ^ 1"
    by (rule field_at [of _ "le 4 (unat (frameSize p)) @ le 4 (unat (srcIp p)) @ le 2 (unat (srcPort p)) @ le 4 (unat (dstIp p)) @ le 2 (unat (dstPort p)) @
      le 4 (unat (seq p))"]) (simp_all add: header_bytes_def)
  moreover have "field ?pk 21 1 = unat (control p) mod 256 ^ 1"
    by (rule field_at [of _ "le 4 (unat (frameSize p)) @ le 4 (unat (srcIp p)) @ le 2 (unat (srcPort p)) @ le 4 (unat (dstIp p)) @ le 2 (unat (dstPort p)) @
      le 4 (unat (seq p)) @ le 1 (unat (ack p))"]) (simp_all add: header_bytes_def)
  moreover have "field ?pk 22 2 = unat (checksum p) mod 256 ^ 2"
    by (rule field_at [of _ "le 4 (unat (frameSize p)) @ le 4 (unat (srcIp p)) @ le 2 (unat (srcPort p)) @ le 4 (unat (dstIp p)) @ le 2 (unat (dstPort p)) @
      le 4 (unat (seq p)) @ le 1 (unat (ack p)) @ le 1 (unat (control p))"]) (simp_all add: header_bytes_def)
  ultimately show ?thesis by (simp only: header_of_def word_le4 word_le2 word_le1) simp
qed

section \<open>Packets through the router\<close>

lemma counted:
  "is_mine_ip ip (s\<lparr>n_recv := n\<rparr>) = is_mine_ip ip s" "get_local_port g i (s\<lparr>n_recv := n\<rparr>) = get_local_port g i s"
  "route_get_by_dst L d (s\<lparr>n_recv := n\<rparr>) = route_get_by_dst L d s"
  by (simp_all add: is_mine_ip_def get_local_port_def route_get_by_dst_def)

text \<open>The datagrams that a packet with header \<open>p\<close> and bytes \<open>pk\<close>, sent by \<open>CTL_SEND\<close>, causes.\<close>

definition answers :: "lib \<Rightarrow> u16 \<Rightarrow> nat \<Rightarrow> packet \<Rightarrow> u8 list \<Rightarrow> router \<Rightarrow> (nat \<times> u32 \<times> u16 \<times> u8 list) list" where
  "answers L g fd p pk s =
     (if is_mine_ip (dstIp p) s \<and> get_local_port g (dstPort p) s \<noteq> None
      then case route_get_by_dst L (detail (srcIp p) (srcPort p)) s of
             None \<Rightarrow> []
           | Some r \<Rightarrow> if rt_remote r = [42] then [(fd, srcIp p, srcPort p, header_bytes (ack_packet p))]
                       else [(fd, rt_addr r, rt_port r, header_bytes (ack_packet p))]
      else case route_get_by_dst L (detail (dstIp p) (dstPort p)) s of
             None \<Rightarrow> []
           | Some r \<Rightarrow> if rt_remote r = [42] then [(fd, dstIp p, dstPort p, pk)] else [(fd, rt_addr r, rt_port r, pk)])"


text \<open>C34: acknowledgements never arrive: the router sends them with checksum 0, but a router that receives one computes 0xffff for its empty
  data, so whatever its state and settings it counts the packet as broken and does nothing else.\<close>

theorem acks_are_dropped:
  "routing_parse L cb g mem fd (header_bytes (ack_packet p)) s = (Some 1, s\<lparr>n_recv := n_recv s + 1, n_broken := n_broken s + 1\<rparr>)"
proof -
  have "header_of (header_bytes (ack_packet p)) = ack_packet p" using header_round [of "ack_packet p" "[]"] by simp
  moreover have "tcp_checksum m 0 = 65535" for m :: "nat \<Rightarrow> u8"
    by (simp add: tcp_checksum_def Let_def sum8.simps eac_add_def)
  moreover have "frameSize (ack_packet p) = of_nat HEADER_SIZE" "checksum (ack_packet p) = 0" by (simp_all add: ack_packet_def)
  ultimately show ?thesis by (simp add: routing_parse_def Let_def)
qed

section \<open>The table of ports\<close>

definition ports_ok :: "router \<Rightarrow> bool" where
  "ports_ok s \<longleftrightarrow> length (local_ports s) \<le> 13 \<and> cur_port s = of_nat (length (local_ports s)) \<and> distinct (map fst (local_ports s)) \<and>
     fst ` set (local_ports s) \<subseteq> range (ucast :: u16 \<Rightarrow> u32)"

lemma unat_ucast_port: "unat (ucast (a :: u16) :: u32) = unat a"
  by (rule unat_ucast_up) simp

lemma ucast_port_inj: "(ucast (a :: u16) :: u32) = ucast b \<Longrightarrow> a = b"
  by (metis unat_ucast_port word_unat_eq_iff)

lemma find_key_top: "drop_bit 16 (find_key g i) = ucast g"
  by (rule bit_word_eqI) (auto simp: find_key_def bit_simps dest: bit_imp_le_length)

lemma ucast_port_top: "drop_bit 16 (ucast (i :: u16) :: u32) = 0"
  by (rule bit_word_eqI) (auto simp: bit_simps dest: bit_imp_le_length)

lemma find_key_0: "find_key 0 i = ucast i"
  by (simp add: find_key_def)

lemma next_port_finds:
  assumes "map_of ps (find_key g (p + of_nat (Suc k))) = None"
  shows "\<exists>i. next_port g ps p = Some i \<and> map_of ps (find_key g i) = None"
  using assms
proof (induction k arbitrary: p)
  case 0
  then show ?case by (subst next_port.simps) simp
next
  case (Suc k)
  show ?case
  proof (cases "map_of ps (find_key g (p + 1)) = None")
    case True
    then show ?thesis by (subst next_port.simps) simp
  next
    case False
    have "p + of_nat (Suc (Suc k)) = (p + 1) + of_nat (Suc k)" by simp
    then have "map_of ps (find_key g ((p + 1) + of_nat (Suc k))) = None" using Suc.prems by metis
    from Suc.IH [OF this] False show ?thesis by (subst next_port.simps) simp
  qed
qed

lemma free_port:
  assumes "length ps < 14"
  shows "\<exists>k. map_of ps (find_key 0 (p + of_nat (Suc k))) = None"
proof (rule ccontr)
  assume "\<nexists>k. map_of ps (find_key 0 (p + of_nat (Suc k))) = None"
  then have sub: "(\<lambda>k. find_key 0 (p + of_nat (Suc k))) ` {..<14} \<subseteq> fst ` set ps"
    by (auto simp: map_of_eq_None_iff)
  have "inj_on (\<lambda>k. find_key 0 (p + of_nat (Suc k))) {..<14}"
  proof (rule inj_onI)
    fix a b :: nat assume ab: "a \<in> {..<14}" "b \<in> {..<14}" and "find_key 0 (p + of_nat (Suc a)) = find_key 0 (p + of_nat (Suc b))"
    then have "ucast (p + of_nat (Suc a)) = (ucast (p + of_nat (Suc b)) :: u32)" by (simp add: find_key_0)
    then have "p + of_nat (Suc a) = p + of_nat (Suc b)" by (rule ucast_port_inj)
    then have "(of_nat (Suc a) :: u16) = of_nat (Suc b)" by simp
    then have "unat (of_nat (Suc a) :: u16) = unat (of_nat (Suc b) :: u16)" by simp
    then show "a = b" using ab by (simp add: unat_of_nat_small del: of_nat_Suc)
  qed
  then have "card ((\<lambda>k. find_key 0 (p + of_nat (Suc k))) ` {..<14}) = 14" by (simp add: card_image)
  then have "14 \<le> card (fst ` set ps)" using card_mono [OF _ sub] by simp
  also have "\<dots> \<le> length ps" using card_image_le [of "set ps" fst] card_length [of ps] by simp
  finally show False using assms by simp
qed

lemma max_port:
  assumes "n \<le> 13"
  shows "of_nat n = MAX_PORT \<longleftrightarrow> n = 13"
proof
  assume "of_nat n = MAX_PORT"
  then have "unat (of_nat n :: u16) = 13" by (simp add: MAX_PORT_def)
  then show "n = 13" using assms by (simp add: unat_of_nat_small)
qed (simp add: MAX_PORT_def)

text \<open>C35: the limit of the ports, written \<open>2^16 - 1\<close>, is 13: \<open>register_virtual_port\<close> always returns, with a port that was not in use while fewer than 13 are
  registered and with NULL from then on, and keeps the table consistent. When the two bytes behind the variable of the
  port are not zero, no look-up finds any port.\<close>

theorem port_table:
  assumes "ports_ok s"
  shows "(\<exists>r s'. register_virtual_port 0 ctx s = Some (r, s') \<and> ports_ok s' \<and>
      (case r of None \<Rightarrow> length (local_ports s) = 13 \<and> s' = s
       | Some i \<Rightarrow> length (local_ports s) < 13 \<and> get_local_port 0 i s = None \<and> get_local_port 0 i s' = Some ctx)) \<and>
    (g \<noteq> 0 \<longrightarrow> get_local_port g i s = None)"
proof -
  have s: "length (local_ports s) \<le> 13" "cur_port s = of_nat (length (local_ports s))" "distinct (map fst (local_ports s))"
    "fst ` set (local_ports s) \<subseteq> range (ucast :: u16 \<Rightarrow> u32)" using assms by (simp_all add: ports_ok_def)
  have full: "cur_port s = MAX_PORT \<longleftrightarrow> length (local_ports s) = 13"
    using s(1) unfolding s(2) by (rule max_port)
  have "\<exists>r s'. register_virtual_port 0 ctx s = Some (r, s') \<and> ports_ok s' \<and>
      (case r of None \<Rightarrow> length (local_ports s) = 13 \<and> s' = s
       | Some i \<Rightarrow> length (local_ports s) < 13 \<and> get_local_port 0 i s = None \<and> get_local_port 0 i s' = Some ctx)"
  proof (cases "length (local_ports s) = 13")
    case True
    then show ?thesis using full assms by (simp add: register_virtual_port_def)
  next
    case False
    then have lt: "length (local_ports s) < 13" using s(1) by simp
    obtain i where "next_port 0 (local_ports s) (port_seq s) = Some i" "map_of (local_ports s) (find_key 0 i) = None"
      using lt free_port [of "local_ports s" "port_seq s"] next_port_finds by force
    then show ?thesis using False lt full s
      by (auto simp: register_virtual_port_def ports_ok_def get_local_port_def find_key_0 map_of_eq_None_iff)
  qed
  moreover have "g \<noteq> 0 \<longrightarrow> get_local_port g i s = None"
    using s(4) find_key_top [of g i] ucast_port_top ucast_port_inj [of g 0]
    by (fastforce simp: get_local_port_def map_of_eq_None_iff)
  ultimately show ?thesis by blast
qed

section \<open>Examples\<close>

definition lib0 :: lib where
  "lib0 = \<lparr>rmatch = (\<lambda>p t. take (length p) t = p), rcomp = (\<lambda>p. p \<noteq> []), aton = (\<lambda>h. if h = [] then None else Some 0x0100007F),
     atoi = (\<lambda>t. 80)\<rparr>"

definition trip0 :: trip where
  "trip0 = \<lparr>t_fd = 3, t_route = \<lparr>rt_name = [], rt_dest = [], rt_remote = [], rt_addr = 0, rt_port = 0\<rparr>, t_pkt = [], t_entries = 0\<rparr>"

text \<open>A router at 127.0.0.1 with port 222, and one route for every destination.\<close>

definition router0 :: router where
  "router0 = \<lparr>local_ports = [(222, 0)], port_seq = 0, cur_port = 1, mineip = [(0x0100007F, ''lo'')],
     routes = [\<lparr>rt_name = [97], rt_dest = [], rt_remote = [42], rt_addr = 0, rt_port = 0\<rparr>],
     n_recv = 0, n_broken = 0, n_retries = 0, n_drop = 0, retry_max = 3, retry_ms = 1000, max_packet = 4096,
     trip_tasks = [], trips = (\<lambda>_. trip0), rsched = sched0, sent = []\<rparr>"

definition packet0 :: packet where
  "packet0 = \<lparr>frameSize = 26, srcIp = 0x0200007F, srcPort = 9, dstIp = 0x0100007F, dstPort = 222, seq = 7, ack = 0, control = CTL_SEND,
     checksum = tcp_checksum (data_at (\<lambda>_. 0) [104, 105]) 2\<rparr>"


theorem port_table_witness:
  "\<exists>i s'. register_virtual_port 0 5 router0 = Some (Some i, s') \<and> get_local_port 0 i s' = Some 5"
proof -
  have f: "local_ports router0 = [(222, 0)]" "cur_port router0 = 1" by (simp_all add: router0_def)
  have "(222 :: u32) \<in> range (ucast :: u16 \<Rightarrow> u32)" by (rule range_eqI [of _ _ 222]) simp
  then have "ports_ok router0" by (simp add: ports_ok_def f)
  then show ?thesis using port_table [of router0 5 0 0]
    by (auto simp: f split: option.splits)
qed

end
