(* ===== verification/Udp_Services.thy ===== *)
theory Udp_Services
  imports Router Echo
begin

text \<open>
  The services over UDP: the echo service \<open>src/src/handler_udp/echo_udp.c\<close> and the packet router \<open>src/src/handler_udp/routing.c\<close>, on the
  descriptor table and with the buffers of theory \<open>Echo\<close>, whose \<open>echo_disconnect\<close> both of them call. A service has one descriptor, its
  listener's, and one buffer. \<open>recvfrom ()\<close>, \<open>sendto ()\<close> and the allocator are parameters; a peer is a number. \<open>None\<close> is a store outside
  the block, a NULL pointer, or the end of the process.
\<close>

section \<open>Operations\<close>

record 'k dgrams =
  recvfrom :: "nat \<Rightarrow> nat \<Rightarrow> 'k \<Rightarrow> (u8 list \<times> nat) option \<times> 'k"
  sendto :: "nat \<Rightarrow> u8 list \<Rightarrow> nat \<Rightarrow> 'k \<Rightarrow> int \<times> 'k"
  d_malloc :: "echo \<Rightarrow> nat"
  d_block :: "nat \<Rightarrow> u8 list"

definition UECHO_BUFFER_SIZE :: nat where "UECHO_BUFFER_SIZE = 4096"
definition R_BUFF_SIZE :: nat where "R_BUFF_SIZE = 4096"

definition set_buffer :: "nat \<Rightarrow> buffer \<Rightarrow> (echo, 'k) server \<Rightarrow> (echo, 'k) server" where
  "set_buffer a b p = p\<lparr>kern := (kern p)\<lparr>svc := (svc (kern p))\<lparr>e_heap := (e_heap (svc (kern p)))(a \<mapsto> b)\<rparr>\<rparr>\<rparr>"

definition set_os :: "'k \<Rightarrow> (echo, 'k) server \<Rightarrow> (echo, 'k) server" where
  "set_os k p = p\<lparr>kern := (kern p)\<lparr>os_state := k\<rparr>\<rparr>"

text \<open>The common part of \<open>echo_udp_init\<close> and \<open>routing_init\<close>: one buffer of \<open>n\<close> bytes for both directions.\<close>

definition new_buffer :: "'k dgrams \<Rightarrow> nat \<Rightarrow> nat \<Rightarrow> (echo, 'k) server \<Rightarrow> (echo, 'k) server" where
  "new_buffer os n fd p =
     (let s = svc (kern p); b = d_malloc os s
      in set_buffer b (buffer_init (d_block os n) n)
           (p\<lparr>kern := (kern p)\<lparr>svc := s\<lparr>wr_b := (wr_b s)(fd := b), rd_b := (rd_b s)(fd := b)\<rparr>\<rparr>\<rparr>))"

definition echo_udp_init :: "'k dgrams \<Rightarrow> nat \<Rightarrow> (echo, 'k) server \<Rightarrow> int \<times> (echo, 'k) server" where
  "echo_udp_init os fd p = (0, new_buffer os UECHO_BUFFER_SIZE fd p)"

definition echo_udp_deinit :: "nat \<Rightarrow> (echo, 'k) server \<Rightarrow> (int \<times> (echo, 'k) server) option" where
  "echo_udp_deinit fd p =
     (let s = svc (kern p) in case e_heap s (wr_b s fd) of
        None \<Rightarrow> None
      | Some b \<Rightarrow> Some (0, p\<lparr>kern := (kern p)\<lparr>svc := s\<lparr>e_heap := (e_heap s)(wr_b s fd := None)\<rparr>\<rparr>\<rparr>))"

text \<open>The answer to an empty datagram or an error.\<close>

definition drop_socket :: "'k sys \<Rightarrow> nat \<Rightarrow> (echo, 'k) server \<Rightarrow> (echo, 'k) server" where
  "drop_socket sy fd p = snd (call echo_disconnect fd (fd_delete (lift_sys sy) fd p))"

definition echo_udp_read :: "'k dgrams \<Rightarrow> 'k sys \<Rightarrow> nat \<Rightarrow> (echo, 'k) server \<Rightarrow> (int \<times> (echo, 'k) server) option" where
  "echo_udp_read os sy fd p =
     (let s = svc (kern p); a = wr_b s fd in do {
        ib \<leftarrow> e_heap s a;
        let (m, k) = recvfrom os fd (nat (buffer_remain_write ib)) (os_state (kern p));
        case m of
          None \<Rightarrow> Some (0, drop_socket sy fd (set_os k p))
        | Some (d, peer) \<Rightarrow>
            if d = [] then Some (0, drop_socket sy fd (set_os k p))
            else do {
              bl \<leftarrow> Buffers.store (r_ofs ib) d (buff ib);
              let ib1 = ib\<lparr>buff := bl, r_ofs := r_ofs ib + length d\<rparr>;
              let (n, k1) = sendto os fd (take (length d) (drop (curr_ofs ib1) (buff ib1))) peer k;
              bl1 \<leftarrow> Buffers.store (r_ofs ib1) [0] (buff ib1);
              Some (0, set_buffer a (buffer_reset (ib1\<lparr>buff := bl1\<rparr>)) (set_os k1 p))
            }
      })"

definition echo_udp_write :: "nat \<Rightarrow> (echo, 'k) server \<Rightarrow> int \<times> (echo, 'k) server" where
  "echo_udp_write fd p = (0, p)"

text \<open>\<open>routing_init\<close> ends the process when the addresses of the host are not found.\<close>

definition routing_init :: "'k dgrams \<Rightarrow> iface list option \<Rightarrow> u16 \<Rightarrow> u16 \<Rightarrow> nat \<Rightarrow> (echo, 'k) server \<Rightarrow> router \<Rightarrow>
    (int \<times> (echo, 'k) server \<times> router) option" where
  "routing_init os ifs g port fd p s =
     (let (ret, s1) = mineip_init ifs s
      in if ret \<noteq> 0 then None else Some (0, new_buffer os R_BUFF_SIZE fd p, snd (register_port g port 0 s1)))"

definition routing_deinit :: "nat \<Rightarrow> (echo, 'k) server \<Rightarrow> (int \<times> (echo, 'k) server) option" where
  "routing_deinit fd p =
     (let s = svc (kern p) in case e_heap s (wr_b s fd) of
        None \<Rightarrow> None
      | Some b \<Rightarrow> Some (0, p\<lparr>kern := (kern p)\<lparr>svc := s\<lparr>e_heap := (e_heap s)(wr_b s fd := None)\<rparr>\<rparr>\<rparr>))"

definition routing_read :: "'k dgrams \<Rightarrow> 'k sys \<Rightarrow> lib \<Rightarrow> (int \<Rightarrow> nat \<Rightarrow> router \<Rightarrow> router) \<Rightarrow> u16 \<Rightarrow> (nat \<Rightarrow> u8) \<Rightarrow> nat \<Rightarrow>
    (echo, 'k) server \<Rightarrow> router \<Rightarrow> (int \<times> (echo, 'k) server \<times> router) option" where
  "routing_read os sy L cb g mem fd p rt =
     (let s = svc (kern p); a = wr_b s fd in do {
        ib \<leftarrow> e_heap s a;
        let (m, k) = recvfrom os fd (nat (buffer_remain_write ib)) (os_state (kern p));
        case m of
          None \<Rightarrow> Some (0, drop_socket sy fd (set_os k p), rt)
        | Some (d, peer) \<Rightarrow>
            if d = [] then Some (0, drop_socket sy fd (set_os k p), rt)
            else do {
              bl \<leftarrow> Buffers.store (r_ofs ib) d (buff ib);
              let ib1 = ib\<lparr>buff := bl, r_ofs := r_ofs ib + length d\<rparr>;
              Some (0, set_buffer a (buffer_reset ib1) (set_os k p), snd (routing_parse L cb g mem fd (pending ib1) rt))
            }
      })"

definition routing_write :: "nat \<Rightarrow> (echo, 'k) server \<Rightarrow> int \<times> (echo, 'k) server" where
  "routing_write fd p = (0, p)"

text \<open>The group \<open>rout\<close> of the configuration: each element has three texts, or one is missing; then three integers. The result of
  \<open>route_register_config\<close> is not looked at.\<close>

fun load_routes :: "lib \<Rightarrow> (u8 list \<times> u8 list \<times> u8 list) option list \<Rightarrow> router \<Rightarrow> router option" where
  "load_routes L [] s = Some s"
| "load_routes L (None # es) s = None"
| "load_routes L (Some (name, src, remote) # es) s = do {
     (ret, s1) \<leftarrow> route_register_config L name src remote s;
     load_routes L es s1
   }"

definition routing_load_config :: "lib \<Rightarrow> (u8 list \<times> u8 list \<times> u8 list) option list option \<Rightarrow> (string \<Rightarrow> int option) \<Rightarrow> router \<Rightarrow>
    (int \<times> router) option" where
  "routing_load_config L rout cfg s = do {
     es \<leftarrow> rout;
     s1 \<leftarrow> load_routes L es s;
     r \<leftarrow> cfg ''retry'';
     t \<leftarrow> cfg ''timeout'';
     m \<leftarrow> cfg ''max_packet'';
     Some (0, s1\<lparr>retry_max := r, retry_ms := word_of_int t, max_packet := m\<rparr>)
   }"

section \<open>Datagrams\<close>

definition udp_ready :: "nat \<Rightarrow> (echo, 'k) server \<Rightarrow> bool" where
  "udp_ready fd p \<longleftrightarrow> (\<exists>b. e_heap (svc (kern p)) (wr_b (svc (kern p)) fd) = Some b \<and> buffer_ok b \<and> r_ofs b = 0 \<and> 0 < total b)"

definition udp_size :: "nat \<Rightarrow> (echo, 'k) server \<Rightarrow> nat" where
  "udp_size fd p = (case e_heap (svc (kern p)) (wr_b (svc (kern p)) fd) of None \<Rightarrow> 0 | Some b \<Rightarrow> total b)"

lemma ready_buffer:
  assumes "udp_ready fd p"
  obtains b where "e_heap (svc (kern p)) (wr_b (svc (kern p)) fd) = Some b" "r_ofs b = 0" "curr_ofs b = 0"
    "length (buff b) = total b" "udp_size fd p = total b" "0 < total b"
  using assms by (auto simp: udp_ready_def buffer_ok_def udp_size_def)

lemma new_buffer_ready:
  assumes "length (d_block os n) = n" "0 < n"
  shows "udp_ready fd (new_buffer os n fd p) \<and> udp_size fd (new_buffer os n fd p) = n"
  using assms by (simp add: udp_ready_def udp_size_def new_buffer_def set_buffer_def Let_def buffer_init_def buffer_ok_def)

definition dropped :: "nat \<Rightarrow> (echo, 'k) server \<Rightarrow> (echo, 'k) server \<Rightarrow> bool" where
  "dropped fd p p' \<longleftrightarrow> fd_state p' fd = FD_STCLOSE \<and> e_heap (svc (kern p')) (wr_b (svc (kern p)) fd) = None \<and>
     wr_b (svc (kern p')) fd = 0 \<and> e_conn (svc (kern p')) = e_conn (svc (kern p)) - 1 \<and> halted (kern p') = halted (kern p)"

lemma drop_socket_dropped:
  assumes "e_heap (svc (kern p)) (wr_b (svc (kern p)) fd) = Some b"
  shows "dropped fd p (drop_socket sy fd (set_os k p))"
proof -
  have st: "fd_state (fd_delete sys fd q) fd = FD_STCLOSE" for sys and q :: "(echo, 'a) server" by (simp add: fd_delete_def Let_def)
  show ?thesis using assms st
    by (simp add: dropped_def drop_socket_def call_def lift_sys_def set_os_def echo_disconnect_def)
qed

lemma routing_read_parse:
  assumes "udp_ready fd p" and m: "recvfrom os fd (udp_size fd p) (os_state (kern p)) = (Some (d, peer), k)"
    and d: "d \<noteq> []" "length d \<le> udp_size fd p"
  shows "\<exists>p'. routing_read os sy L cb g mem fd p rt = Some (0, p', snd (routing_parse L cb g mem fd d rt)) \<and> udp_ready fd p'"
  using assms(1)
proof (rule ready_buffer)
  fix b assume b: "e_heap (svc (kern p)) (wr_b (svc (kern p)) fd) = Some b" "r_ofs b = 0" "curr_ofs b = 0"
    "length (buff b) = total b" "udp_size fd p = total b" "0 < total b"
  have "buffer_remain_write b = int (udp_size fd p)" using b by (simp add: buffer_remain_write_def)
  then show ?thesis using b m d
    by (simp add: routing_read_def Let_def Buffers.store_def pending_def udp_ready_def set_buffer_def set_os_def buffer_ok_def buffer_reset_def)
qed

text \<open>C36: echo over UDP: a datagram smaller than the buffer is sent back whole to the peer it came from, and the buffer is empty again, ready for
  the next one. A datagram as long as the buffer makes the NUL after it a store outside the block. An error, and an empty
  datagram too, closes the listening socket for everybody: the buffer is freed, and the connection count of the other echo service, which never counted this
  socket, goes down by one.\<close>

theorem echo_udp_answers:
  assumes ready: "udp_ready fd p" and m: "recvfrom os fd (udp_size fd p) (os_state (kern p)) = (m, k)"
    and len: "\<forall>d peer. m = Some (d, peer) \<longrightarrow> length d \<le> udp_size fd p"
  shows "case m of
      Some (x # xs, peer) \<Rightarrow>
        if length (x # xs) = udp_size fd p then echo_udp_read os sy fd p = None
        else (\<exists>p'. echo_udp_read os sy fd p = Some (0, p') \<and> os_state (kern p') = snd (sendto os fd (x # xs) peer k) \<and>
               udp_ready fd p' \<and> udp_size fd p' = udp_size fd p)
    | _ \<Rightarrow> \<exists>p'. echo_udp_read os sy fd p = Some (0, p') \<and> dropped fd p p'"
  using ready
proof (rule ready_buffer)
  fix b assume b: "e_heap (svc (kern p)) (wr_b (svc (kern p)) fd) = Some b" "r_ofs b = 0" "curr_ofs b = 0"
    "length (buff b) = total b" "udp_size fd p = total b" "0 < total b"
  have r: "recvfrom os fd (nat (buffer_remain_write b)) (os_state (kern p)) = (m, k)"
    using b m by (simp add: buffer_remain_write_def)
  note step = echo_udp_read_def Let_def b r
  consider "m = None" | peer where "m = Some ([], peer)" | x xs peer where "m = Some (x # xs, peer)" by (metis list.exhaust option.exhaust surj_pair)
  then show ?thesis
  proof cases
    case 3
    have l: "length (x # xs) \<le> total b" using len 3 b(5) by simp
    obtain n k1 where s: "sendto os fd (x # xs) peer k = (n, k1)" by fastforce
    show ?thesis
    proof (cases "length (x # xs) = total b")
      case False
      then have "length (x # xs) + 1 \<le> total b" using l by simp
      then show ?thesis using 3 s b(5,6) False
        by (simp add: step Buffers.store_def udp_ready_def udp_size_def set_buffer_def set_os_def buffer_ok_def buffer_reset_def)
    qed (use 3 s b(5,6) in \<open>simp add: step Buffers.store_def\<close>)
  qed (simp_all add: step drop_socket_dropped [OF b(1)])
qed

section \<open>An example\<close>

definition toy_dgrams :: "toy dgrams" where
  "toy_dgrams = \<lparr>recvfrom = (\<lambda>fd n k. (Some (take n [104, 105], 9), k)),
     sendto = (\<lambda>fd xs peer k. (int (length xs), k\<lparr>toy_log := (toy_log k)(fd := ([], snd (toy_log k fd) @ xs))\<rparr>)),
     d_malloc = toy_malloc, d_block = (\<lambda>n. replicate n 0)\<rparr>"

theorem echo_udp_answers_witness:
  "\<exists>p'. echo_udp_read toy_dgrams toy_sys 3 (new_buffer toy_dgrams 4096 3 toy_server) = Some (0, p') \<and>
     snd (toy_log (os_state (kern p')) 3) = [104, 105] \<and> udp_ready 3 p'"
proof -
  let ?p = "new_buffer toy_dgrams 4096 3 toy_server"
  have r: "udp_ready 3 ?p" "udp_size 3 ?p = 4096" using new_buffer_ready [of toy_dgrams 4096 3 toy_server] by (simp_all add: toy_dgrams_def)
  have k: "os_state (kern ?p) = os_state (kern toy_server)" by (simp add: new_buffer_def set_buffer_def Let_def)
  have m: "recvfrom toy_dgrams 3 (udp_size 3 ?p) (os_state (kern ?p)) = (Some ([104, 105], 9), os_state (kern ?p))"
    by (simp add: r(2)) (simp add: toy_dgrams_def)
  have s: "toy_log (snd (sendto toy_dgrams fd xs peer k1)) fd = ([], snd (toy_log k1 fd) @ xs)" for fd xs peer k1
    by (simp add: toy_dgrams_def)
  have l: "toy_log (os_state (kern ?p)) 3 = ([], [])" unfolding k by (simp add: toy_server_def)
  show ?thesis using echo_udp_answers [OF r(1) m, of toy_sys] r(2) s [of 3 "[104, 105]" 9 "os_state (kern ?p)"] l by (auto simp: k)
qed

end
