(* ===== verification/Http.thy ===== *)
theory Http
  imports Connections Buffers
begin

text \<open>
  The HTTP service, \<open>src/src/handler/http.c\<close>, on the descriptor table of theory \<open>Connections\<close>. A connection has a buffer for reading and one for
  writing, both structs in the heap. The request is parsed as a C string at the start of the read buffer, whatever was received: \<open>strstr\<close>
  stops at a NUL, and \<open>None\<close> is a search that leaves the block. \<open>recv ()\<close>, \<open>send ()\<close> and \<open>malloc ()\<close> are parameters. Shown: a request in
  one packet is answered with the response the code formats, and a connection whose \<open>send\<close> fails is asked to be watched again after it was closed.
\<close>

section \<open>State\<close>

definition ECHO_BUFFER_SIZE :: nat where "ECHO_BUFFER_SIZE = 4096"
definition SPLITTER :: u8 where "SPLITTER = 32"
definition HTTP_OK :: nat where "HTTP_OK = 200"
definition METHOD_GET :: "u8 list" where "METHOD_GET = bytes ''GET''"
definition METHOD_POST :: "u8 list" where "METHOD_POST = bytes ''POST''"

record http =
  h_heap :: "nat \<rightharpoonup> buffer"
  h_rd :: "nat \<Rightarrow> nat"          \<comment> \<open>\<open>fdtab[fd].cb[DIR_RD].b\<close>\<close>
  h_wr :: "nat \<Rightarrow> nat"          \<comment> \<open>\<open>fdtab[fd].cb[DIR_WR].b\<close>\<close>

record 'k tcp =
  t_recv :: "nat \<Rightarrow> nat \<Rightarrow> 'k \<Rightarrow> u8 list option \<times> 'k"
  t_send :: "nat \<Rightarrow> u8 list \<Rightarrow> 'k \<Rightarrow> int \<times> 'k"
  t_malloc :: "http \<Rightarrow> nat"
  t_block :: "nat \<Rightarrow> u8 list"

section \<open>The response\<close>

definition crlf :: "u8 list" where "crlf = [13, 10]"

definition response_text :: "nat \<Rightarrow> u8 list \<Rightarrow> u8 list" where
  "response_text err_code rep =
     bytes ''HTTP/1.1 '' @ digits err_code @ bytes '' OK'' @ crlf @ bytes ''Server: zeroxy'' @ crlf @
     bytes ''Content-Type: text/html; charset=UTF-8'' @ crlf @ bytes ''Content-Length: '' @ digits (length rep) @ crlf @
     bytes ''Connection: close'' @ crlf @ crlf @ rep"

text \<open>\<open>sprintf\<close> at the end of the write buffer, without a limit; the result is the length of the whole buffer.\<close>

definition http_response :: "nat \<Rightarrow> nat \<Rightarrow> u8 list \<Rightarrow> http \<Rightarrow> http option" where
  "http_response fd err_code rep s = do {
     ob \<leftarrow> h_heap s (h_wr s fd);
     let t = response_text err_code rep;
     bl \<leftarrow> Buffers.store (r_ofs ob) (t @ [0]) (buff ob);
     Some (s\<lparr>h_heap := (h_heap s)(h_wr s fd \<mapsto> ob\<lparr>buff := bl, r_ofs := r_ofs ob + length t\<rparr>)\<rparr>)
   }"

section \<open>The request\<close>

text \<open>\<open>strstr (m + i, SPLITTER)\<close>: the offset of the first space before a NUL.\<close>

definition strstr_split :: "u8 list \<Rightarrow> nat \<Rightarrow> nat option option" where
  "strstr_split m i =
     (let j = i + length (takeWhile (\<lambda>c. c \<noteq> 0 \<and> c \<noteq> SPLITTER) (drop i m))
      in if j \<ge> length m then None else Some (if m ! j = SPLITTER then Some j else None))"

text \<open>The method is copied into 12 bytes and a NUL put after it. \<open>CHK_METHOD\<close> compares up to and including the NUL.\<close>

definition http_parse :: "nat \<Rightarrow> u8 list \<Rightarrow> http \<Rightarrow> (bool \<times> http) option" where
  "http_parse fd req s = do {
     fi \<leftarrow> strstr_split req 0;
     case fi of
       None \<Rightarrow> Some (False, s)
     | Some first \<Rightarrow>
         if first > 12 then Some (False, s)
         else if first = 12 then None
         else let method = take first req
              in if method \<noteq> METHOD_GET \<and> method \<noteq> METHOD_POST then Some (False, s)
                 else do {
                   la \<leftarrow> strstr_split req (first + 1);
                   case la of
                     None \<Rightarrow> Some (False, s)
                   | Some lst \<Rightarrow>
                       let len_url = lst - (first + 1); url = take len_url (drop (first + 1) req)
                       in do {
                         s1 \<leftarrow> (if len_url < 127
                                then if url = bytes ''/stat'' then http_response fd HTTP_OK (bytes ''stat_statistic'') s
                                     else http_response fd HTTP_OK url s
                                else http_response fd HTTP_OK (bytes ''too long url'') s);
                         Some (True, s1)
                       }
                 }
   }"

section \<open>The callbacks\<close>

definition http_accept :: "'k tcp \<Rightarrow> nat \<Rightarrow> http \<Rightarrow> 'k \<Rightarrow> (u32 \<times> nat list \<times> http \<times> 'k) option" where
  "http_accept os fd s k =
     (let bl = buffer_init (t_block os ECHO_BUFFER_SIZE) ECHO_BUFFER_SIZE;
          ib = t_malloc os s; s1 = s\<lparr>h_heap := (h_heap s)(ib \<mapsto> bl)\<rparr>;
          ob = t_malloc os s1; s2 = s1\<lparr>h_heap := (h_heap s1)(ob \<mapsto> bl)\<rparr>
      in Some (0, [], s2\<lparr>h_rd := (h_rd s2)(fd := ib), h_wr := (h_wr s2)(fd := ob)\<rparr>, k))"

definition http_disconnect :: "nat \<Rightarrow> http \<Rightarrow> 'k \<Rightarrow> (u32 \<times> nat list \<times> http \<times> 'k) option" where
  "http_disconnect fd s k = do {
     ib \<leftarrow> h_heap s (h_rd s fd);
     let h1 = (h_heap s)(h_rd s fd := None);
     ob \<leftarrow> h1 (h_wr s fd);
     Some (0, [], s\<lparr>h_heap := h1(h_wr s fd := None)\<rparr>, k)
   }"

definition set_svc :: "http \<Rightarrow> 'k \<Rightarrow> (http, 'k) server \<Rightarrow> (http, 'k) server" where
  "set_svc s k p = p\<lparr>kern := (kern p)\<lparr>svc := s, os_state := k\<rparr>\<rparr>"

definition http_read :: "'k tcp \<Rightarrow> nat \<Rightarrow> (http, 'k) server \<Rightarrow> (u32 \<times> (http, 'k) server) option" where
  "http_read os fd p =
     (let s = svc (kern p) in do {
        ib \<leftarrow> h_heap s (h_rd s fd);
        let (d, k) = t_recv os fd (nat (buffer_remain_write ib)) (os_state (kern p));
        if d = None \<or> d = Some [] then Some (0, snd (fd_clr fd DIR_RD (set_svc s k p)))
        else do {
          bl \<leftarrow> Buffers.store (r_ofs ib) (the d) (buff ib);
          (answered, s1) \<leftarrow> http_parse fd bl (s\<lparr>h_heap := (h_heap s)(h_rd s fd \<mapsto> ib\<lparr>buff := bl, r_ofs := r_ofs ib + length (the d)\<rparr>)\<rparr>);
          Some (0, if answered then snd (fd_clr fd DIR_RD (snd (fd_set fd DIR_WR (set_svc s1 k p)))) else set_svc s1 k p)
        }
      })"

text \<open>Closing: \<open>fd_delete\<close> and \<open>http_disconnect\<close>.\<close>

definition http_close :: "'k sys \<Rightarrow> nat \<Rightarrow> (http, 'k) server \<Rightarrow> (http, 'k) server" where
  "http_close sy fd p = snd (call http_disconnect fd (fd_delete (lift_sys sy) fd p))"

definition http_write :: "'k tcp \<Rightarrow> 'k sys \<Rightarrow> nat \<Rightarrow> (http, 'k) server \<Rightarrow> (u32 \<times> (http, 'k) server) option" where
  "http_write os sy fd p =
     (let s = svc (kern p) in do {
        ob \<leftarrow> h_heap s (h_wr s fd);
        let (n, k) = t_send os fd (pending ob) (os_state (kern p));
        if n > 0
        then let ob1 = ob\<lparr>curr_ofs := curr_ofs ob + nat n\<rparr>;
                 p1 = set_svc (s\<lparr>h_heap := (h_heap s)(h_wr s fd \<mapsto> ob1)\<rparr>) k p
             in Some (0, if buffer_remain_read ob1 = 0 then http_close sy fd p1 else p1)
        else Some (- 1, http_close sy fd (set_svc s k p))
      })"

section \<open>A request in one packet\<close>

definition http_conn :: "nat \<Rightarrow> (http, 'k) server \<Rightarrow> bool" where
  "http_conn fd p \<longleftrightarrow> (let s = svc (kern p) in h_rd s fd \<noteq> h_wr s fd \<and>
     (\<exists>ib ob. h_heap s (h_rd s fd) = Some ib \<and> h_heap s (h_wr s fd) = Some ob \<and> buffer_ok ib \<and> buffer_ok ob \<and>
        r_ofs ib = 0 \<and> total ib = ECHO_BUFFER_SIZE \<and> r_ofs ob = 0 \<and> total ob = ECHO_BUFFER_SIZE))"

lemma accept_conn:
  assumes "t_malloc os s \<noteq> t_malloc os (s\<lparr>h_heap := (h_heap s)(t_malloc os s \<mapsto> buffer_init (t_block os ECHO_BUFFER_SIZE) ECHO_BUFFER_SIZE)\<rparr>)"
    and "length (t_block os ECHO_BUFFER_SIZE) = ECHO_BUFFER_SIZE" and "http_accept os fd s k = Some (r, ws, s', k')"
  shows "http_conn fd (set_svc s' k' p)"
  using assms by (auto simp: http_accept_def Let_def http_conn_def set_svc_def buffer_init_def buffer_ok_def)

lemma strstr_split_at:
  assumes "0 \<notin> set u" "SPLITTER \<notin> set u" "length v = i"
  shows "strstr_split (v @ u @ SPLITTER # w) i = Some (Some (i + length u))"
proof -
  have "takeWhile (\<lambda>c. c \<noteq> 0 \<and> c \<noteq> SPLITTER) (u @ SPLITTER # w) = u"
    using assms(1,2) by (subst takeWhile_append2) auto
  then show ?thesis using assms(3) by (simp add: strstr_split_def nth_append)
qed

text \<open>What a client receives for the path \<open>url\<close>.\<close>

definition page :: "u8 list \<Rightarrow> u8 list" where
  "page url = (if length url \<ge> 127 then bytes ''too long url'' else if url = bytes ''/stat'' then bytes ''stat_statistic'' else url)"

lemma digits_short: "length (digits n) \<le> n + 1"
proof (induction n rule: digits.induct)
  case (1 n)
  then show ?case by (subst digits.simps) auto
qed

lemma length_bytes: "length (bytes s) = length s"
  by (simp add: bytes_def)

lemma length_page: "length (page url) \<le> 126"
  by (simp add: page_def length_bytes)

lemma length_response: "length (response_text HTTP_OK (page url)) < 1000"
proof -
  have "length (digits 200) \<le> 201" by (rule order_trans [OF digits_short]) simp
  then show ?thesis using length_page [of url] digits_short [of "length (page url)"]
    by (simp add: response_text_def length_bytes crlf_def HTTP_OK_def)
qed

lemma http_response_sent:
  assumes ob: "h_heap s (h_wr s fd) = Some ob" "buffer_ok ob" "r_ofs ob = 0" "total ob = ECHO_BUFFER_SIZE"
  shows "\<exists>ob'. http_response fd HTTP_OK (page url) s = Some (s\<lparr>h_heap := (h_heap s)(h_wr s fd \<mapsto> ob')\<rparr>) \<and> buffer_ok ob' \<and>
    pending ob' = response_text HTTP_OK (page url)"
proof -
  let ?t = "response_text HTTP_OK (page url)"
  have l: "length ?t + 1 \<le> length (buff ob)" "curr_ofs ob = 0"
    using length_response [of url] ob(2-4) by (simp_all add: buffer_ok_def ECHO_BUFFER_SIZE_def)
  let ?b = "ob\<lparr>buff := (?t @ [0]) @ drop (length ?t + 1) (buff ob), r_ofs := length ?t\<rparr>"
  have "Buffers.store 0 (?t @ [0]) (buff ob) = Some ((?t @ [0]) @ drop (length ?t + 1) (buff ob))" using l by (simp add: Buffers.store_def)
  then have "http_response fd HTTP_OK (page url) s = Some (s\<lparr>h_heap := (h_heap s)(h_wr s fd \<mapsto> ?b)\<rparr>)"
    using ob(1,3) by (simp add: http_response_def Let_def)
  moreover have "buffer_ok ?b" "pending ?b = ?t" using ob(2,4) l by (simp_all add: buffer_ok_def pending_def)
  ultimately show ?thesis by blast
qed

lemma bind_Pair: "Option.bind x (\<lambda>y. Some (b, y)) = map_option (Pair b) x"
  by (cases x) simp_all

lemma parse_request:
  assumes m: "m = METHOD_GET \<or> m = METHOD_POST" and url: "0 \<notin> set url" "SPLITTER \<notin> set url"
  shows "http_parse fd (m @ SPLITTER # url @ SPLITTER # rest) s = map_option (Pair True) (http_response fd HTTP_OK (page url) s)"
proof -
  have lm: "length m \<le> 4" "0 \<notin> set m" "SPLITTER \<notin> set m"
    using m by (auto simp: METHOD_GET_def METHOD_POST_def bytes_def SPLITTER_def)
  let ?r = "m @ SPLITTER # url @ SPLITTER # rest"
  have f: "strstr_split ?r 0 = Some (Some (length m))" using strstr_split_at [of m "[]" 0 "url @ SPLITTER # rest"] lm by simp
  have l: "strstr_split ?r (length m + 1) = Some (Some (length m + 1 + length url))"
    using strstr_split_at [OF url, of "m @ [SPLITTER]" "length m + 1" rest] by simp
  have "\<not> length m > 12" "length m \<noteq> 12" "take (length m) ?r = m" using lm by simp_all
  then show ?thesis using f l m by (auto simp: http_parse_def page_def Let_def bind_Pair)
qed


section \<open>Closing\<close>

text \<open>A connection whose buffers are there and differ.\<close>

definition http_open :: "nat \<Rightarrow> (http, 'k) server \<Rightarrow> bool" where
  "http_open fd p \<longleftrightarrow> (let s = svc (kern p) in h_rd s fd \<noteq> h_wr s fd \<and> h_heap s (h_rd s fd) \<noteq> None \<and> h_heap s (h_wr s fd) \<noteq> None)"

lemma http_close_effect:
  assumes "http_open fd p"
  shows "\<exists>kn. http_close sy fd p = (fd_delete (lift_sys sy) fd p)\<lparr>kern := kn\<rparr> \<and> halted kn = halted (kern p) \<and>
    h_heap (svc kn) (h_rd (svc (kern p)) fd) = None \<and> h_heap (svc kn) (h_wr (svc (kern p)) fd) = None"
  using assms by (auto simp: http_open_def Let_def http_close_def call_def http_disconnect_def lift_sys_def)

lemma fd_delete_fields:
  "fd_state (fd_delete sys fd p) fd = FD_STCLOSE" "chg_ptr (fd_delete sys fd p) fd = None"
  "length (fd_evts (fd_delete sys fd p)) = length (fd_evts p)"
  by (simp_all add: fd_delete_def fd_clo_def Let_def split: option.splits)

lemma fd_delete_evt: "FD2OFS fd < length (fd_evts p) \<Longrightarrow> evt (fd_evts (fd_delete sys fd p)) fd = 0"
  using evt_clear [of fd "fd_evts p" fd] by (simp add: fd_delete_def fd_clo_def Let_def split: option.splits)

lemma recheck_minus_one:
  assumes fd: "FD2OFS fd < length (fd_evts q)" and q: "evt (fd_evts q) fd = 0" "chg_ptr q fd = None"
  shows "evt (fd_evts (recheck_state sys cb fd (- 1) q)) fd = 3 \<and> (0, fd) \<in> set (chg_list (recheck_state sys cb fd (- 1) q)) \<and>
    fd_state (recheck_state sys cb fd (- 1) q) = fd_state q"
proof -
  let ?q1 = "snd (fd_set fd DIR_RD q)" and ?q2 = "snd (fd_set fd DIR_WR (snd (fd_set fd DIR_RD q)))"
  have masks: "DIR2MSK DIR_RD = 1" "DIR2MSK DIR_WR = 2" by (simp_all add: DIR2MSK_def DIR_RD_def DIR_WR_def)
  have q1: "evt (fd_evts ?q1) fd = 1" "length (fd_evts ?q1) = length (fd_evts q)" "chg_list ?q1 = chg_list q @ [(0, fd)]" "chg_ptr ?q1 fd \<noteq> None"
    "fd_state ?q1 = fd_state q"
    using evt_or [OF fd, of 1 fd] q by (simp_all add: fd_set_def Let_def masks alloc_chg_list_def)
  have q2: "evt (fd_evts ?q2) fd = 3" "chg_list ?q2 = chg_list ?q1" "fd_state ?q2 = fd_state q"
    using evt_or [of fd "fd_evts ?q1" 2 fd] fd q1 by (simp_all add: fd_set_def [of fd DIR_WR] Let_def masks alloc_chg_list_def)
  have clr: "snd (fd_clr fd d q) = q" for d using q(1) by (simp add: fd_clr_def Let_def)
  have "recheck_state sys cb fd (- 1) q = ?q2"
    by (simp add: recheck_state_def Let_def clr ZB_CLOSE_def ZB_CLOSE_RD_def ZB_CLOSE_WR_def ZB_SET_RD_def ZB_SET_WR_def)
  then show ?thesis using q2 q1(3) by simp
qed

lemma http_closed:
  assumes "http_open fd q" and "FD2OFS fd < length (fd_evts q)"
  obtains p' where "http_close sy fd q = p'" "fd_state p' fd = FD_STCLOSE" "h_heap (svc (kern p')) (h_rd (svc (kern q)) fd) = None"
    "h_heap (svc (kern p')) (h_wr (svc (kern q)) fd) = None" "evt (fd_evts p') fd = 0" "chg_ptr p' fd = None" "FD2OFS fd < length (fd_evts p')"
  using http_close_effect [OF assms(1), of sy] fd_delete_fields [of "lift_sys sy" fd q] fd_delete_evt [of fd q "lift_sys sy"] assms(2) by auto

text \<open>C38: HTTP: once a response is sent whole the connection is closed and its two buffers are freed, and a partial \<open>send\<close> leaves the rest pending. A failed
  \<open>send\<close> closes it as well, but the result -1 has all the flag bits set, so that the poller records interest in
  both directions of the descriptor it has just closed.\<close>

theorem http_write_closes:
  assumes conn: "http_open fd p" and fd: "FD2OFS fd < length (fd_evts p)" and ob: "h_heap (svc (kern p)) (h_wr (svc (kern p)) fd) = Some ob"
    and ok: "buffer_ok ob" and send: "t_send os fd (pending ob) (os_state (kern p)) = (n, k)" "n \<le> int (length (pending ob))"
  shows "\<exists>r p'. http_write os sy fd p = Some (r, p') \<and>
    (if 0 < n \<and> n < int (length (pending ob))
     then r = 0 \<and> (\<exists>ob'. h_heap (svc (kern p')) (h_wr (svc (kern p)) fd) = Some ob' \<and> pending ob' = drop (nat n) (pending ob))
     else fd_state p' fd = FD_STCLOSE \<and> h_heap (svc (kern p')) (h_rd (svc (kern p)) fd) = None \<and>
       h_heap (svc (kern p')) (h_wr (svc (kern p)) fd) = None \<and>
       evt (fd_evts (recheck_state (lift_sys sy) cb fd r p')) fd = (if n \<le> 0 then 3 else 0))"
proof -
  have zero: "evt (fd_evts (recheck_state sys cb fd 0 q)) fd = evt (fd_evts q) fd" for sys and q :: "(http, 'a) server"
    by (simp add: recheck_state_def Let_def ZB_CLOSE_def ZB_CLOSE_RD_def ZB_CLOSE_WR_def)
  have w: "http_open fd (set_svc (svc (kern p)) k p)"
      "http_open fd (set_svc ((svc (kern p))\<lparr>h_heap := (h_heap (svc (kern p)))(h_wr (svc (kern p)) fd \<mapsto> b)\<rparr>) k p)" for b
    using conn by (simp_all add: http_open_def set_svc_def Let_def)
  have len: "int (length (pending ob)) = buffer_remain_read ob" using ok by (simp add: pending_def buffer_ok_def buffer_remain_read_def)
  consider "n \<le> 0" | "0 < n" "n < int (length (pending ob))" | "0 < n" "n = int (length (pending ob))" using send(2) by linarith
  then show ?thesis
  proof cases
    case 1
    let ?q = "set_svc (svc (kern p)) k p"
    have q: "FD2OFS fd < length (fd_evts ?q)" "svc (kern ?q) = svc (kern p)" using fd by (simp_all add: set_svc_def)
    obtain p' where p': "http_close sy fd ?q = p'" "fd_state p' fd = FD_STCLOSE" "h_heap (svc (kern p')) (h_rd (svc (kern ?q)) fd) = None"
      "h_heap (svc (kern p')) (h_wr (svc (kern ?q)) fd) = None" "evt (fd_evts p') fd = 0" "chg_ptr p' fd = None" "FD2OFS fd < length (fd_evts p')"
      using w(1) q(1) by (rule http_closed)
    then show ?thesis using 1 ob send(1) recheck_minus_one [OF p'(7,5,6)] by (simp add: http_write_def Let_def q(2))
  next
    case 2
    then have "buffer_remain_read (ob\<lparr>curr_ofs := curr_ofs ob + nat n\<rparr>) \<noteq> 0" using len by (simp add: buffer_remain_read_def)
    moreover have "pending (ob\<lparr>curr_ofs := curr_ofs ob + nat n\<rparr>) = drop (nat n) (pending ob)" by (simp add: pending_def add.commute)
    ultimately show ?thesis using 2 ob send(1) by (simp add: http_write_def Let_def set_svc_def)
  next
    case 3
    let ?q = "set_svc ((svc (kern p))\<lparr>h_heap := (h_heap (svc (kern p)))(h_wr (svc (kern p)) fd \<mapsto> ob\<lparr>curr_ofs := curr_ofs ob + nat n\<rparr>)\<rparr>) k p"
    have z: "buffer_remain_read (ob\<lparr>curr_ofs := curr_ofs ob + nat n\<rparr>) = 0" using 3 len by (simp add: buffer_remain_read_def)
    have q: "FD2OFS fd < length (fd_evts ?q)" "h_rd (svc (kern ?q)) = h_rd (svc (kern p))" "h_wr (svc (kern ?q)) = h_wr (svc (kern p))"
      using fd by (simp_all add: set_svc_def)
    obtain p' where p': "http_close sy fd ?q = p'" "fd_state p' fd = FD_STCLOSE" "h_heap (svc (kern p')) (h_rd (svc (kern ?q)) fd) = None"
      "h_heap (svc (kern p')) (h_wr (svc (kern ?q)) fd) = None" "evt (fd_evts p') fd = 0"
      using w(2) q(1) by (rule http_closed)
    then show ?thesis using 3 ob send(1) z zero unfolding q(2,3) by (simp add: http_write_def Let_def)
  qed
qed

section \<open>An example\<close>

definition http_socks :: "int \<Rightarrow> unit tcp" where
  "http_socks n = \<lparr>t_recv = (\<lambda>fd m k. (Some (METHOD_GET @ SPLITTER # bytes ''/hi'' @ SPLITTER # bytes ''HTTP''), k)), t_send = (\<lambda>fd xs k. (n, k)),
     t_malloc = (\<lambda>s. if h_heap s 1 = None then 1 else 2), t_block = (\<lambda>n. replicate n 0)\<rparr>"

definition http_sys :: "unit sys" where
  "http_sys = \<lparr>epoll_ctl = (\<lambda>_ _ _ k. k), close_fd = (\<lambda>_ k. k), epoll_wait = (\<lambda>_ k. (0, []))\<rparr>"

definition http_idle :: "http" where
  "http_idle = \<lparr>h_heap = Map.empty, h_rd = (\<lambda>_. 0), h_wr = (\<lambda>_. 0)\<rparr>"

definition http_server :: "(http, unit) server" where
  "http_server = \<lparr>fd_evts = [0], chg_list = [], chg_ptr = (\<lambda>_. None), fd_state = (\<lambda>_. FD_STCONN), maxfd = 5, clk = clock0,
     kern = \<lparr>cb_f = (\<lambda>_ _. Null), fd_owner = (\<lambda>_. 0), svc = (case http_accept (http_socks 0) 4 http_idle () of Some (r, ws, s, k) \<Rightarrow> s),
       os_state = (), halted = False\<rparr>\<rparr>"

lemma http_server_facts: "http_conn 4 http_server" "http_open 4 http_server" "FD2OFS 4 < length (fd_evts http_server)"
proof -
  show "http_conn 4 http_server"
    by (simp add: http_conn_def http_server_def http_accept_def Let_def http_socks_def http_idle_def buffer_init_def buffer_ok_def)
  then show "http_open 4 http_server" by (auto simp: http_open_def http_conn_def Let_def)
  show "FD2OFS 4 < length (fd_evts http_server)" by (simp add: http_server_def FD2OFS_def)
qed


theorem http_write_closes_witness:
  "\<exists>r p'. http_write (http_socks (- 1)) http_sys 4 http_server = Some (r, p') \<and> fd_state p' 4 = FD_STCLOSE \<and>
     evt (fd_evts (recheck_state (lift_sys http_sys) (\<lambda>_ _ p. (0, p)) 4 r p')) 4 = 3"
proof -
  obtain ob where ob: "h_heap (svc (kern http_server)) (h_wr (svc (kern http_server)) 4) = Some ob" "buffer_ok ob"
    using http_server_facts(1) by (auto simp: http_conn_def Let_def)
  have "t_send (http_socks (- 1)) 4 (pending ob) (os_state (kern http_server)) = (- 1, ())" by (simp add: http_socks_def)
  from http_write_closes [OF http_server_facts(2,3) ob this, of http_sys "\<lambda>_ _ p. (0, p)"] show ?thesis by auto
qed

end
