(* ===== verification/Http_Messages.thy ===== *)
theory Http_Messages
  imports Prelude
begin

text \<open>
  Building blocks of the HTTP front end of the publish/subscribe service: responses (\<open>src/src/handler/http/http_response.h\<close>) and session
  cookies (\<open>cookie.h\<close>). Texts are lists of bytes without a NUL. The vector of header fields is a list, the hash table of cookies the list of
  its entries, the last one added first; the table compares names only. \<open>rand ()\<close> is a parameter. \<open>buf\<close> is represented by the text in
  it; a write outside \<open>buf\<close> or outside the block of a field is \<open>None\<close>.
\<close>

section \<open>Responses\<close>

definition SERVER_NAME :: "u8 list" where "SERVER_NAME = bytes ''zeroser''"
definition MIME_TEXT :: "u8 list" where "MIME_TEXT = bytes ''text/html; charset=UTF-8''"
definition HTTP_OK :: int where "HTTP_OK = 200"

record reply =
  err_code :: int
  mime_type :: "u8 list"
  rep_content :: "u8 list"
  rep_length :: nat
  hdr_fields :: "(u8 list \<times> u8 list) list"

definition http_create_response :: "int \<Rightarrow> u8 list \<Rightarrow> u8 list \<Rightarrow> nat \<Rightarrow> reply" where
  "http_create_response err mime content len =
     \<lparr>err_code = err, mime_type = mime, rep_content = content, rep_length = len, hdr_fields = []\<rparr>"

definition http_add_header_field :: "u8 list \<Rightarrow> u8 list \<Rightarrow> reply \<Rightarrow> reply" where
  "http_add_header_field name value r = r\<lparr>hdr_fields := hdr_fields r @ [(name, value)]\<rparr>"

definition err_msg :: "int \<Rightarrow> u8 list" where
  "err_msg code =
     (if code = 200 then bytes ''OK'' else if code = 400 then bytes ''Bad Request'' else if code = 401 then bytes ''Unauthorized''
      else if code = 403 then bytes ''Forbidden'' else if code = 404 then bytes ''Not Found'' else bytes ''Unknown'')"

definition eol :: "u8 list" where "eol = [13, 10]"

definition status_text :: "reply \<Rightarrow> u8 list" where
  "status_text r =
     bytes ''HTTP/1.1 '' @ fmt_d (err_code r) @ bytes '' '' @ err_msg (err_code r) @ eol @
     bytes ''Server: '' @ SERVER_NAME @ eol @ bytes ''Content-Type: '' @ mime_type r @ eol @
     bytes ''Content-Length: '' @ fmt_d (int (rep_length r)) @ eol"

definition field_text :: "u8 list \<times> u8 list \<Rightarrow> u8 list" where
  "field_text f = fst f @ bytes '': '' @ snd f @ eol"

text \<open>The loop over the fields: \<open>Inl\<close> is the text in \<open>buf\<close> when the function gives up. A field is first printed into 1024 bytes.\<close>

fun field_loop :: "nat \<Rightarrow> (u8 list \<times> u8 list) list \<Rightarrow> u8 list \<Rightarrow> (u8 list + u8 list) option" where
  "field_loop max_len [] s = Some (Inr s)"
| "field_loop max_len (f # fs) s =
     (let t = field_text f
      in if length t + 1 > 1024 then None
         else if max_len \<le> length s + length t + 2 then Some (Inl s)
         else if length s + length t + 1 > max_len then None
         else field_loop max_len fs (s @ t))"

text \<open>For \<open>max_len\<close> at least 2, the size of \<open>buf\<close>. \<open>memcpy\<close> reads \<open>length\<close> bytes of the content.\<close>

definition http_msg_response :: "nat \<Rightarrow> reply \<Rightarrow> (int \<times> u8 list) option" where
  "http_msg_response max_len r = do {
     x \<leftarrow> field_loop max_len (hdr_fields (http_add_header_field (bytes ''Connection'') (bytes ''close'') r)) (take (max_len - 1) (status_text r));
     case x of
       Inl s \<Rightarrow> Some (- 1, s)
     | Inr s \<Rightarrow>
         if length s + 3 > max_len then None
         else let s1 = s @ eol; cur_len = length s1
              in if cur_len + rep_length r > max_len then Some (- 1, s1)
                 else if rep_length r > length (rep_content r) then None
                 else Some (int (cur_len + rep_length r), s1 @ take (rep_length r) (rep_content r))
   }"

section \<open>Cookies\<close>

definition COOKIE_LEN :: nat where "COOKIE_LEN = 10"

fun zen_loop :: "('r \<Rightarrow> nat \<times> 'r) \<Rightarrow> nat \<Rightarrow> 'r \<Rightarrow> u8 list \<times> 'r" where
  "zen_loop rnd 0 g = ([], g)"
| "zen_loop rnd (Suc n) g = (let (x, g1) = rnd g; (cs, g2) = zen_loop rnd n g1 in (of_nat (x mod 25 + 97) # cs, g2))"

definition zen_cookie :: "('r \<Rightarrow> nat \<times> 'r) \<Rightarrow> 'r \<Rightarrow> u8 list \<times> 'r" where
  "zen_cookie rnd g = zen_loop rnd COOKIE_LEN g"

type_synonym cookies = "(u8 list \<times> nat) list"

text \<open>NULL is \<open>None\<close>.\<close>

definition cookie_get :: "u8 list \<Rightarrow> cookies \<Rightarrow> (u8 list \<times> nat) option" where
  "cookie_get name c = find (\<lambda>x. fst x = name) c"

definition cookie_remove :: "u8 list \<Rightarrow> cookies \<Rightarrow> int \<times> cookies" where
  "cookie_remove name c = (case cookie_get name c of None \<Rightarrow> (- 1, c) | Some x \<Rightarrow> (0, remove1 x c))"

definition cookie_get_content :: "u8 list \<Rightarrow> cookies \<Rightarrow> nat option" where
  "cookie_get_content name c = map_option snd (cookie_get name c)"

text \<open>\<open>malloc\<close> gives memory or not.\<close>

definition cookie_put_content :: "('r \<Rightarrow> nat \<times> 'r) \<Rightarrow> bool \<Rightarrow> nat \<Rightarrow> cookies \<times> 'r \<Rightarrow> u8 list option \<times> cookies \<times> 'r" where
  "cookie_put_content rnd memory content s =
     (if \<not> memory then (None, s)
      else let (name, g) = zen_cookie rnd (snd s); name' = take COOKIE_LEN name in (Some name', (name', content) # fst s, g))"

section \<open>Properties\<close>

definition message :: "reply \<Rightarrow> u8 list" where
  "message r = status_text r @ concat (map field_text (hdr_fields r @ [(bytes ''Connection'', bytes ''close'')])) @ eol @ take (rep_length r) (rep_content r)"

lemma field_loop_text:
  assumes "\<forall>f \<in> set fs. length (field_text f) < 1024"
  shows "if fs = [] \<or> length (s @ concat (map field_text fs)) + 2 < m then field_loop m fs s = Some (Inr (s @ concat (map field_text fs)))
    else \<exists>t. field_loop m fs s = Some (Inl t)"
  using assms
proof (induction fs arbitrary: s)
  case (Cons f fs)
  show ?case
  proof (cases "m \<le> length s + length (field_text f) + 2")
    case False
    then show ?thesis using Cons.IH [of "s @ field_text f"] Cons.prems by (cases "fs = []") (auto simp: Let_def)
  qed (use Cons.prems in \<open>auto simp: Let_def\<close>)
qed simp

text \<open>\<open>http_msg_response\<close> never writes outside a buffer of \<open>m\<close> bytes; it returns the whole message, with all header fields,
  \<open>Connection: close\<close>, an empty line and the content, and its length, when the message is at most \<open>m\<close> bytes long and its header leaves
  room for the final NUL, and -1 otherwise. (A field of 1024 bytes or more overflows another block first.)\<close>

theorem http_message_fits:
  assumes m: "2 \<le> m" and f: "\<forall>f \<in> set (hdr_fields r). length (field_text f) < 1024" and c: "rep_length r \<le> length (rep_content r)"
  shows "\<exists>ret out. http_msg_response m r = Some (ret, out) \<and>
    (if length (message r) \<le> m \<and> length (message r) < m + rep_length r
     then ret = int (length (message r)) \<and> out = message r else ret = - 1)"
proof -
  let ?fs = "hdr_fields r @ [(bytes ''Connection'', bytes ''close'')]"
  let ?F = "concat (map field_text ?fs)" and ?s = "take (m - 1) (status_text r)"
  have fs: "\<forall>f \<in> set ?fs. length (field_text f) < 1024" using f by (auto simp: field_text_def bytes_def eol_def)
  have len: "length (message r) = length (status_text r) + length ?F + 2 + rep_length r" using c by (simp add: message_def eol_def)
  have big: "length ?F \<ge> 2" by (simp add: field_text_def eol_def)
  show ?thesis
  proof (cases "length (?s @ ?F) + 2 < m")
    case True
    then have s: "?s = status_text r" using big by simp
    then have "field_loop m ?fs (status_text r) = Some (Inr (status_text r @ ?F))" using True field_loop_text [OF fs, of "status_text r" m] by simp
    then show ?thesis using True s len c
      by (simp add: http_msg_response_def http_add_header_field_def Let_def eol_def message_def)
  next
    case False
    then obtain t where t: "field_loop m ?fs ?s = Some (Inl t)" using field_loop_text [OF fs, of ?s m] by auto
    have "m \<le> length (status_text r) + length ?F + 2" using False by simp
    then have "\<not> (length (message r) \<le> m \<and> length (message r) < m + rep_length r)" using len by linarith
    then show ?thesis using t by (simp add: http_msg_response_def http_add_header_field_def)
  qed
qed

definition reply_hi :: reply where
  "reply_hi = http_add_header_field (bytes ''Set-Cookie'') (bytes ''zchat=a'') (http_create_response HTTP_OK MIME_TEXT (bytes ''hi'') 2)"

theorem http_message_fits_witness:
  "http_msg_response 4096 reply_hi = Some (int (length (message reply_hi)), message reply_hi)"
proof -
  have r: "hdr_fields reply_hi = [(bytes ''Set-Cookie'', bytes ''zchat=a'')]" "rep_length reply_hi = 2" "rep_content reply_hi = bytes ''hi''"
    "err_code reply_hi = 200" "mime_type reply_hi = MIME_TEXT"
    by (simp_all add: reply_hi_def http_add_header_field_def http_create_response_def HTTP_OK_def)
  have "\<forall>f \<in> set (hdr_fields reply_hi). length (field_text f) < 1024" by (simp add: r field_text_def bytes_def eol_def)
  moreover have "rep_length reply_hi \<le> length (rep_content reply_hi)" by (simp add: r bytes_def)
  moreover have "length (message reply_hi) \<le> 4096"
    by (simp add: message_def status_text_def field_text_def r bytes_def eol_def err_msg_def SERVER_NAME_def MIME_TEXT_def fmt_d_def digits.simps)
  ultimately show ?thesis using http_message_fits [of 4096 reply_hi] r(2) by auto
qed

section \<open>Cookies in the table\<close>

text \<open>What is put in is found under the name returned, and no longer when it is removed.\<close>

lemma length_zen [simp]: "length (fst (zen_loop rnd n g)) = n"
  by (induction n arbitrary: g) (auto simp: split_beta Let_def)

lemma cookie_found:
  assumes "cookie_put_content rnd True a s = (Some name, c, g)"
  shows "cookie_get_content name c = Some a \<and> length name = COOKIE_LEN \<and>
    (name' \<noteq> name \<longrightarrow> cookie_get_content name' c = cookie_get_content name' (fst s))"
  using assms by (auto simp: cookie_put_content_def zen_cookie_def cookie_get_content_def cookie_get_def split_beta Let_def)

lemma cookie_removed:
  assumes "distinct (map fst c)"
  shows "cookie_get_content name (snd (cookie_remove name c)) = None"
  using assms by (induction c) (auto simp: cookie_remove_def cookie_get_content_def cookie_get_def find_None_iff image_iff split: option.splits if_splits)

end
