(* ===== verification/Http_Pubsub.thy ===== *)
theory Http_Pubsub
  imports Pubsub_Spec Http_Messages Util
begin

text \<open>
  The HTTP front end of the publish/subscribe service, \<open>src/src/handler/http_pubsub.c\<close>: a request names a command in its path, the
  answer is a JSON text in a response, and a cookie ties the connections of one login together. The commands are those of theory
  \<open>Pubsub_Commands\<close>, with the responder of this file. The HTTP parser and the JSON library are parameters: \<open>hexec\<close> gives the callbacks a parser makes on a
  packet, with offsets into it, the number of bytes parsed, whether the protocol is to be changed, and its new state; \<open>serialize\<close> prints a JSON value.
\<close>

section \<open>Parameters\<close>

datatype event = On_url nat nat | On_header_field nat nat | On_message_complete

datatype json = JNum int | JBool bool | JString "u8 list" | JArray "json list" | JObject "(string \<times> json) list"

record henv =
  hexec :: "nat \<Rightarrow> u8 list \<Rightarrow> event list \<times> nat \<times> bool \<times> nat"
  hstart :: nat
  serialize :: "json \<Rightarrow> u8 list"
  rnd :: "nat \<Rightarrow> nat \<times> nat"

definition SESSION :: string where "SESSION = ''zchat''"

section \<open>Answers\<close>

definition topic_json :: "psub \<Rightarrow> nat \<Rightarrow> json option" where
  "topic_json s t = do {
     x \<leftarrow> top_heap s t;
     Some (JObject [(''name'', JString (top_name x)), (''members'', JNum (int (vector_size (members x)))), (''last_active'', JNum 0)])
   }"

definition account_json :: "psub \<Rightarrow> nat \<Rightarrow> json option" where
  "account_json s a = do {
     x \<leftarrow> acc_heap s a;
     Some (JObject [(''name'', JString (acc_name x)), (''online'', JBool (vector_size (acc_fds x) \<noteq> 0)), (''last_active'', JNum 0)])
   }"

text \<open>The loops over the list of a list command.\<close>

fun json_items :: "(nat \<Rightarrow> json option) \<Rightarrow> nat list \<Rightarrow> json list option" where
  "json_items f [] = Some []"
| "json_items f (x # xs) = do { j \<leftarrow> f x; js \<leftarrow> json_items f xs; Some (j # js) }"

definition list_json :: "string \<Rightarrow> (nat \<Rightarrow> json option) \<Rightarrow> vector \<Rightarrow> json option" where
  "list_json key f v = do {
     js \<leftarrow> (if vsize v > length (data v) then None else json_items f (contents v));
     Some (JObject [(''size'', JNum (int (vector_size v))), (key, JArray js)])
   }"

text \<open>A publication \<open>name: message\<close> is split at its first colon; the name and the message are copied into 1024 bytes each. Without a colon the object stays
  empty.\<close>

definition pub_json :: "u8 list \<Rightarrow> json option" where
  "pub_json t =
     (let text = takeWhile (\<lambda>c. c \<noteq> 0) t
      in if 58 \<notin> set text then Some (JObject [])
         else let user = takeWhile (\<lambda>c. c \<noteq> 58) text; msg = takeWhile (\<lambda>c. c \<noteq> 0) (take 1024 (drop (length user + 2) t))
              in if length user \<ge> 1024 \<or> length msg \<ge> 1024 then None
                 else Some (JObject [(''user'', JString user), (''msg'', JString msg)]))"

definition text_json :: "u8 list \<Rightarrow> u8 list option \<Rightarrow> json" where
  "text_json t cookie =
     JObject ((''msg'', JString t) # (case cookie of None \<Rightarrow> [] | Some c \<Rightarrow> [(SESSION, JString c)]))"

definition cors_fields :: "(u8 list \<times> u8 list) list" where
  "cors_fields =
     [(bytes ''Access-Control-Allow-Methods'', bytes ''GET, POST''), (bytes ''Access-Control-Allow-Credentials'', bytes ''true''),
      (bytes ''Access-Control-Allow-Origin'', bytes ''http://127.0.0.1:8000''), (bytes ''Access-Control-Allow-Headers'', bytes ''Content-Type, *'')]"

definition cookie_field :: "u8 list \<Rightarrow> u8 list \<times> u8 list" where
  "cookie_field c = (bytes ''Set-Cookie'', bytes SESSION @ [61] @ c @ bytes ''; Path=/'')"

text \<open>The cookie made for a login, when the descriptor has an account.\<close>

definition login_cookie :: "henv \<Rightarrow> nat \<Rightarrow> action \<Rightarrow> psub \<Rightarrow> u8 list option \<times> psub" where
  "login_cookie E a act s =
     (if a \<noteq> 0 \<and> act = ACT_LOGIN
      then let (name, c, g) = cookie_put_content (rnd E) True a (cookie_list s, rand_state s)
           in (name, s\<lparr>cookie_list := c, rand_state := g\<rparr>)
      else (None, s))"

text \<open>The response is built in a block of 4096 bytes. A length of -1 makes \<open>buffer_write\<close> copy \<open>SIZE_MAX\<close> bytes.\<close>

definition http_psub_on_response :: "henv \<Rightarrow> nat \<Rightarrow> action \<Rightarrow> content \<Rightarrow> psub \<Rightarrow> psub option" where
  "http_psub_on_response E fd act c s0 = do {
     ob \<leftarrow> wrb s0 fd;
     a \<leftarrow> account_get_by_fd fd s0;
     let (cookie, s) = login_cookie E a act s0;
     j \<leftarrow> (case c of
         Vec v \<Rightarrow>
           if act = ACT_LIST_TOPIC then list_json ''topics'' (topic_json s) v
           else do {
             _ \<leftarrow> buffer_sprintf ob (bytes ''--- Members: '' @ digits (vector_size v) @ bytes '' user'' @ [10]);
             list_json ''members'' (account_json s) v
           }
       | Text t \<Rightarrow> if act = ACT_REP_SUB then pub_json t else Some (text_json t cookie));
     let body = serialize E j;
     let rep = \<lparr>err_code = 200, mime_type = MIME_TEXT, rep_content = body, rep_length = length body,
       hdr_fields = (case cookie of None \<Rightarrow> [] | Some n \<Rightarrow> [cookie_field n]) @ cors_fields\<rparr>;
     (buf_len, out) \<leftarrow> http_msg_response 4096 rep;
     if buf_len < 0 then None
     else do {
       (_, ob1) \<leftarrow> buffer_write (buffer_reset ob) out;
       Some (s\<lparr>wrb := (wrb s)(fd \<mapsto> ob1), wr_enabled := insert fd (wr_enabled s)\<rparr>)
     }
   }"

section \<open>Requests\<close>

text \<open>What \<open>uri_decode\<close> stores, also when it gives up, of which a C string is the part before the first NUL.\<close>

fun decoded :: "u8 list \<Rightarrow> u8 list" where
  "decoded [] = []"
| "decoded (c # s) =
     (if c = 0x2b then 0x20 # decoded s
      else if c = 0x25 then
        (case s of x # y # s' \<Rightarrow> if \<not> ishex x \<or> \<not> ishex y then [] else (hexval x * 16 + hexval y) # decoded s' | _ \<Rightarrow> [])
      else c # decoded s)"

definition http_on_url :: "nat \<Rightarrow> nat \<Rightarrow> nat \<Rightarrow> psub \<Rightarrow> psub option" where
  "http_on_url fd at len s = do {
     x \<leftarrow> sessions s fd;
     let u = takeWhile (\<lambda>c. c \<noteq> 0) (take len (drop at (req_buf s)));
     Some (s\<lparr>sessions := (sessions s)(fd \<mapsto> x\<lparr>s_url := Some (takeWhile (\<lambda>c. c \<noteq> 0) (decoded (u @ [0])))\<rparr>)\<rparr>)
   }"

text \<open>\<open>strstr\<close> of a text in a string.\<close>

fun find_text :: "u8 list \<Rightarrow> u8 list \<Rightarrow> u8 list option" where
  "find_text t [] = (if t = [] then Some [] else None)"
| "find_text t (c # cs) = (if take (length t) (c # cs) = t then Some (c # cs) else find_text t cs)"

text \<open>The cookie is looked for from the name of the field to the next NUL, wherever the packet ends.\<close>

definition http_on_header_field :: "nat \<Rightarrow> nat \<Rightarrow> nat \<Rightarrow> psub \<Rightarrow> psub option" where
  "http_on_header_field fd at len s = do {
     x \<leftarrow> sessions s fd;
     if take 6 (drop at (req_buf s)) \<noteq> bytes ''Cookie'' then Some s
     else do {
       m \<leftarrow> cstr (req_buf s) at;
       case find_text (bytes ''zchat='') m of
         None \<Rightarrow> Some s
       | Some z \<Rightarrow> Some (s\<lparr>sessions := (sessions s)(fd \<mapsto>
             x\<lparr>s_cookie := (if 13 \<in> set z then Some (takeWhile (\<lambda>c. c \<noteq> 13) z) else None)\<rparr>)\<rparr>)
     }
   }"

text \<open>The account of the session's cookie is given the descriptor.\<close>

definition join_session :: "penv \<Rightarrow> nat \<Rightarrow> session \<Rightarrow> psub \<Rightarrow> psub option" where
  "join_session os fd x s =
     (case s_cookie x of
        None \<Rightarrow> Some s
      | Some c \<Rightarrow>
          if 61 \<notin> set c then Some s
          else (case cookie_get_content (drop (length (takeWhile (\<lambda>c. c \<noteq> 61) c) + 1) c) (cookie_list s) of
                 None \<Rightarrow> Some s
               | Some a \<Rightarrow> do {
                   y \<leftarrow> acc_heap s a;
                   v \<leftarrow> vpush os (acc_fds y) fd;
                   Some (s\<lparr>acc_heap := (acc_heap s)(a \<mapsto> y\<lparr>acc_fds := v\<rparr>)\<rparr>)
                 }))"

definition http_on_msg_complete :: "henv \<Rightarrow> penv \<Rightarrow> nat \<Rightarrow> psub \<Rightarrow> psub option" where
  "http_on_msg_complete E os fd s = do {
     x \<leftarrow> sessions s fd;
     s1 \<leftarrow> join_session os fd x s;
     url \<leftarrow> s_url x;
     if url = [] then None
     else do {
       (ret, m, s2) \<leftarrow> model_process (http_psub_on_response E) os fd (tl url @ [0]) 47 s1;
       let s3 = (if ret AND ZB_SET_WR \<noteq> 0 then s2\<lparr>wr_enabled := insert fd (wr_enabled s2)\<rparr> else s2);
       Some (if ret AND ZB_SET_RD \<noteq> 0 then s3\<lparr>rd_enabled := insert fd (rd_enabled s3)\<rparr> else s3)
     }
   }"

fun http_event :: "henv \<Rightarrow> penv \<Rightarrow> nat \<Rightarrow> event \<Rightarrow> psub \<Rightarrow> psub option" where
  "http_event E os fd (On_url at len) s = http_on_url fd at len s"
| "http_event E os fd (On_header_field at len) s = http_on_header_field fd at len s"
| "http_event E os fd On_message_complete s = http_on_msg_complete E os fd s"

fun http_events :: "henv \<Rightarrow> penv \<Rightarrow> nat \<Rightarrow> event list \<Rightarrow> psub \<Rightarrow> psub option" where
  "http_events E os fd [] s = Some s"
| "http_events E os fd (e # es) s = do { s1 \<leftarrow> http_event E os fd e s; http_events E os fd es s1 }"

section \<open>The callbacks\<close>

definition http_psub_request_accept :: "psub \<Rightarrow> u32" where
  "http_psub_request_accept s = (if p_conn s \<ge> p_max_conn s then ZB_FAIL else ZB_NOP)"

definition http_psub_accept :: "henv \<Rightarrow> u8 list \<Rightarrow> nat \<Rightarrow> psub \<Rightarrow> u32 \<times> psub" where
  "http_psub_accept E obl nfd s =
     (if p_conn s \<ge> p_max_conn s then (ZB_FAIL, s)
      else (ZB_NOP, s\<lparr>p_conn := p_conn s + 1, parsers := (parsers s)(nfd \<mapsto> hstart E),
                      wrb := (wrb s)(nfd \<mapsto> buffer_init obl HTTP_BUFFER_SIZE),
                      sessions := (sessions s)(nfd \<mapsto> \<lparr>s_url = None, s_cookie = None\<rparr>)\<rparr>))"

text \<open>The parser is looked for under the other direction, where there is none, and stays.\<close>

definition http_psub_disconnect :: "nat \<Rightarrow> psub \<Rightarrow> (u32 \<times> psub) option" where
  "http_psub_disconnect fd s = do {
     s1 \<leftarrow> model_acc_offline fd (s\<lparr>p_conn := p_conn s - 1\<rparr>);
     ob \<leftarrow> wrb s1 fd;
     Some (ZB_NOP, s1\<lparr>wrb := (wrb s1)(fd := None), sessions := (sessions s1)(fd := None)\<rparr>)
   }"

text \<open>The packet is received into one static block of 1024 bytes, which keeps the rest of earlier packets.\<close>

definition http_psub_read :: "henv \<Rightarrow> penv \<Rightarrow> nat \<Rightarrow> (nat \<Rightarrow> u8 list option) \<Rightarrow> psub \<Rightarrow> (u32 \<times> psub) option" where
  "http_psub_read E os fd recv s =
     (let d = (case recv 1024 of None \<Rightarrow> [] | Some d \<Rightarrow> d)
      in if d = [] then Some (ZB_CLOSE, s)
         else do {
           bl \<leftarrow> Buffers.store 0 d (req_buf s);
           st \<leftarrow> parsers s fd;
           let (es, nparsed, upgrade, st1) = hexec E st d;
           s1 \<leftarrow> http_events E os fd es (s\<lparr>req_buf := bl\<rparr>);
           let s2 = s1\<lparr>parsers := (parsers s1)(fd \<mapsto> st1)\<rparr>;
           if upgrade then Some (ZB_NOP, s2)
           else if nparsed \<noteq> length d then Some (ZB_CLOSE, s2)
           else Some (ZB_NOP, s2)
         })"

definition http_psub_write :: "nat \<Rightarrow> (u8 list \<Rightarrow> int) \<Rightarrow> psub \<Rightarrow> (u32 \<times> psub) option" where
  "http_psub_write fd send s = do {
     ob \<leftarrow> wrb s fd;
     let n = send (pending ob);
     if n > 0
     then let ob1 = ob\<lparr>curr_ofs := curr_ofs ob + nat n\<rparr>
          in if buffer_empty ob1 then Some (ZB_CLOSE_WR, s\<lparr>wrb := (wrb s)(fd \<mapsto> buffer_reset ob1)\<rparr>)
             else Some (ZB_SET_WR, s\<lparr>wrb := (wrb s)(fd \<mapsto> ob1)\<rparr>)
     else Some (ZB_CLOSE, s)
   }"

definition http_psub_load_config :: "(string \<Rightarrow> int option) \<Rightarrow> psub \<Rightarrow> (int \<times> psub) option" where
  "http_psub_load_config cfg s = (case cfg ''max_conn'' of None \<Rightarrow> None | Some n \<Rightarrow> Some (0, s\<lparr>p_max_conn := n\<rparr>))"

section \<open>Answers in the buffer\<close>

definition reply_of :: "henv \<Rightarrow> json \<Rightarrow> u8 list option \<Rightarrow> reply" where
  "reply_of E j cookie =
     \<lparr>err_code = 200, mime_type = MIME_TEXT, rep_content = serialize E j, rep_length = length (serialize E j),
      hdr_fields = (case cookie of None \<Rightarrow> [] | Some n \<Rightarrow> [cookie_field n]) @ cors_fields\<rparr>"

definition answer_json :: "action \<Rightarrow> u8 list \<Rightarrow> json option" where
  "answer_json act t = (if act = ACT_REP_SUB then pub_json t else Some (text_json t None))"

lemma reply_fields_small: "\<forall>f \<in> set (hdr_fields (reply_of E j None)). length (field_text f) < 1024"
  by (simp add: reply_of_def cors_fields_def field_text_def bytes_def eol_def)

lemma http_msg_reply:
  assumes "serialize E j \<noteq> []"
  shows "\<exists>ret out. http_msg_response 4096 (reply_of E j None) = Some (ret, out) \<and>
    (if length (message (reply_of E j None)) \<le> 4096
     then ret = int (length (message (reply_of E j None))) \<and> out = message (reply_of E j None) else ret = - 1)"
proof -
  have r: "rep_length (reply_of E j None) = length (serialize E j)" "rep_content (reply_of E j None) = serialize E j" by (simp_all add: reply_of_def)
  have "0 < length (serialize E j)" using assms by simp
  then have e: "length (message (reply_of E j None)) \<le> 4096 \<and> length (message (reply_of E j None)) < 4096 + rep_length (reply_of E j None) \<longleftrightarrow>
      length (message (reply_of E j None)) \<le> 4096" unfolding r(1) by linarith
  show ?thesis using http_message_fits [of 4096 "reply_of E j None", OF _ reply_fields_small] unfolding r(1) by (simp add: e [unfolded r(1)] r(2))
qed

text \<open>C39: answers over HTTP: an answer or publication replaces what still waits in the connection's buffer, so that an earlier answer that was not sent
  yet is lost. A response of less than 1024 bytes is then pending whole; a longer one of up to 4096 bytes is dropped and nothing is
  pending; and one that is longer still makes \<open>buffer_write\<close> copy a negative number of bytes, which ends the server.\<close>

theorem http_reply_written:
  assumes ob: "wrb s fd = Some ob" "buffer_ok ob" "total ob = Pubsub_Commands.HTTP_BUFFER_SIZE"
    and acc: "account_get_by_fd fd s = Some a" "\<not> (a \<noteq> 0 \<and> act = ACT_LOGIN)"
    and j: "answer_json act t = Some j" "serialize E j \<noteq> []"
  shows "if length (message (reply_of E j None)) > 4096 then http_psub_on_response E fd act (Text t) s = None
    else \<exists>ob'. http_psub_on_response E fd act (Text t) s = Some (s\<lparr>wrb := (wrb s)(fd \<mapsto> ob'), wr_enabled := insert fd (wr_enabled s)\<rparr>) \<and>
      buffer_ok ob' \<and> pending ob' =
        (if length (message (reply_of E j None)) < Pubsub_Commands.HTTP_BUFFER_SIZE then message (reply_of E j None) else [])"
proof -
  let ?m = "message (reply_of E j None)"
  obtain ret out where r: "http_msg_response 4096 (reply_of E j None) = Some (ret, out)"
    "if length ?m \<le> 4096 then ret = int (length ?m) \<and> out = ?m else ret = - 1"
    using http_msg_reply [OF j(2)] by blast
  have c: "login_cookie E a act s = (None, s)" using acc(2) by (auto simp: login_cookie_def)
  have res: "http_psub_on_response E fd act (Text t) s =
      (if ret < 0 then None
       else Option.bind (buffer_write (buffer_reset ob) out) (\<lambda>(_, ob1). Some (s\<lparr>wrb := (wrb s)(fd \<mapsto> ob1), wr_enabled := insert fd (wr_enabled s)\<rparr>)))"
    using r(1) j(1) by (simp add: http_psub_on_response_def ob(1) acc(1) c answer_json_def Let_def reply_of_def split: if_splits)
  have w: "\<exists>n b'. buffer_write (buffer_reset ob) out = Some (n, b') \<and> buffer_ok b' \<and> pending b' = (if length out < total ob then out else [])"
    using ob(2) by (auto simp: buffer_write_def buffer_reset_def buffer_remain_write_def Let_def Buffers.store_def buffer_ok_def pending_def)
  show ?thesis using r(2) res w ob(3) by (auto split: if_splits)
qed

section \<open>Sessions\<close>

lemma account_by_fd_only:
  assumes "\<forall>x \<in> set as. x \<noteq> a \<longrightarrow> (\<exists>y. h x = Some y \<and> vector_is_exist (acc_fds y) fd = Some False)"
    and "a \<in> set as" "h a = Some y" "vector_is_exist (acc_fds y) fd = Some True"
  shows "account_by_fd h fd as = Some a"
  using assms(1,2)
proof (induction as)
  case (Cons b as)
  then show ?case using assms(3,4) by (cases "b = a") auto
qed simp

lemma account_by_fd_none:
  assumes "account_by_fd h fd as = Some 0" and "0 \<notin> set as" and "x \<in> set as"
  shows "\<exists>y. h x = Some y \<and> vector_is_exist (acc_fds y) fd = Some False"
  using assms by (induction as) (auto split: if_splits bind_splits)

lemma join_session_account:
  assumes x: "s_cookie x = Some (u @ 61 # name)" "61 \<notin> set u" and c: "cookie_get_content name (cookie_list s) = Some a"
    and y: "acc_heap s a = Some y" "vector_ok (acc_fds y)" and "env_ok os" "fd \<noteq> 0"
  shows "\<exists>v. join_session os fd x s = Some (s\<lparr>acc_heap := (acc_heap s)(a \<mapsto> y\<lparr>acc_fds := v\<rparr>)\<rparr>) \<and> vector_ok v \<and> contents v = contents (acc_fds y) @ [fd]"
proof -
  have "takeWhile (\<lambda>c. c \<noteq> 61) (u @ 61 # name) = u" using x(2) by (subst takeWhile_append2) auto
  then have d: "drop (length (takeWhile (\<lambda>c. c \<noteq> 61) (u @ 61 # name)) + 1) (u @ 61 # name) = name" by simp
  obtain v where "vpush os (acc_fds y) fd = Some v" "vector_ok v" "contents v = contents (acc_fds y) @ [fd]"
    using vpush_ok [OF assms(6) y(2) assms(7)] by blast
  then show ?thesis unfolding join_session_def x(1) option.case d c by (intro exI [of _ v]) (simp add: y(1))
qed

lemma removed_once:
  assumes ok: "vector_ok v" and c: "contents v = xs @ [x, x]" and r: "vector_remove v x = Some (r, v')"
  shows "vector_ok v' \<and> x \<in> set (contents v')"
proof -
  have mem: "x \<in> set (contents v)" by (simp add: c)
  obtain i where "find_idx (data v) x 0 (vsize v) = Some i" "i < vsize v"
    using find_idx_spec [of 0 "vsize v" "data v" x] vector_okD [OF ok] mem by (auto simp: contents_def split: option.splits)
  then have "vsize v < capacity v" using r vector_okD [OF ok] by (auto simp: vector_remove_def Let_def split: if_splits)
  from vector_remove_ok [OF ok mem this] obtain w where w: "vector_remove v x = Some (0, w)" "vector_ok w" "contents w = remove1 x (contents v)" by blast
  have "x \<in> set (remove1 x (xs @ [x, x]))" by (simp add: remove1_append)
  then show ?thesis using w r c by simp
qed

text \<open>C40: a login that outlives its connection: every request of a session enters the descriptor once more into the vector of the account's
  descriptors, and closing the connection takes out one of them. After two requests the closed descriptor still belongs to the
  account, so the next client whose connection gets this number is logged in as that user without a cookie.\<close>

theorem http_session_stays:
  assumes x: "s_cookie x = Some (u @ 61 # name)" "61 \<notin> set u" and c: "cookie_get_content name (cookie_list s) = Some a"
    and a: "a \<in> set (accounts s)" "acc_heap s a = Some y" "vector_ok (acc_fds y)" "0 \<notin> set (accounts s)"
    and fd: "account_get_by_fd fd s = Some 0" "fd \<noteq> 0" and os: "env_ok os"
  shows "\<exists>s1 s2. join_session os fd x s = Some s1 \<and> join_session os fd x s1 = Some s2 \<and>
    (\<forall>r s3. http_psub_disconnect fd s2 = Some (r, s3) \<longrightarrow> account_get_by_fd fd s3 = Some a \<and> wrb s3 fd = None)"
proof -
  obtain v1 where v1: "join_session os fd x s = Some (s\<lparr>acc_heap := (acc_heap s)(a \<mapsto> y\<lparr>acc_fds := v1\<rparr>)\<rparr>)" "vector_ok v1"
    "contents v1 = contents (acc_fds y) @ [fd]" using join_session_account [OF x c a(2,3) os fd(2)] by blast
  let ?s1 = "s\<lparr>acc_heap := (acc_heap s)(a \<mapsto> y\<lparr>acc_fds := v1\<rparr>)\<rparr>"
  obtain v2 where v2: "join_session os fd x ?s1 = Some (?s1\<lparr>acc_heap := (acc_heap ?s1)(a \<mapsto> y\<lparr>acc_fds := v2\<rparr>)\<rparr>)" "vector_ok v2"
    "contents v2 = contents v1 @ [fd]" using join_session_account [OF x, of ?s1 a "y\<lparr>acc_fds := v1\<rparr>" os fd] c v1(2) os fd(2) by auto
  let ?s2 = "?s1\<lparr>acc_heap := (acc_heap ?s1)(a \<mapsto> y\<lparr>acc_fds := v2\<rparr>)\<rparr>"
  have others: "\<forall>b \<in> set (accounts s). b \<noteq> a \<longrightarrow> (\<exists>y. acc_heap s b = Some y \<and> vector_is_exist (acc_fds y) fd = Some False)"
    using account_by_fd_none [of "acc_heap s" fd "accounts s"] fd(1) a(4) by (auto simp: account_get_by_fd_def)
  have got: "account_by_fd ((acc_heap s)(a \<mapsto> y\<lparr>acc_fds := v\<rparr>)) fd (accounts s) = Some a" if "vector_ok v" "fd \<in> set (contents v)" for v
    using others a(1) vector_exist_ok [OF that(1), of fd] that(2) by (intro account_by_fd_only) auto
  have a0: "a \<noteq> 0" using a(1,4) by metis
  have "account_get_by_fd fd s3 = Some a \<and> wrb s3 fd = None" if d: "http_psub_disconnect fd ?s2 = Some (r, s3)" for r s3
  proof -
    have g: "account_get_by_fd fd (?s2\<lparr>p_conn := p_conn ?s2 - 1\<rparr>) = Some a" using got [OF v2(2)] v2(3) by (simp add: account_get_by_fd_def)
    have o: "model_acc_offline fd (?s2\<lparr>p_conn := p_conn ?s2 - 1\<rparr>) =
        Option.bind (vector_remove v2 fd) (\<lambda>(_, v). Some (?s2\<lparr>p_conn := p_conn ?s2 - 1, acc_heap := (acc_heap ?s2)(a \<mapsto> y\<lparr>acc_fds := v\<rparr>)\<rparr>))"
      unfolding model_acc_offline_def g using a0 by simp
    obtain r' v3 where v3: "vector_remove v2 fd = Some (r', v3)" "s3 = ?s2\<lparr>p_conn := p_conn ?s2 - 1, acc_heap := (acc_heap ?s2)(a \<mapsto> y\<lparr>acc_fds := v3\<rparr>),
        wrb := (wrb ?s2)(fd := None), sessions := (sessions ?s2)(fd := None)\<rparr>"
      using d unfolding http_psub_disconnect_def o by (auto split: bind_splits)
    have "vector_ok v3 \<and> fd \<in> set (contents v3)"
      using removed_once [OF v2(2), of "contents (acc_fds y)" fd] v2(3) v1(3) v3(1) by simp
    then show ?thesis using got v3(2) by (simp add: account_get_by_fd_def)
  qed
  then show ?thesis using v1(1) v2(1) by blast
qed

section \<open>An example\<close>

text \<open>The descriptor 7 is connected over HTTP; the cookie \<open>k\<close> belongs to the account at 100.\<close>

definition henv0 :: henv where
  "henv0 = \<lparr>hexec = (\<lambda>st d. ([], length d, False, st)), hstart = 0, serialize = (\<lambda>j. bytes ''{}''), rnd = (\<lambda>g. (g, g + 1))\<rparr>"

definition penv0 :: penv where
  "penv0 = \<lparr>new_account = (\<lambda>s. 102), new_topic = (\<lambda>s. 300), junk = (\<lambda>n. replicate n 0)\<rparr>"

definition psubh :: psub where
  "psubh = psub1\<lparr>cookie_list := [(bytes ''k'', 100)], wrb := [7 \<mapsto> buffer_init (replicate 1024 0) 1024]\<rparr>"

definition session_k :: session where
  "session_k = \<lparr>s_url = None, s_cookie = Some (bytes ''zchat'' @ 61 # bytes ''k'')\<rparr>"

lemma psubh_fields:
  "accounts psubh = [100]" "account_get_by_fd 7 psubh = Some 0" "wrb psubh 7 = Some (buffer_init (replicate 1024 0) 1024)"
  "acc_heap psubh 100 = Some \<lparr>acc_id = 1, acc_name = bytes ''u'', acc_auth = bytes ''pw'', sub_lists = vec [200], acc_fds = vec [5]\<rparr>"
  by (simp_all add: psubh_def psub1_def account_get_by_fd_def vector_exist_ok)

theorem http_reply_written_witness:
  "\<exists>s ob. http_psub_on_response henv0 7 ACT_PUB (Text (bytes ''success'')) psubh = Some s \<and> wrb s 7 = Some ob \<and>
     pending ob = message (reply_of henv0 (text_json (bytes ''success'') None) None)"
proof -
  let ?m = "message (reply_of henv0 (text_json (bytes ''success'') None) None)"
  let ?b = "buffer_init (replicate 1024 0) 1024"
  have len: "length ?m < 1024"
    by (simp add: message_def status_text_def field_text_def reply_of_def cors_fields_def henv0_def bytes_def eol_def err_msg_def
        SERVER_NAME_def MIME_TEXT_def fmt_d_def digits.simps)
  have b: "buffer_ok ?b" "total ?b = Pubsub_Commands.HTTP_BUFFER_SIZE" by (simp_all add: buffer_ok_def buffer_init_def Pubsub_Commands.HTTP_BUFFER_SIZE_def)
  have j: "answer_json ACT_PUB (bytes ''success'') = Some (text_json (bytes ''success'') None)" "serialize henv0 j \<noteq> []" for j
    by (simp_all add: answer_json_def henv0_def bytes_def)
  show ?thesis
    using http_reply_written [OF psubh_fields(3) b psubh_fields(2) _ j] len by (auto simp: Pubsub_Commands.HTTP_BUFFER_SIZE_def)
qed

theorem http_session_stays_witness:
  "\<exists>s1 s2 r s3. join_session penv0 7 session_k psubh = Some s1 \<and> join_session penv0 7 session_k s1 = Some s2 \<and>
     http_psub_disconnect 7 s2 = Some (r, s3) \<and> account_get_by_fd 7 s3 = Some 100 \<and> wrb s3 7 = None"
proof -
  have c: "cookie_get_content (bytes ''k'') (cookie_list psubh) = Some 100" by (simp add: psubh_def cookie_get_content_def cookie_get_def)
  have x: "s_cookie session_k = Some (bytes ''zchat'' @ 61 # bytes ''k'')" "61 \<notin> set (bytes ''zchat'')"
    by (simp_all add: session_k_def bytes_def)
  have runs: "join_session penv0 7 session_k psubh \<bind> join_session penv0 7 session_k \<bind> (\<lambda>s2. map_option fst (http_psub_disconnect 7 s2)) = Some ZB_NOP"
    by code_simp
  have "env_ok penv0" by (simp add: env_ok_def penv0_def)
  then obtain s1 s2 where s: "join_session penv0 7 session_k psubh = Some s1" "join_session penv0 7 session_k s1 = Some s2"
      "\<forall>r s3. http_psub_disconnect 7 s2 = Some (r, s3) \<longrightarrow> account_get_by_fd 7 s3 = Some 100 \<and> wrb s3 7 = None"
    using http_session_stays [OF x c _ psubh_fields(4), of 7 penv0] psubh_fields(1,2) by auto
  then have "http_psub_disconnect 7 s2 \<noteq> None" using runs by auto
  then show ?thesis using s by fast
qed

text \<open>The static block keeps earlier packets: a client that sends the header \<open>Cookie: a\<close> gets the session of whoever sent the packet before it, when its
  cookie lies behind the new packet.\<close>

lemma stale_cookie_taken:
  "map_option (\<lambda>s. map_option s_cookie (sessions s 8))
     (http_on_header_field 8 0 6 (psubh\<lparr>sessions := [8 \<mapsto> \<lparr>s_url = None, s_cookie = None\<rparr>],
       req_buf := the (Buffers.store 0 (bytes ''Cookie: a'' @ eol @ eol) (bytes ''GET /ack HTTP Cookie: zchat=k'' @ eol @ eol @ [0]))\<rparr>)) =
   Some (Some (Some (bytes ''zchat=k'')))"
  by code_simp

end
